(* ===== verification/Pipert_Prelude.thy ===== *)
theory Pipert_Prelude
  imports Main "HOL-Library.Multiset" "HOL-Library.Monad_Syntax"
begin

text \<open>
  Shared material of the development: the types that every component uses, the failure monad in
  which the code's \<^verbatim>\<open>assert\<close> statements are modelled, and generic lemmas on lists and
  options.

  An operation of the code that can fail an assertion (or run into undefined behaviour such as
  reading the front of an empty vector) returns an \<open>option\<close>: \<open>None\<close> means that execution
  does not get past that statement. The theorems show that well-formed states never reach
  \<open>None\<close>, so that debug builds (assertions on) and release builds (\<^verbatim>\<open>NDEBUG\<close>) behave alike.
\<close>

subsection \<open>Types shared by the components\<close>

text \<open>
  \<^verbatim>\<open>Timer::Time\<close> is \<^verbatim>\<open>int_least64_t\<close>. The library only compares times and subtracts them, and
  a signed overflow is undefined in C++, so a time is an \<open>int\<close> and the range is a predicate.
  A \<^verbatim>\<open>const char*\<close> used as an identity and a \<^verbatim>\<open>void*\<close> monitor object are addresses;
  \<open>0\<close> is \<^verbatim>\<open>nullptr\<close>.
\<close>

type_synonym time = int
type_synonym addr = nat
type_synonym cptr = nat

definition nullptr :: addr where
  "nullptr = 0"

text \<open>
  Counters that the code only increments and nothing bounds are kept at the 32 bits of an \<^verbatim>\<open>int\<close>. Signed
  overflow is undefined in C++; what is written out is the wrap-around of the machine instruction, and what is proved
  about the counters says how far they count.
\<close>

definition wrap_int :: "int \<Rightarrow> int" where
  "wrap_int x = signed_take_bit 31 x"

lemma wrap_int_id [simp]: "- (2 ^ 31) \<le> x \<Longrightarrow> x < 2 ^ 31 \<Longrightarrow> wrap_int x = x"
  unfolding wrap_int_def by (rule signed_take_bit_int_eq_self)

lemma wrap_int_range: "- (2 ^ 31) \<le> wrap_int x" "wrap_int x < 2 ^ 31"
  unfolding wrap_int_def by (rule signed_take_bit_int_greater_eq_minus_exp, rule signed_take_bit_int_less_exp)

lemma wrap_int_add: "wrap_int (wrap_int x + y) = wrap_int (x + y)"
proof -
  have "take_bit 32 (signed_take_bit 31 x) = take_bit 32 x" by (simp add: take_bit_signed_take_bit)
  then have "take_bit 32 (signed_take_bit 31 x + y) = take_bit 32 (x + y)"
    unfolding take_bit_eq_mod by (rule mod_add_cong) (rule refl)
  then show ?thesis unfolding wrap_int_def by (simp add: signed_take_bit_eq_iff_take_bit_eq)
qed

subsection \<open>Assertions\<close>

definition assert_that :: "bool \<Rightarrow> unit option" where
  "assert_that b = (if b then Some () else None)"

lemma assert_that_simps [simp]:
  "assert_that True = Some ()"
  "assert_that False = None"
  by (simp_all add: assert_that_def)

lemma assert_that_eq: "assert_that b = Some u \<longleftrightarrow> b"
  by (cases b) simp_all

lemma assert_that_bind_Some [simp]:
  "(assert_that b \<bind> f) = Some x \<longleftrightarrow> b \<and> f () = Some x"
  by (cases b) simp_all

lemma assert_that_bind_if:
  "(assert_that b \<bind> f) = (if b then f () else None)"
  by simp

text \<open>
  Where the code goes on after a failed assertion in a release build in a way that matters,
  \<open>dbg\<close> says whether assertions are compiled in.
\<close>

definition check :: "bool \<Rightarrow> bool \<Rightarrow> unit option" where
  "check dbg b = (if dbg \<and> \<not> b then None else Some ())"

subsection \<open>Automation\<close>

named_theorems pipert_defs \<open>definitions unfolded by the component proofs\<close>
named_theorems pipert_frame \<open>which fields an operation leaves alone\<close>

subsection \<open>Lists updated by index\<close>

definition swap :: "'a list \<Rightarrow> nat \<Rightarrow> nat \<Rightarrow> 'a list" where
  "swap xs i j = xs[i := xs ! j, j := xs ! i]"

lemma length_swap [simp]: "length (swap xs i j) = length xs"
  by (simp add: swap_def)

lemma nth_swap:
  "i < length xs \<Longrightarrow> j < length xs \<Longrightarrow> k < length xs \<Longrightarrow>
     swap xs i j ! k = (if k = j then xs ! i else if k = i then xs ! j else xs ! k)"
  by (simp add: swap_def nth_list_update)

lemma mset_swap_eq [simp]:
  "i < length xs \<Longrightarrow> j < length xs \<Longrightarrow> mset (swap xs i j) = mset xs"
  unfolding swap_def by (rule mset_swap)

lemma swap_same [simp]: "i < length xs \<Longrightarrow> swap xs i i = xs"
  by (simp add: swap_def)

text \<open>The first position of a value, as \<^verbatim>\<open>std::find\<close> on a vector computes it.\<close>

fun find_index :: "'a \<Rightarrow> 'a list \<Rightarrow> nat option" where
  "find_index v [] = None"
| "find_index v (x # xs) = (if x = v then Some 0 else map_option Suc (find_index v xs))"

lemma find_index_None [simp]: "find_index v xs = None \<longleftrightarrow> v \<notin> set xs"
  by (induction xs) auto

lemma find_index_Some:
  "find_index v xs = Some i \<Longrightarrow> i < length xs \<and> xs ! i = v"
  by (induction xs arbitrary: i) (auto split: if_splits)

lemma find_index_ex: "v \<in> set xs \<Longrightarrow> \<exists>i. find_index v xs = Some i"
  by (cases "find_index v xs") auto

text \<open>Swap-with-last removal: \<^verbatim>\<open>*it = v.back(); v.pop_back()\<close>.\<close>

definition swap_remove :: "nat \<Rightarrow> 'a list \<Rightarrow> 'a list" where
  "swap_remove i xs = butlast (xs[i := last xs])"

lemma mset_swap_remove:
  assumes "i < length xs"
  shows "mset (swap_remove i xs) = mset xs - {#xs ! i#}"
proof -
  from assms have ne: "xs \<noteq> []" by auto
  then obtain ys z where xs: "xs = ys @ [z]" by (cases xs rule: rev_cases) auto
  show ?thesis
  proof (cases "i = length ys")
    case True
    then show ?thesis by (simp add: swap_remove_def xs)
  next
    case False
    with assms xs have i: "i < length ys" by simp
    then have "mset (ys[i := z]) = add_mset z (mset ys - {#ys ! i#})"
      by (simp add: mset_update)
    with i show ?thesis
      by (simp add: swap_remove_def xs list_update_append nth_append)
  qed
qed

lemma count_list_distinct: "distinct xs \<Longrightarrow> x \<in> set xs \<Longrightarrow> count_list xs x = 1"
  by (induction xs) auto

end
