(* ===== verification/Steady_Heap.thy ===== *)
theory Steady_Heap
  imports Pipert_Prelude
begin

text \<open>
  Model of \<^verbatim>\<open>src/SteadyHeap.h\<close>: a binary heap in a vector whose capacity is reserved ahead of
  time. The ordering is a parameter, as in the template: \<open>cmp a b\<close> says that \<open>a\<close> belongs
  below \<open>b\<close>, so \<^verbatim>\<open>std::less\<close> gives a max heap and \<^verbatim>\<open>std::greater\<close> a min heap.

  The C++ standard fixes the effect of \<^verbatim>\<open>std::push_heap\<close> and \<^verbatim>\<open>std::pop_heap\<close>, not the
  algorithm. The definitions below are the classic ones (push: sift up; pop: exchange first and
  last, move the hole down to a leaf along the larger children, sift up from there). Everything the
  rest of the development uses of them is stated in the locale \<open>rekey_queue\<close> at the end of this
  theory, which is interpreted on these definitions.
\<close>

subsection \<open>The heap algorithms of the standard library\<close>

definition parent :: "nat \<Rightarrow> nat" where
  "parent i = (i - 1) div 2"

lemma parent_less [simp]: "0 < i \<Longrightarrow> parent i < i"
  by (simp add: parent_def)

lemma parent_le [simp]: "parent i \<le> i"
  by (simp add: parent_def)

lemma parent_eq_iff: "0 < c \<Longrightarrow> parent c = i \<longleftrightarrow> c = 2 * i + 1 \<or> c = 2 * i + 2"
  unfolding parent_def by arith

function sift_up :: "('a \<Rightarrow> 'a \<Rightarrow> bool) \<Rightarrow> 'a list \<Rightarrow> nat \<Rightarrow> 'a list" where
  "sift_up cmp xs i =
     (if 0 < i \<and> cmp (xs ! parent i) (xs ! i)
      then sift_up cmp (swap xs i (parent i)) (parent i) else xs)"
  by pat_completeness auto
termination
  by (relation "measure (\<lambda>(cmp, xs, i). i)") auto

declare sift_up.simps [simp del]

definition std_push_heap :: "('a \<Rightarrow> 'a \<Rightarrow> bool) \<Rightarrow> 'a list \<Rightarrow> 'a list" where
  "std_push_heap cmp xs = sift_up cmp xs (length xs - 1)"

function hole_down :: "('a \<Rightarrow> 'a \<Rightarrow> bool) \<Rightarrow> 'a list \<Rightarrow> nat \<Rightarrow> nat \<Rightarrow> 'a list \<times> nat" where
  "hole_down cmp xs n i =
     (if 2 * i + 2 < n then
        (let c = (if cmp (xs ! (2 * i + 2)) (xs ! (2 * i + 1)) then 2 * i + 1 else 2 * i + 2)
         in hole_down cmp (swap xs i c) n c)
      else if 2 * i + 2 = n then (swap xs i (2 * i + 1), 2 * i + 1)
      else (xs, i))"
  by pat_completeness auto
termination
  by (relation "measure (\<lambda>(cmp, xs, n, i). n - i)") auto

declare hole_down.simps [simp del]

definition std_pop_heap :: "('a \<Rightarrow> 'a \<Rightarrow> bool) \<Rightarrow> 'a list \<Rightarrow> 'a list" where
  "std_pop_heap cmp xs =
     (if 1 < length xs
      then (let n = length xs - 1; (ys, i) = hole_down cmp (swap xs 0 n) n 0
            in sift_up cmp ys i)
      else xs)"

subsection \<open>SteadyHeap\<close>

record 'a steady_heap =
  heap_items :: "'a list"
  heap_capacity :: nat

definition steady_heap_new :: "'a steady_heap" where
  "steady_heap_new = \<lparr>heap_items = [], heap_capacity = 0\<rparr>"

definition heap_empty :: "'a steady_heap \<Rightarrow> bool" where
  "heap_empty h \<longleftrightarrow> heap_items h = []"

definition heap_size :: "'a steady_heap \<Rightarrow> nat" where
  "heap_size h = length (heap_items h)"

definition heap_reserve :: "nat \<Rightarrow> 'a steady_heap \<Rightarrow> 'a steady_heap" where
  "heap_reserve n h = h\<lparr>heap_capacity := max (heap_capacity h) n\<rparr>"

definition heap_front :: "'a steady_heap \<Rightarrow> 'a option" where
  "heap_front h = (case heap_items h of [] \<Rightarrow> None | x # _ \<Rightarrow> Some x)"

definition heap_count :: "'a \<Rightarrow> 'a steady_heap \<Rightarrow> nat" where
  "heap_count v h = count_list (heap_items h) v"

text \<open>
  \<^verbatim>\<open>push_back\<close> allocates when the vector is full; the growth factor is the library's choice (here
  doubling). Below the reserved capacity nothing is allocated.
\<close>

definition push_back :: "'a \<Rightarrow> 'a steady_heap \<Rightarrow> 'a steady_heap" where
  "push_back v h =
     \<lparr>heap_items = heap_items h @ [v],
      heap_capacity =
        (if heap_size h < heap_capacity h then heap_capacity h else heap_size h + max (heap_size h) 1)\<rparr>"

definition push_heap :: "('a \<Rightarrow> 'a \<Rightarrow> bool) \<Rightarrow> 'a \<Rightarrow> 'a steady_heap \<Rightarrow> 'a steady_heap" where
  "push_heap cmp v h =
     (let h1 = push_back v h in h1\<lparr>heap_items := std_push_heap cmp (heap_items h1)\<rparr>)"

definition pop_heap :: "('a \<Rightarrow> 'a \<Rightarrow> bool) \<Rightarrow> 'a steady_heap \<Rightarrow> 'a steady_heap option" where
  "pop_heap cmp h =
     (if heap_empty h then None
      else Some (h\<lparr>heap_items := butlast (std_pop_heap cmp (heap_items h))\<rparr>))"

function swap_to_top :: "'a list \<Rightarrow> nat \<Rightarrow> 'a list" where
  "swap_to_top xs i =
     (if 0 < i then swap_to_top (swap xs i (parent i)) (parent i) else xs)"
  by pat_completeness auto
termination
  by (relation "measure (\<lambda>(xs, i). i)") auto

declare swap_to_top.simps [simp del]

definition force_to_top :: "'a \<Rightarrow> 'a steady_heap \<Rightarrow> 'a steady_heap option" where
  "force_to_top v h = do {
     i \<leftarrow> find_index v (heap_items h);
     Some (h\<lparr>heap_items := swap_to_top (heap_items h) i\<rparr>)
   }"

definition force_pop_heap :: "('a \<Rightarrow> 'a \<Rightarrow> bool) \<Rightarrow> 'a \<Rightarrow> 'a steady_heap \<Rightarrow> 'a steady_heap option" where
  "force_pop_heap cmp v h = do {
     h1 \<leftarrow> force_to_top v h;
     pop_heap cmp h1
   }"

subsection \<open>Permutations, lengths and frames\<close>

lemma length_sift_up [simp]: "length (sift_up cmp xs i) = length xs"
proof (induction cmp xs i rule: sift_up.induct)
  case (1 cmp xs i)
  then show ?case by (subst sift_up.simps) simp
qed

lemma mset_sift_up [simp]: "i < length xs \<Longrightarrow> mset (sift_up cmp xs i) = mset xs"
proof (induction cmp xs i rule: sift_up.induct)
  case (1 cmp xs i)
  have "parent i < length xs" using "1.prems" by (meson le_less_trans parent_le)
  with 1 show ?case by (subst sift_up.simps) simp
qed

lemma nth_sift_up_above: "i < length xs \<Longrightarrow> i < k \<Longrightarrow> k < length xs \<Longrightarrow> sift_up cmp xs i ! k = xs ! k"
proof (induction cmp xs i rule: sift_up.induct)
  case (1 cmp xs i)
  show ?case
  proof (cases "0 < i \<and> cmp (xs ! parent i) (xs ! i)")
    case True
    then have p: "parent i < i" by simp
    with "1.prems" have "parent i < length xs" "parent i < k" by simp_all
    with 1 True have "sift_up cmp (swap xs i (parent i)) (parent i) ! k = swap xs i (parent i) ! k"
      by simp
    also have "\<dots> = xs ! k" using p "1.prems" by (simp add: nth_swap)
    finally show ?thesis using True by (subst sift_up.simps) simp
  next
    case False
    then show ?thesis by (subst sift_up.simps) auto
  qed
qed

lemma length_hole_down [simp]: "length (fst (hole_down cmp xs n i)) = length xs"
proof (induction cmp xs n i rule: hole_down.induct)
  case (1 cmp xs n i)
  then show ?case by (subst hole_down.simps) (simp add: Let_def)
qed

lemma hole_down_less: "i < n \<Longrightarrow> snd (hole_down cmp xs n i) < n"
proof (induction cmp xs n i rule: hole_down.induct)
  case (1 cmp xs n i)
  then show ?case by (subst hole_down.simps) (simp add: Let_def)
qed

lemma mset_hole_down [simp]: "i < n \<Longrightarrow> n \<le> length xs \<Longrightarrow> mset (fst (hole_down cmp xs n i)) = mset xs"
proof (induction cmp xs n i rule: hole_down.induct)
  case (1 cmp xs n i)
  then show ?case by (subst hole_down.simps) (simp add: Let_def)
qed

lemma nth_hole_down_above:
  "i < n \<Longrightarrow> n \<le> k \<Longrightarrow> k < length xs \<Longrightarrow> fst (hole_down cmp xs n i) ! k = xs ! k"
proof (induction cmp xs n i rule: hole_down.induct)
  case (1 cmp xs n i)
  then show ?case by (subst hole_down.simps) (simp add: Let_def nth_swap)
qed

lemma length_swap_to_top [simp]: "length (swap_to_top xs i) = length xs"
proof (induction xs i rule: swap_to_top.induct)
  case (1 xs i)
  then show ?case by (subst swap_to_top.simps) simp
qed

lemma mset_swap_to_top [simp]: "i < length xs \<Longrightarrow> mset (swap_to_top xs i) = mset xs"
proof (induction xs i rule: swap_to_top.induct)
  case (1 xs i)
  have "parent i < length xs" using "1.prems" by (meson le_less_trans parent_le)
  with 1 show ?case by (subst swap_to_top.simps) simp
qed

lemma nth_swap_to_top_0: "i < length xs \<Longrightarrow> swap_to_top xs i ! 0 = xs ! i"
proof (induction xs i rule: swap_to_top.induct)
  case (1 xs i)
  show ?case
  proof (cases "0 < i")
    case True
    then have p: "parent i < i" by simp
    with "1.prems" have "parent i < length xs" by simp
    with 1 True have "swap_to_top (swap xs i (parent i)) (parent i) ! 0 = swap xs i (parent i) ! parent i"
      by simp
    also have "\<dots> = xs ! i" using p "1.prems" by (simp add: nth_swap)
    finally show ?thesis using True by (subst swap_to_top.simps) simp
  next
    case False
    then show ?thesis by (subst swap_to_top.simps) simp
  qed
qed

lemma length_std_push_heap [simp]: "length (std_push_heap cmp xs) = length xs"
  by (simp add: std_push_heap_def)

lemma mset_std_push_heap [simp]: "xs \<noteq> [] \<Longrightarrow> mset (std_push_heap cmp xs) = mset xs"
  by (simp add: std_push_heap_def)

lemma length_std_pop_heap [simp]: "length (std_pop_heap cmp xs) = length xs"
  by (simp add: std_pop_heap_def Let_def case_prod_beta)

lemma mset_std_pop_heap [simp]: "mset (std_pop_heap cmp xs) = mset xs"
proof (cases "1 < length xs")
  case True
  let ?r = "hole_down cmp (swap xs 0 (length xs - 1)) (length xs - 1) 0"
  have "snd ?r < length xs - 1" using True by (intro hole_down_less) simp
  then have "mset (sift_up cmp (fst ?r) (snd ?r)) = mset (fst ?r)" by simp
  also have "\<dots> = mset (swap xs 0 (length xs - 1))" using True by (intro mset_hole_down) simp_all
  also have "\<dots> = mset xs" using True by (intro mset_swap_eq) auto
  finally show ?thesis using True by (simp add: std_pop_heap_def Let_def case_prod_beta)
next
  case False
  then show ?thesis by (simp add: std_pop_heap_def)
qed

lemma last_std_pop_heap: "xs \<noteq> [] \<Longrightarrow> last (std_pop_heap cmp xs) = hd xs"
proof (cases "1 < length xs")
  case True
  let ?n = "length xs - 1"
  let ?r = "hole_down cmp (swap xs 0 ?n) ?n 0"
  have r: "snd ?r < ?n" using True by (intro hole_down_less) simp
  have "sift_up cmp (fst ?r) (snd ?r) ! ?n = fst ?r ! ?n"
    using r True by (intro nth_sift_up_above) simp_all
  also have "\<dots> = swap xs 0 ?n ! ?n" using True by (intro nth_hole_down_above) simp_all
  also have "\<dots> = xs ! 0" using True by (subst nth_swap) auto
  finally have "std_pop_heap cmp xs ! ?n = xs ! 0"
    using True by (simp add: std_pop_heap_def Let_def case_prod_beta)
  moreover have "std_pop_heap cmp xs \<noteq> []" using True by (metis length_std_pop_heap list.size(3) not_less_zero)
  ultimately show ?thesis using True by (cases xs) (auto simp: last_conv_nth)
next
  case False
  assume "xs \<noteq> []"
  with False obtain x where "xs = [x]" by (cases xs) auto
  then show ?thesis by (simp add: std_pop_heap_def)
qed

subsection \<open>Heap order\<close>

text \<open>
  A strict weak ordering, as the standard's \<^emph>\<open>Compare\<close> requirement asks for. \<open>heap_upto\<close> is the
  heap property of a prefix; \<open>hole\<close> is the property that is left when the entry at one
  position may be anything: every edge that does not touch the position is in order, and the
  position's parent dominates its children.
\<close>

locale weak_order =
  fixes cmp :: "'a \<Rightarrow> 'a \<Rightarrow> bool"
  assumes asym: "cmp a b \<Longrightarrow> \<not> cmp b a"
    and ntrans: "\<not> cmp a b \<Longrightarrow> \<not> cmp b c \<Longrightarrow> \<not> cmp a c"

definition heap_upto :: "('a \<Rightarrow> 'a \<Rightarrow> bool) \<Rightarrow> 'a list \<Rightarrow> nat \<Rightarrow> bool" where
  "heap_upto cmp xs n \<longleftrightarrow> (\<forall>c. 0 < c \<and> c < n \<longrightarrow> \<not> cmp (xs ! parent c) (xs ! c))"

definition hole :: "('a \<Rightarrow> 'a \<Rightarrow> bool) \<Rightarrow> 'a list \<Rightarrow> nat \<Rightarrow> nat \<Rightarrow> bool" where
  "hole cmp xs n i \<longleftrightarrow>
     (\<forall>c. 0 < c \<and> c < n \<and> c \<noteq> i \<and> parent c \<noteq> i \<longrightarrow> \<not> cmp (xs ! parent c) (xs ! c)) \<and>
     (\<forall>c. 0 < c \<and> c < n \<and> parent c = i \<and> 0 < i \<longrightarrow> \<not> cmp (xs ! parent i) (xs ! c))"

definition heap_ok :: "('a \<Rightarrow> 'a \<Rightarrow> bool) \<Rightarrow> 'a list \<Rightarrow> bool" where
  "heap_ok cmp xs \<longleftrightarrow> heap_upto cmp xs (length xs)"

lemma holeI:
  assumes "\<And>c. 0 < c \<Longrightarrow> c < n \<Longrightarrow> c \<noteq> i \<Longrightarrow> parent c \<noteq> i \<Longrightarrow> \<not> cmp (xs ! parent c) (xs ! c)"
    and "\<And>c. 0 < c \<Longrightarrow> c < n \<Longrightarrow> parent c = i \<Longrightarrow> 0 < i \<Longrightarrow> \<not> cmp (xs ! parent i) (xs ! c)"
  shows "hole cmp xs n i"
  using assms by (simp add: hole_def)

lemma hole_edge:
  "hole cmp xs n i \<Longrightarrow> 0 < c \<Longrightarrow> c < n \<Longrightarrow> c \<noteq> i \<Longrightarrow> parent c \<noteq> i \<Longrightarrow> \<not> cmp (xs ! parent c) (xs ! c)"
  by (simp add: hole_def)

lemma hole_bridge:
  "hole cmp xs n i \<Longrightarrow> 0 < c \<Longrightarrow> c < n \<Longrightarrow> parent c = i \<Longrightarrow> 0 < i \<Longrightarrow> \<not> cmp (xs ! parent i) (xs ! c)"
  by (simp add: hole_def)

lemma heap_ok_butlast:
  assumes "heap_upto cmp xs (length xs - 1)"
  shows "heap_ok cmp (butlast xs)"
  unfolding heap_ok_def heap_upto_def
proof (intro allI impI)
  fix c assume c: "0 < c \<and> c < length (butlast xs)"
  moreover have "parent c < length (butlast xs)" using c by (auto intro: le_less_trans [OF parent_le])
  ultimately show "\<not> cmp (butlast xs ! parent c) (butlast xs ! c)"
    using assms by (simp add: heap_upto_def nth_butlast)
qed

lemma parent_pos: "0 < parent c \<Longrightarrow> 0 < c"
  by (cases c) (simp_all add: parent_def)

context weak_order
begin

lemma irrefl: "\<not> cmp a a"
  using asym by blast

lemma hole_swap_parent:
  assumes h: "hole cmp xs n i" and i: "0 < i" "i < n" "n \<le> length xs"
  shows "hole cmp (swap xs i (parent i)) n (parent i)"
proof (rule holeI)
  let ?j = "parent i"
  have j: "?j < i" using i(1) by simp
  note nth = nth_swap [where xs = xs and i = i and j = ?j]
  fix c
  assume c: "0 < c" "c < n"
  have pc: "parent c < c" using c by simp
  {
    assume ne: "c \<noteq> ?j" "parent c \<noteq> ?j"
    then have "c \<noteq> i" by blast
    show "\<not> cmp (swap xs i ?j ! parent c) (swap xs i ?j ! c)"
    proof (cases "parent c = i")
      case True
      with h i c have "\<not> cmp (xs ! ?j) (xs ! c)" by (intro hole_bridge)
      with True c i j ne \<open>c \<noteq> i\<close> pc show ?thesis by (simp add: nth)
    next
      case False
      with h c \<open>c \<noteq> i\<close> have "\<not> cmp (xs ! parent c) (xs ! c)" by (intro hole_edge)
      with False c i j ne \<open>c \<noteq> i\<close> pc show ?thesis by (simp add: nth)
    qed
  next
    assume pcj: "parent c = ?j" and j0: "0 < ?j"
    have pj: "parent ?j < ?j" using j0 by simp
    have "?j < n" "?j \<noteq> i" "parent ?j \<noteq> i" using j pj i by linarith+
    with h j0 have e1: "\<not> cmp (xs ! parent ?j) (xs ! ?j)" by (intro hole_edge)
    show "\<not> cmp (swap xs i ?j ! parent ?j) (swap xs i ?j ! c)"
    proof (cases "c = i")
      case True
      with e1 c i j pj show ?thesis by (simp add: nth)
    next
      case False
      with h c pcj j have "\<not> cmp (xs ! ?j) (xs ! c)"
        using hole_edge [OF h, of c] by auto
      with e1 have "\<not> cmp (xs ! parent ?j) (xs ! c)" by (rule ntrans)
      with False c i j pj pcj pc show ?thesis by (simp add: nth)
    qed
  }
qed

lemma hole_swap_child:
  assumes h: "hole cmp xs n i" and c: "0 < c" "c < n" "n \<le> length xs" "parent c = i"
    and top: "\<And>d. 0 < d \<Longrightarrow> d < n \<Longrightarrow> parent d = i \<Longrightarrow> \<not> cmp (xs ! c) (xs ! d)"
  shows "hole cmp (swap xs i c) n c"
proof (rule holeI)
  have ic: "i < c" using c by auto
  note nth = nth_swap [where xs = xs and i = i and j = c]
  fix d
  assume d: "0 < d" "d < n"
  have pd: "parent d < d" using d by simp
  {
    assume ne: "d \<noteq> c" "parent d \<noteq> c"
    consider "d = i" | "d \<noteq> i" "parent d = i" | "d \<noteq> i" "parent d \<noteq> i" by blast
    then show "\<not> cmp (swap xs i c ! parent d) (swap xs i c ! d)"
    proof cases
      case 1
      with h c d have "\<not> cmp (xs ! parent i) (xs ! c)" by (intro hole_bridge) auto
      with 1 c d ic ne pd show ?thesis by (simp add: nth)
    next
      case 2
      with top d have "\<not> cmp (xs ! c) (xs ! d)" by simp
      with 2 c d ic ne pd show ?thesis by (simp add: nth)
    next
      case 3
      with h d have "\<not> cmp (xs ! parent d) (xs ! d)" by (intro hole_edge)
      with 3 c d ic ne pd show ?thesis by (simp add: nth)
    qed
  next
    assume pdc: "parent d = c"
    with pd ic have "d \<noteq> i" "c \<noteq> i" by auto
    with h d pdc have "\<not> cmp (xs ! parent d) (xs ! d)" by (intro hole_edge) auto
    with c d ic pd pdc \<open>d \<noteq> i\<close> show "\<not> cmp (swap xs i c ! parent c) (swap xs i c ! d)"
      by (simp add: nth)
  }
qed

lemma sift_up_heap:
  assumes "hole cmp xs n i" "i < n" "n \<le> length xs"
    and "\<And>c. 0 < c \<Longrightarrow> c < n \<Longrightarrow> parent c = i \<Longrightarrow> \<not> cmp (xs ! i) (xs ! c)"
  shows "heap_upto cmp (sift_up cmp xs i) n"
  using assms
proof (induction i arbitrary: xs rule: less_induct)
  case (less i)
  let ?j = "parent i"
  show ?case
  proof (cases "0 < i \<and> cmp (xs ! ?j) (xs ! i)")
    case True
    then have j: "?j < i" by simp
    let ?ys = "swap xs i ?j"
    note nth = nth_swap [where xs = xs and i = i and j = ?j]
    have "heap_upto cmp (sift_up cmp ?ys ?j) n"
    proof (rule less.IH [OF j])
      show "hole cmp ?ys n ?j" using True less.prems by (intro hole_swap_parent) auto
      show "?j < n" using j less.prems by simp
      show "n \<le> length ?ys" using less.prems by simp
      fix c assume c: "0 < c" "c < n" "parent c = ?j"
      then have cj: "?j < c" by (metis parent_less)
      show "\<not> cmp (?ys ! ?j) (?ys ! c)"
      proof (cases "c = i")
        case True
        with \<open>0 < i \<and> cmp (xs ! ?j) (xs ! i)\<close> asym j less.prems show ?thesis by (simp add: nth)
      next
        case False
        have "\<not> cmp (xs ! i) (xs ! ?j)" using True asym by blast
        moreover have "\<not> cmp (xs ! ?j) (xs ! c)"
          using hole_edge [OF less.prems(1), of c] c False j by auto
        ultimately have "\<not> cmp (xs ! i) (xs ! c)" by (rule ntrans)
        with False cj c j less.prems show ?thesis by (simp add: nth)
      qed
    qed
    with True show ?thesis by (subst sift_up.simps) simp
  next
    case False
    have "heap_upto cmp xs n"
      unfolding heap_upto_def
    proof (intro allI impI)
      fix c assume c: "0 < c \<and> c < n"
      consider "c = i" | "parent c = i" | "c \<noteq> i" "parent c \<noteq> i" by blast
      then show "\<not> cmp (xs ! parent c) (xs ! c)"
        using c False less.prems(4) [of c] hole_edge [OF less.prems(1), of c] by cases auto
    qed
    with False show ?thesis by (subst sift_up.simps) auto
  qed
qed

lemma swap_to_top_hole:
  "hole cmp xs n i \<Longrightarrow> i < n \<Longrightarrow> n \<le> length xs \<Longrightarrow> hole cmp (swap_to_top xs i) n 0"
proof (induction i arbitrary: xs rule: less_induct)
  case (less i)
  show ?case
  proof (cases "0 < i")
    case True
    then have j: "parent i < i" by simp
    have "hole cmp (swap_to_top (swap xs i (parent i)) (parent i)) n 0"
      using less.prems True j by (intro less.IH hole_swap_parent) auto
    with True show ?thesis by (subst swap_to_top.simps) simp
  next
    case False
    with less.prems show ?thesis by (subst swap_to_top.simps) simp
  qed
qed


lemma hole_down_hole:
  "hole cmp xs n i \<Longrightarrow> i < n \<Longrightarrow> n \<le> length xs \<Longrightarrow>
     hole cmp (fst (hole_down cmp xs n i)) n (snd (hole_down cmp xs n i))"
proof (induction "n - i" arbitrary: xs i rule: less_induct)
  case less
  define c where "c = (if cmp (xs ! (2 * i + 2)) (xs ! (2 * i + 1)) then 2 * i + 1 else 2 * i + 2)"
  have par: "parent c = i" by (simp add: c_def parent_def)
  show ?case
  proof (cases "2 * i + 2 < n")
    case True
    have c: "0 < c" "c < n" "i < c" using True by (auto simp: c_def)
    have top: "\<not> cmp (xs ! c) (xs ! d)" if "0 < d" "d < n" "parent d = i" for d
    proof -
      from that have "d = 2 * i + 1 \<or> d = 2 * i + 2" by (simp add: parent_eq_iff)
      then show ?thesis using asym irrefl by (auto simp: c_def)
    qed
    have "hole cmp (swap xs i c) n c"
      using less.prems c par top by (intro hole_swap_child) auto
    then have "hole cmp (fst (hole_down cmp (swap xs i c) n c)) n (snd (hole_down cmp (swap xs i c) n c))"
      using c less.prems by (intro less.hyps) auto
    moreover have "hole_down cmp xs n i = hole_down cmp (swap xs i c) n c"
      using True by (subst hole_down.simps) (simp add: c_def)
    ultimately show ?thesis by simp
  next
    case False
    show ?thesis
    proof (cases "2 * i + 2 = n")
      case True
      have "hole cmp (swap xs i (2 * i + 1)) n (2 * i + 1)"
      proof (rule hole_swap_child [OF less.prems(1)])
        show "parent (2 * i + 1) = i" by (simp add: parent_def)
        fix d assume "0 < d" "d < n" "parent d = i"
        with True have "d = 2 * i + 1" by (auto simp: parent_eq_iff)
        then show "\<not> cmp (xs ! (2 * i + 1)) (xs ! d)" using irrefl by simp
      qed (use True less.prems in auto)
      with True show ?thesis by (subst (1 2) hole_down.simps) simp
    next
      case False
      with \<open>\<not> 2 * i + 2 < n\<close> less.prems show ?thesis by (subst (1 2) hole_down.simps) simp
    qed
  qed
qed

lemma hole_down_leaf: "i < n \<Longrightarrow> n \<le> 2 * snd (hole_down cmp xs n i) + 1"
proof (induction cmp xs n i rule: hole_down.induct)
  case (1 cmp xs n i)
  then show ?case by (subst hole_down.simps) (simp add: Let_def)
qed

lemma heap_upto_hole: "heap_upto cmp xs n \<Longrightarrow> hole cmp xs n i"
proof (rule holeI)
  fix c
  assume h: "heap_upto cmp xs n" and c: "0 < c" "c < n"
  {
    show "\<not> cmp (xs ! parent c) (xs ! c)" using h c by (simp add: heap_upto_def)
  next
    assume "parent c = i" "0 < i"
    moreover have "parent c < c" using c by simp
    ultimately have "\<not> cmp (xs ! parent i) (xs ! i)" "\<not> cmp (xs ! i) (xs ! c)"
      using h c by (auto simp: heap_upto_def)
    then show "\<not> cmp (xs ! parent i) (xs ! c)" by (rule ntrans)
  }
qed

lemma std_push_heap_ok:
  assumes "heap_ok cmp xs"
  shows "heap_ok cmp (std_push_heap cmp (xs @ [v]))"
proof -
  let ?n = "length xs"
  have "hole cmp (xs @ [v]) (Suc ?n) ?n"
  proof (rule holeI)
    fix c assume c: "0 < c" "c < Suc ?n"
    {
      assume "c \<noteq> ?n"
      with c have "c < ?n" "parent c < ?n" by (auto intro: le_less_trans [OF parent_le])
      with assms c show "\<not> cmp ((xs @ [v]) ! parent c) ((xs @ [v]) ! c)"
        by (simp add: heap_ok_def heap_upto_def nth_append)
    next
      assume "parent c = ?n"
      with c parent_less [of c] show "\<not> cmp ((xs @ [v]) ! parent ?n) ((xs @ [v]) ! c)" by simp
    }
  qed
  then have "heap_upto cmp (sift_up cmp (xs @ [v]) ?n) (Suc ?n)"
    by (rule sift_up_heap) (auto dest: parent_less)
  then show ?thesis by (simp add: heap_ok_def std_push_heap_def)
qed

text \<open>
  \<^verbatim>\<open>std::pop_heap\<close> is used in \<^verbatim>\<open>force_pop_heap\<close> on a range whose first entry need not be
  the largest; only the edges below the first entry are in order.
\<close>

lemma std_pop_heap_ok:
  assumes "hole cmp xs (length xs) 0"
  shows "heap_ok cmp (butlast (std_pop_heap cmp xs))"
proof (cases "1 < length xs")
  case True
  let ?n = "length xs - 1"
  let ?r = "hole_down cmp (swap xs 0 ?n) ?n 0"
  have h: "hole cmp (swap xs 0 ?n) ?n 0"
  proof (rule holeI)
    fix c assume c: "0 < c" "c < ?n" "c \<noteq> 0" "parent c \<noteq> 0"
    have p: "parent c < ?n" using c by (auto intro: le_less_trans [OF parent_le])
    have "\<not> cmp (xs ! parent c) (xs ! c)" using hole_edge [OF assms, of c] c by simp
    moreover have "swap xs 0 ?n ! parent c = xs ! parent c" "swap xs 0 ?n ! c = xs ! c"
      using p c True by (subst nth_swap; auto)+
    ultimately show "\<not> cmp (swap xs 0 ?n ! parent c) (swap xs 0 ?n ! c)" by simp
  qed simp
  have "heap_upto cmp (sift_up cmp (fst ?r) (snd ?r)) ?n"
  proof (rule sift_up_heap)
    show "hole cmp (fst ?r) ?n (snd ?r)" using h True by (intro hole_down_hole) auto
    show "snd ?r < ?n" using True by (intro hole_down_less) simp
    show "?n \<le> length (fst ?r)" by simp
    fix c assume "0 < c" "c < ?n" "parent c = snd ?r"
    moreover have "?n \<le> 2 * snd ?r + 1" using True by (intro hole_down_leaf) simp
    ultimately show "\<not> cmp (fst ?r ! snd ?r) (fst ?r ! c)" by (auto simp: parent_eq_iff)
  qed
  then have "heap_upto cmp (std_pop_heap cmp xs) ?n"
    using True by (simp add: std_pop_heap_def Let_def case_prod_beta)
  then show ?thesis using heap_ok_butlast [of cmp "std_pop_heap cmp xs"] by simp
next
  case False
  then have "length (butlast (std_pop_heap cmp xs)) = 0" by simp
  then show ?thesis by (simp add: heap_ok_def heap_upto_def)
qed

lemma heap_root_le:
  assumes "heap_upto cmp xs n"
  shows "c < n \<Longrightarrow> \<not> cmp (xs ! 0) (xs ! c)"
proof (induction c rule: less_induct)
  case (less c)
  show ?case
  proof (cases "c = 0")
    case True
    then show ?thesis using irrefl by simp
  next
    case False
    then have p: "parent c < c" by simp
    with less have "\<not> cmp (xs ! 0) (xs ! parent c)" by simp
    moreover have "\<not> cmp (xs ! parent c) (xs ! c)" using assms False less.prems by (simp add: heap_upto_def)
    ultimately show ?thesis by (rule ntrans)
  qed
qed

lemma heap_hd_le:
  assumes "heap_ok cmp xs" and "x \<in> set xs"
  shows "\<not> cmp (hd xs) x"
proof -
  from assms(2) obtain i where "i < length xs" "xs ! i = x" by (auto simp: in_set_conv_nth)
  with assms show ?thesis
    using heap_root_le [of xs "length xs" i] by (cases xs) (simp_all add: heap_ok_def)
qed

end


subsection \<open>Orderings by a key\<close>

text \<open>
  Every SteadyHeap of the program is ordered by a timestamp, the earliest on top. The timestamp of an
  entry may change while the entry is in the heap.
\<close>

definition by_key :: "('a \<Rightarrow> int) \<Rightarrow> 'a \<Rightarrow> 'a \<Rightarrow> bool" where
  "by_key k a b \<longleftrightarrow> k a > k b"

interpretation key: weak_order "by_key k" for k :: "'a \<Rightarrow> int"
  by unfold_locales (auto simp: by_key_def)

definition queue_inv :: "('a \<Rightarrow> int) \<Rightarrow> 'a steady_heap \<Rightarrow> bool" where
  "queue_inv k h \<longleftrightarrow> distinct (heap_items h) \<and> heap_ok (by_key k) (heap_items h)"

definition heap_set :: "'a steady_heap \<Rightarrow> 'a set" where
  "heap_set h = set (heap_items h)"

lemma queue_inv_new [simp]: "queue_inv k steady_heap_new"
  by (simp add: queue_inv_def steady_heap_new_def heap_ok_def heap_upto_def)

lemma heap_set_new [simp]: "heap_set steady_heap_new = {}"
  by (simp add: heap_set_def steady_heap_new_def)

lemma finite_heap_set [simp]: "finite (heap_set h)"
  by (simp add: heap_set_def)

lemma heap_empty_iff [simp]: "heap_empty h \<longleftrightarrow> heap_set h = {}"
  by (simp add: heap_empty_def heap_set_def)

lemma heap_front_Some_iff: "heap_front h = Some x \<longleftrightarrow> (\<exists>xs. heap_items h = x # xs)"
  by (auto simp: heap_front_def split: list.splits)

lemma heap_front_ex: "heap_set h \<noteq> {} \<Longrightarrow> \<exists>x. heap_front h = Some x"
  by (auto simp: heap_front_Some_iff heap_set_def neq_Nil_conv)

lemma heap_count_0 [simp]: "heap_count v h = 0 \<longleftrightarrow> v \<notin> heap_set h"
  by (simp add: heap_count_def heap_set_def count_list_0_iff)

lemma heap_count_1: "queue_inv k h \<Longrightarrow> v \<in> heap_set h \<Longrightarrow> heap_count v h = 1"
  by (simp add: heap_count_def heap_set_def queue_inv_def count_list_distinct)

lemma heap_size_card: "queue_inv k h \<Longrightarrow> heap_size h = card (heap_set h)"
  by (simp add: heap_size_def heap_set_def queue_inv_def distinct_card)

lemma heap_items_push [simp]: "heap_items (push_heap cmp v h) = std_push_heap cmp (heap_items h @ [v])"
  by (simp add: push_heap_def push_back_def Let_def)

lemma heap_set_push [simp]: "heap_set (push_heap cmp v h) = insert v (heap_set h)"
proof -
  have "set_mset (mset (heap_items (push_heap cmp v h))) = set_mset (mset (heap_items h @ [v]))"
    by (simp only: heap_items_push) simp
  then show ?thesis by (simp add: heap_set_def del: heap_items_push)
qed

lemma queue_inv_push:
  assumes "queue_inv k h" and "x \<notin> heap_set h"
  shows "queue_inv k (push_heap (by_key k) x h)"
proof -
  have "mset (heap_items (push_heap (by_key k) x h)) = mset (heap_items h @ [x])"
    by (simp only: heap_items_push) simp
  moreover have "distinct (heap_items h @ [x])"
    using assms by (simp add: queue_inv_def heap_set_def)
  ultimately have "distinct (heap_items (push_heap (by_key k) x h))" by (metis mset_eq_imp_distinct_iff)
  then show ?thesis using assms by (simp add: queue_inv_def key.std_push_heap_ok)
qed

lemma queue_inv_cong:
  assumes "queue_inv k h" and "\<And>x. x \<in> heap_set h \<Longrightarrow> k' x = k x"
  shows "queue_inv k' h"
proof -
  have "heap_upto (by_key k') (heap_items h) (length (heap_items h))"
    unfolding heap_upto_def
  proof (intro allI impI)
    fix c assume c: "0 < c \<and> c < length (heap_items h)"
    then have "parent c < length (heap_items h)" by (auto intro: le_less_trans [OF parent_le])
    with c assms show "\<not> by_key k' (heap_items h ! parent c) (heap_items h ! c)"
      by (simp add: queue_inv_def heap_ok_def heap_upto_def by_key_def heap_set_def)
  qed
  with assms(1) show ?thesis by (simp add: queue_inv_def heap_ok_def)
qed

lemma queue_front_min:
  "queue_inv k h \<Longrightarrow> heap_front h = Some x \<Longrightarrow> x \<in> heap_set h \<and> (\<forall>y\<in>heap_set h. k x \<le> k y)"
  using key.heap_hd_le [of k "heap_items h"]
  by (auto simp: queue_inv_def heap_front_Some_iff heap_set_def by_key_def not_less)

lemma pop_hole:
  assumes "hole (by_key k) xs (length xs) 0" and "distinct xs" and "xs \<noteq> []"
  shows "\<exists>h'. pop_heap (by_key k) (h\<lparr>heap_items := xs\<rparr>) = Some h' \<and> queue_inv k h' \<and>
           heap_set h' = set xs - {hd xs} \<and> heap_capacity h' = heap_capacity h"
proof -
  let ?ys = "std_pop_heap (by_key k) xs"
  have ne: "?ys \<noteq> []" using assms(3) by (metis length_0_conv length_std_pop_heap)
  then obtain bs z where bs: "?ys = bs @ [z]" by (cases ?ys rule: rev_cases) auto
  have z: "z = hd xs" using last_std_pop_heap [OF assms(3), of "by_key k"] bs by simp
  have m: "mset ?ys = mset xs" by simp
  then have "distinct ?ys" "set ?ys = set xs"
    using assms(2) mset_eq_imp_distinct_iff mset_eq_setD by blast+
  then have "distinct (butlast ?ys)" "set (butlast ?ys) = set xs - {hd xs}"
    using bs z by auto
  then show ?thesis
    using assms key.std_pop_heap_ok [OF assms(1)]
    by (simp add: pop_heap_def queue_inv_def heap_set_def heap_empty_def)
qed


lemma queue_pop:
  assumes "queue_inv k h" and "heap_front h = Some x"
  shows "\<exists>h'. pop_heap (by_key k) h = Some h' \<and> queue_inv k h' \<and> heap_set h' = heap_set h - {x} \<and>
           heap_capacity h' = heap_capacity h"
proof -
  from assms(2) obtain xs where xs: "heap_items h = x # xs" by (auto simp: heap_front_Some_iff)
  have "hole (by_key k) (heap_items h) (length (heap_items h)) 0"
    using assms(1) by (simp add: queue_inv_def heap_ok_def key.heap_upto_hole)
  then have "\<exists>h'. pop_heap (by_key k) (h\<lparr>heap_items := heap_items h\<rparr>) = Some h' \<and> queue_inv k h' \<and>
      heap_set h' = set (heap_items h) - {hd (heap_items h)} \<and> heap_capacity h' = heap_capacity h"
    using assms(1) xs by (intro pop_hole) (simp_all add: queue_inv_def)
  moreover have "h\<lparr>heap_items := heap_items h\<rparr> = h" "hd (heap_items h) = x" by (simp_all add: xs)
  ultimately show ?thesis by (simp add: heap_set_def)
qed

text \<open>
  The point of \<^verbatim>\<open>force_pop_heap\<close>: the entry's key may have changed since it was inserted, in
  either direction; the keys of the others have not.
\<close>

lemma queue_force_pop:
  assumes inv: "queue_inv k h" and x: "x \<in> heap_set h"
    and same: "\<And>y. y \<in> heap_set h \<Longrightarrow> y \<noteq> x \<Longrightarrow> k' y = k y"
  shows "\<exists>h'. force_pop_heap (by_key k') x h = Some h' \<and> queue_inv k' h' \<and>
           heap_set h' = heap_set h - {x} \<and> heap_capacity h' = heap_capacity h"
proof -
  let ?xs = "heap_items h" and ?n = "length (heap_items h)"
  from x obtain i where i: "find_index x ?xs = Some i" using find_index_ex [of x ?xs] by (auto simp: heap_set_def)
  then have il: "i < ?n" and ix: "?xs ! i = x" by (auto dest: find_index_Some)
  have other: "?xs ! c \<noteq> x" if "c < ?n" "c \<noteq> i" for c
    using inv that il ix by (auto simp: queue_inv_def nth_eq_iff_index_eq)
  have old: "hole (by_key k) ?xs ?n i"
    using inv by (simp add: queue_inv_def heap_ok_def key.heap_upto_hole)
  have "hole (by_key k') ?xs ?n i"
  proof (rule holeI)
    fix c assume c: "0 < c" "c < ?n"
    have pc: "parent c < c" using c by simp
    {
      assume "c \<noteq> i" "parent c \<noteq> i"
      with other c pc same have "k' (?xs ! c) = k (?xs ! c)" "k' (?xs ! parent c) = k (?xs ! parent c)"
        by (simp_all add: heap_set_def)
      then show "\<not> by_key k' (?xs ! parent c) (?xs ! c)"
        using hole_edge [OF old c \<open>c \<noteq> i\<close> \<open>parent c \<noteq> i\<close>] by (simp add: by_key_def)
    next
      assume p: "parent c = i" and i0: "0 < i"
      have "parent i < i" using i0 by simp
      with other c pc p same il have "k' (?xs ! c) = k (?xs ! c)" "k' (?xs ! parent i) = k (?xs ! parent i)"
        by (simp_all add: heap_set_def)
      then show "\<not> by_key k' (?xs ! parent i) (?xs ! c)"
        using hole_bridge [OF old c p i0] by (simp add: by_key_def)
    }
  qed
  then have top: "hole (by_key k') (swap_to_top ?xs i) ?n 0" using il by (intro key.swap_to_top_hole) auto
  let ?ys = "swap_to_top ?xs i"
  have m: "mset ?ys = mset ?xs" using il by simp
  have "distinct ?ys \<longleftrightarrow> distinct ?xs" using m by (rule mset_eq_imp_distinct_iff)
  moreover have "set ?ys = set ?xs" using m by (rule mset_eq_setD)
  ultimately have d: "distinct ?ys" "set ?ys = set ?xs" using inv by (simp_all add: queue_inv_def)
  have ne: "?ys \<noteq> []" using il by (metis length_0_conv length_swap_to_top less_nat_zero_code)
  then have "hd ?ys = x" using nth_swap_to_top_0 [OF il] ix by (simp add: hd_conv_nth)
  with d top ne have "\<exists>h'. pop_heap (by_key k') (h\<lparr>heap_items := ?ys\<rparr>) = Some h' \<and> queue_inv k' h' \<and>
      heap_set h' = heap_set h - {x} \<and> heap_capacity h' = heap_capacity h"
    using pop_hole [of k' ?ys h] by (simp add: heap_set_def)
  then show ?thesis by (simp add: force_pop_heap_def force_to_top_def i)
qed

lemma heap_capacity_push [simp]:
  "heap_size h < heap_capacity h \<Longrightarrow> heap_capacity (push_heap cmp v h) = heap_capacity h"
  by (simp add: push_heap_def push_back_def Let_def)

subsection \<open>The contract the scheduler relies on\<close>

text \<open>
  A queue of distinct entries ordered by a key that lives outside the queue. The laws say what each
  operation does to the set of entries, and that the queue's order survives a change of one entry's
  key if that entry is forced out.
\<close>

locale rekey_queue =
  fixes invar :: "('a \<Rightarrow> int) \<Rightarrow> 'q \<Rightarrow> bool"
    and elems :: "'q \<Rightarrow> 'a set"
    and front :: "'q \<Rightarrow> 'a option"
    and push :: "('a \<Rightarrow> int) \<Rightarrow> 'a \<Rightarrow> 'q \<Rightarrow> 'q"
    and pop :: "('a \<Rightarrow> int) \<Rightarrow> 'q \<Rightarrow> 'q option"
    and force_pop :: "('a \<Rightarrow> int) \<Rightarrow> 'a \<Rightarrow> 'q \<Rightarrow> 'q option"
  assumes cong: "invar k q \<Longrightarrow> (\<And>x. x \<in> elems q \<Longrightarrow> k' x = k x) \<Longrightarrow> invar k' q"
    and front_ex: "elems q \<noteq> {} \<Longrightarrow> \<exists>x. front q = Some x"
    and front_min: "invar k q \<Longrightarrow> front q = Some x \<Longrightarrow> x \<in> elems q \<and> (\<forall>y\<in>elems q. k x \<le> k y)"
    and elems_push: "elems (push k x q) = insert x (elems q)"
    and invar_push: "invar k q \<Longrightarrow> x \<notin> elems q \<Longrightarrow> invar k (push k x q)"
    and pop_ok: "invar k q \<Longrightarrow> front q = Some x \<Longrightarrow>
      \<exists>q'. pop k q = Some q' \<and> invar k q' \<and> elems q' = elems q - {x}"
    and force_pop_ok: "invar k q \<Longrightarrow> x \<in> elems q \<Longrightarrow> (\<And>y. y \<in> elems q \<Longrightarrow> y \<noteq> x \<Longrightarrow> k' y = k y) \<Longrightarrow>
      \<exists>q'. force_pop k' x q = Some q' \<and> invar k' q' \<and> elems q' = elems q - {x}"
begin

lemma rekey:
  assumes "invar k q" and "x \<in> elems q" and "\<And>y. y \<in> elems q \<Longrightarrow> y \<noteq> x \<Longrightarrow> k' y = k y"
  obtains q' where "force_pop k' x q = Some q'" and "invar k' q'" and "elems q' = elems q - {x}"
    and "invar k' (push k' x q')" and "elems (push k' x q') = elems q"
proof -
  from force_pop_ok [OF assms(1,2), of k'] assms(3)
  obtain q' where q': "force_pop k' x q = Some q'" "invar k' q'" "elems q' = elems q - {x}" by blast
  moreover from q' have "invar k' (push k' x q')" by (intro invar_push) auto
  moreover from q' assms(2) have "elems (push k' x q') = elems q" by (auto simp: elems_push)
  ultimately show thesis by (rule that)
qed

lemma front_key_unique:
  "invar k q \<Longrightarrow> front q = Some x \<Longrightarrow> y \<in> elems q \<Longrightarrow> (\<And>z. z \<in> elems q \<Longrightarrow> k y \<le> k z) \<Longrightarrow> k x = k y"
  using front_min [of k q x] by force

end

interpretation hq: rekey_queue queue_inv heap_set heap_front
  "\<lambda>k. push_heap (by_key k)" "\<lambda>k. pop_heap (by_key k)" "\<lambda>k. force_pop_heap (by_key k)"
proof (unfold_locales, goal_cases)
  case (1 k q k')
  then show ?case by (rule queue_inv_cong)
next
  case (2 q)
  then show ?case by (rule heap_front_ex)
next
  case (3 k q x)
  then show ?case by (rule queue_front_min)
next
  case (4 k x q)
  show ?case by (rule heap_set_push)
next
  case (5 k q x)
  then show ?case by (rule queue_inv_push)
next
  case (6 k q x)
  then show ?case using queue_pop [of k q x] by blast
next
  case (7 k q x k')
  then show ?case using queue_force_pop [of k q x k'] by blast
qed

end
