(* ===== verification/Pipert_Timer.thy ===== *)
theory Pipert_Timer
  imports Pipert_Prelude
begin

text \<open>
  Model of \<^verbatim>\<open>include/pipert/Timer.h\<close> and \<^verbatim>\<open>src/Timer.cpp\<close>. A reading of
  \<^verbatim>\<open>high_resolution_clock\<close> is an argument: its tick count in nanoseconds since the epoch.
  \<^verbatim>\<open>duration_cast\<close> truncates towards zero.
\<close>

definition kMinTime :: time where
  "kMinTime = - (2 ^ 63)"

definition kMaxTime :: time where
  "kMaxTime = 2 ^ 63 - 1"

definition duration_cast :: "int \<Rightarrow> int \<Rightarrow> int" where
  "duration_cast ticks per = sgn ticks * (\<bar>ticks\<bar> div per)"

definition timer_time :: "int \<Rightarrow> time" where
  "timer_time now_ns = duration_cast now_ns 1000"

record timer =
  beg :: int

definition timer_tic :: "int \<Rightarrow> timer \<Rightarrow> timer" where
  "timer_tic now_ns t = t\<lparr>beg := now_ns\<rparr>"

definition timer_toc :: "int \<Rightarrow> timer \<Rightarrow> int" where
  "timer_toc now_ns t = duration_cast (now_ns - beg t) 1000000"

definition timer_toc_in_us :: "int \<Rightarrow> timer \<Rightarrow> int" where
  "timer_toc_in_us now_ns t = duration_cast (now_ns - beg t) 1000"

lemma duration_cast_nonneg: "0 \<le> x \<Longrightarrow> 0 < p \<Longrightarrow> duration_cast x p = x div p"
  by (cases "x = 0") (simp_all add: duration_cast_def)

lemma duration_cast_mono:
  assumes "0 \<le> x" "x \<le> y" "0 < p"
  shows "duration_cast x p \<le> duration_cast y p"
  using assms by (simp add: duration_cast_nonneg zdiv_mono1)

lemma timer_time_mono: "0 \<le> x \<Longrightarrow> x \<le> y \<Longrightarrow> timer_time x \<le> timer_time y"
  unfolding timer_time_def by (rule duration_cast_mono) auto

end
