(* ===== verification/Log_Event.thy ===== *)
theory Log_Event
  imports Pipert_Prelude Complex_Main
begin

text \<open>
  Model of \<^verbatim>\<open>include/pipert/LogEventBase.h\<close>, \<^verbatim>\<open>LogEvent.h\<close>,
  \<^verbatim>\<open>LogEventTypeRegistrar.h\<close> and \<^verbatim>\<open>src/LogEventTypeRegistrar.cpp\<close>, and of the event
  names that \<^verbatim>\<open>ProfileData.cpp\<close> defines.

  An event type is identified by the address of its name, not by the text, so the model has one
  constructor per name constant and \<open>UserEvent\<close> for the names that users add: the number is
  the identity, the string is the text.
\<close>

datatype event_id =
    EventPushed
  | EventRetrieved
  | EventExecuteTime
  | EventFillTime
  | EventReadTime
  | EventDroppedPacket
  | UserEvent nat string

fun event_text :: "event_id \<Rightarrow> string" where
  "event_text EventPushed = ''Packet Pushed''"
| "event_text EventRetrieved = ''Packet Retrieved''"
| "event_text EventExecuteTime = ''Execution Time''"
| "event_text EventFillTime = ''Fill Time''"
| "event_text EventReadTime = ''Read Time''"
| "event_text EventDroppedPacket = ''Packet Dropped''"
| "event_text (UserEvent _ txt) = txt"

text \<open>The value is a \<^verbatim>\<open>double\<close>, modelled as a real number.\<close>

record log_event =
  event_name :: event_id
  event_value :: real

definition log_event :: "event_id \<Rightarrow> real \<Rightarrow> log_event" where
  "log_event e v = \<lparr>event_name = e, event_value = v\<rparr>"

text \<open>The static array of event types, filled by one registrar object per event type.\<close>

type_synonym registrar = "event_id list"

definition kLogEventTypeRegisterMaxLength :: nat where
  "kLogEventTypeRegisterMaxLength = 256"

definition GetRegisterLength :: "registrar \<Rightarrow> nat" where
  "GetRegisterLength reg = length reg"

definition GetLogEventTypeID :: "registrar \<Rightarrow> nat \<Rightarrow> event_id option" where
  "GetLogEventTypeID reg i = do { assert_that (i < length reg); Some (reg ! i) }"

definition register_event :: "event_id \<Rightarrow> registrar \<Rightarrow> registrar option" where
  "register_event e reg = do {
     assert_that (length reg < kLogEventTypeRegisterMaxLength);
     Some (reg @ [e])
   }"

end
