(* ===== verification/Channel_Data.thy ===== *)
theory Channel_Data
  imports Steady_Heap Pipert_Timer Log_Event
begin

text \<open>
  The state of a \<^verbatim>\<open>ChannelImpl\<close> (\<^verbatim>\<open>src/ChannelImpl.h\<close>) and those of its operations
  (\<^verbatim>\<open>src/ChannelImpl.cpp\<close>) that touch nothing but the channel: the constructor's pool and free
  stack, the free stack's two ends, the timestamps, the log. The operations that call the scheduler
  are in \<open>Channel_Impl\<close>.

  A \<^verbatim>\<open>PacketBase*\<close> is an address. The two timestamps stored in the packets of the pool are the
  functions \<open>packet_time\<close> and \<open>op_time\<close> of the address. What \<^verbatim>\<open>profile_data_->Log\<close> is
  called with is appended to \<open>profile_log\<close>; \<open>Profile_Data\<close> models what happens to it.
\<close>

subsection \<open>State\<close>

record channel =
  single_thread_object :: addr
  has_callback :: bool
  pool :: addr
  free_packets :: "addr list"
  queued_packets :: "addr steady_heap"
  channel_name :: cptr
  channel_capacity :: nat
  packet_size :: nat
  channel_base :: addr
  profile_data :: addr
  packet_time :: "addr \<Rightarrow> time"
  op_time :: "addr \<Rightarrow> time"
  profile_log :: "log_event list"

definition IsScheduled :: "channel \<Rightarrow> bool" where
  "IsScheduled c = has_callback c"

text \<open>
  The constructor's loop pushes the addresses of the last packet of the pool first, so that the first
  packet is on top of the stack, which is used from its end. \<^verbatim>\<open>new int8_t[...]\<close> is given the
  product of two \<^verbatim>\<open>int\<close>s, which must not overflow.
\<close>

definition init_free_packets :: "addr \<Rightarrow> nat \<Rightarrow> nat \<Rightarrow> addr list" where
  "init_free_packets base cap psize = map (\<lambda>i. base + psize * i) (rev [0..<cap])"

definition channel_new :: "cptr \<Rightarrow> nat \<Rightarrow> nat \<Rightarrow> addr \<Rightarrow> bool \<Rightarrow> addr \<Rightarrow> channel option" where
  "channel_new name cap psize obj cb base = do {
     assert_that (cap * psize < 2 ^ 31);
     assert_that (base \<noteq> nullptr);
     let free = init_free_packets base cap psize;
     assert_that (length free = cap);
     let queue = heap_reserve cap steady_heap_new;
     assert_that (heap_size queue = 0);
     assert_that (cap \<le> heap_capacity queue);
     Some \<lparr>single_thread_object = obj, has_callback = cb, pool = base, free_packets = free,
           queued_packets = queue, channel_name = name, channel_capacity = cap, packet_size = psize,
           channel_base = nullptr, profile_data = nullptr,
           packet_time = (\<lambda>_. 0), op_time = (\<lambda>_. 0), profile_log = []\<rparr>
   }"

subsection \<open>Operations that stay inside the channel\<close>

definition SetBase :: "addr \<Rightarrow> channel \<Rightarrow> channel" where
  "SetBase b c = c\<lparr>channel_base := b\<rparr>"

definition SetProfileData :: "addr \<Rightarrow> channel \<Rightarrow> channel" where
  "SetProfileData d c = c\<lparr>profile_data := d\<rparr>"

definition Log :: "log_event \<Rightarrow> channel \<Rightarrow> channel" where
  "Log e c = (if profile_data c \<noteq> nullptr then c\<lparr>profile_log := profile_log c @ [e]\<rparr> else c)"

definition GetFreeBufferLength :: "channel \<Rightarrow> nat" where
  "GetFreeBufferLength c = length (free_packets c)"

definition GetQueuedBufferLength :: "channel \<Rightarrow> nat" where
  "GetQueuedBufferLength c = heap_size (queued_packets c)"

definition PacketOrdering :: "channel \<Rightarrow> addr \<Rightarrow> addr \<Rightarrow> bool" where
  "PacketOrdering c = by_key (packet_time c)"

definition PeekNext :: "channel \<Rightarrow> time option" where
  "PeekNext c = do {
     assert_that (\<not> heap_empty (queued_packets c));
     p \<leftarrow> heap_front (queued_packets c);
     Some (packet_time c p)
   }"

text \<open>The three assertions on a pointer into the pool, which Acquire and Release share.\<close>

definition in_pool :: "channel \<Rightarrow> addr \<Rightarrow> bool" where
  "in_pool c p \<longleftrightarrow>
     pool c \<le> p \<and> p < pool c + packet_size c * channel_capacity c \<and> (p - pool c) mod packet_size c = 0"

text \<open>The body of Acquire's loop, under \<^verbatim>\<open>free_mutex_\<close>.\<close>

definition take_free :: "channel \<Rightarrow> addr option \<times> channel" where
  "take_free c =
     (if free_packets c \<noteq> []
      then (Some (last (free_packets c)), c\<lparr>free_packets := butlast (free_packets c)\<rparr>)
      else (None, c))"

definition stamp_operation :: "time \<Rightarrow> addr \<Rightarrow> channel \<Rightarrow> channel" where
  "stamp_operation t p c = c\<lparr>op_time := (op_time c)(p := t)\<rparr>"

text \<open>
  \<^verbatim>\<open>Channel<T>::Acquire\<close> constructs the packet in place, which stores its timestamp.
\<close>

definition construct_packet :: "time \<Rightarrow> addr \<Rightarrow> channel \<Rightarrow> channel" where
  "construct_packet ts p c = c\<lparr>packet_time := (packet_time c)(p := ts)\<rparr>"

definition Release :: "time \<Rightarrow> addr \<Rightarrow> bool \<Rightarrow> channel \<Rightarrow> channel option" where
  "Release t p dropping c = do {
     c1 \<leftarrow> (if \<not> dropping then do {
               assert_that (t - op_time c p \<ge> 0);
               Some (Log (log_event EventReadTime (of_int (t - op_time c p))) c)
             } else Some c);
     assert_that (in_pool c1 p);
     assert_that (length (free_packets c1) < channel_capacity c1);
     Some (c1\<lparr>free_packets := free_packets c1 @ [p]\<rparr>)
   }"

subsection \<open>Well-formed channels\<close>

definition slots :: "channel \<Rightarrow> addr set" where
  "slots c = (\<lambda>i. pool c + packet_size c * i) ` {..<channel_capacity c}"

definition queued_set :: "channel \<Rightarrow> addr set" where
  "queued_set c = heap_set (queued_packets c)"

definition channel_inv :: "channel \<Rightarrow> bool" where
  "channel_inv c \<longleftrightarrow>
     0 < packet_size c \<and> pool c \<noteq> nullptr \<and>
     distinct (free_packets c) \<and> set (free_packets c) \<inter> queued_set c = {} \<and>
     set (free_packets c) \<union> queued_set c \<subseteq> slots c \<and>
     queue_inv (packet_time c) (queued_packets c) \<and>
     channel_capacity c \<le> heap_capacity (queued_packets c) \<and>
     (\<forall>p\<in>queued_set c. packet_time c p < kMaxTime)"

lemma finite_slots [simp]: "finite (slots c)"
  by (simp add: slots_def)

lemma card_slots: "0 < packet_size c \<Longrightarrow> card (slots c) = channel_capacity c"
  by (simp add: slots_def card_image inj_on_def)

lemma in_pool_slots: "0 < packet_size c \<Longrightarrow> in_pool c p \<longleftrightarrow> p \<in> slots c"
proof
  assume s: "0 < packet_size c" and "in_pool c p"
  then have p: "pool c \<le> p" "p < pool c + packet_size c * channel_capacity c"
    "(p - pool c) mod packet_size c = 0"
    by (simp_all add: in_pool_def)
  let ?i = "(p - pool c) div packet_size c"
  have "packet_size c * ?i = p - pool c" using p(3) by auto
  then have "p = pool c + packet_size c * ?i" using p(1) by simp
  moreover have "packet_size c * ?i < packet_size c * channel_capacity c"
    using p \<open>packet_size c * ?i = p - pool c\<close> by linarith
  then have "?i < channel_capacity c" by simp
  ultimately show "p \<in> slots c" unfolding slots_def by blast
next
  assume "0 < packet_size c" and "p \<in> slots c"
  then show "in_pool c p" by (auto simp: in_pool_def slots_def)
qed

lemma heap_front_None_iff [simp]: "heap_front h = None \<longleftrightarrow> heap_set h = {}"
  by (cases "heap_front h") (auto simp: heap_front_def heap_set_def split: list.splits)

lemma PeekNext_None_iff [simp]: "PeekNext c = None \<longleftrightarrow> queued_set c = {}"
  by (cases "heap_front (queued_packets c)")
    (auto simp: PeekNext_def queued_set_def assert_that_def heap_front_def heap_set_def split: list.splits)

lemma PeekNext_SomeD:
  assumes "PeekNext c = Some t"
  obtains p where "heap_front (queued_packets c) = Some p" "t = packet_time c p"
  using assms by (auto simp: PeekNext_def bind_eq_Some_conv)

lemma PeekNext_front: "heap_front (queued_packets c) = Some p \<Longrightarrow> PeekNext c = Some (packet_time c p)"
  by (auto simp: PeekNext_def assert_that_def heap_front_def heap_set_def split: list.splits)

text \<open>What Peek returns in a well-formed channel: the earliest timestamp of the queue.\<close>

lemma PeekNext_least:
  assumes "channel_inv c" and "PeekNext c = Some t"
  shows "(\<exists>p\<in>queued_set c. packet_time c p = t) \<and> (\<forall>p\<in>queued_set c. t \<le> packet_time c p)"
proof -
  from assms(2) obtain p where p: "heap_front (queued_packets c) = Some p" "t = packet_time c p"
    by (rule PeekNext_SomeD)
  from assms(1) have "queue_inv (packet_time c) (queued_packets c)" by (simp add: channel_inv_def)
  from hq.front_min [OF this p(1)] p(2) show ?thesis by (auto simp: queued_set_def)
qed

lemma PeekNext_bound: "channel_inv c \<Longrightarrow> PeekNext c = Some t \<Longrightarrow> t < kMaxTime"
  using PeekNext_least by (fastforce simp: channel_inv_def)

end
