(* ===== verification/Scheduler_Impl.thy ===== *)
theory Scheduler_Impl
  imports Channel_Data
begin

text \<open>
  Model of the job queues of \<^verbatim>\<open>src/SchedulerImpl.h\<close> and \<^verbatim>\<open>src/SchedulerImpl.cpp\<close>: the two
  levels of heaps (states, and per state the channels that have work), the three notifications that
  channels send while they hold the global mutex, and the life cycle (register, start, stop).

  The channels are objects behind pointers: \<open>ch\<close> is the store that maps the address of a
  \<^verbatim>\<open>ChannelImpl\<close> to its state. The heaps are ordered by \<^verbatim>\<open>PeekNext\<close> of the channels, so a
  channel's queue changes the order of heaps it is already in.
\<close>

subsection \<open>State\<close>

type_synonym channel_store = "addr \<Rightarrow> channel"

record enabled_heap =
  enabled :: bool
  channel_heap :: "addr steady_heap"

definition enabled_heap_new :: enabled_heap where
  "enabled_heap_new = \<lparr>enabled = True, channel_heap = steady_heap_new\<rparr>"

text \<open>What the scheduler does to the objects outside it, in order.\<close>

datatype sched_effect =
    NotifyOne
  | NotifyAll
  | SpawnWorker
  | JoinWorker
  | ProfilerStart
  | ProfilerStop
  | ReceiverStart addr
  | ReceiverStop addr
  | AddProfileData addr
  | RemoveProfileData addr

record scheduler =
  channels :: "addr list"
  receivers :: "addr list"
  state_queue :: "addr steady_heap"
  state_queues :: "addr \<rightharpoonup> enabled_heap"
  keep_running :: bool
  running :: bool
  workers :: nat
  workers_number :: nat
  has_profiler :: bool
  valid_state :: bool
  effects :: "sched_effect list"

text \<open>\<^verbatim>\<open>operator[]\<close> of the map creates a missing entry.\<close>

definition queue_of :: "scheduler \<Rightarrow> addr \<Rightarrow> enabled_heap" where
  "queue_of s st = (case state_queues s st of None \<Rightarrow> enabled_heap_new | Some q \<Rightarrow> q)"

definition set_queue :: "addr \<Rightarrow> enabled_heap \<Rightarrow> scheduler \<Rightarrow> scheduler" where
  "set_queue st q s = s\<lparr>state_queues := (state_queues s)(st \<mapsto> q)\<rparr>"

lemma set_queue_simps [simp]:
  "state_queues (set_queue st q s) = (state_queues s)(st \<mapsto> q)"
  "channels (set_queue st q s) = channels s"
  "state_queue (set_queue st q s) = state_queue s"
  "effects (set_queue st q s) = effects s"
  by (simp_all add: set_queue_def)

definition emit :: "sched_effect \<Rightarrow> scheduler \<Rightarrow> scheduler" where
  "emit e s = s\<lparr>effects := effects s @ [e]\<rparr>"

lemma effects_emit [simp]: "effects (emit e s) = effects s @ [e]"
  by (simp add: emit_def)

subsection \<open>Orderings\<close>

text \<open>
  \<^verbatim>\<open>ChannelOrdering\<close> compares the next timestamps of two channels, \<^verbatim>\<open>StateOrdering\<close> those of
  the two states' front channels. Both assert that what they look at is not empty; the value used
  here for an empty one is arbitrary.
\<close>

definition channel_key :: "channel_store \<Rightarrow> addr \<Rightarrow> time" where
  "channel_key ch x = (case PeekNext (ch x) of Some t \<Rightarrow> t | None \<Rightarrow> 0)"

definition ChannelOrdering :: "channel_store \<Rightarrow> addr \<Rightarrow> addr \<Rightarrow> bool" where
  "ChannelOrdering ch = by_key (channel_key ch)"

definition state_key :: "channel_store \<Rightarrow> (addr \<rightharpoonup> enabled_heap) \<Rightarrow> addr \<Rightarrow> time" where
  "state_key ch qs st =
     (case qs st of
        Some q \<Rightarrow> (case heap_front (channel_heap q) of Some x \<Rightarrow> channel_key ch x | None \<Rightarrow> 0)
      | None \<Rightarrow> 0)"

definition StateOrdering :: "channel_store \<Rightarrow> (addr \<rightharpoonup> enabled_heap) \<Rightarrow> addr \<Rightarrow> addr \<Rightarrow> bool" where
  "StateOrdering ch qs = by_key (state_key ch qs)"

subsection \<open>Notifications from channels\<close>

definition front_time :: "channel_store \<Rightarrow> addr steady_heap \<Rightarrow> time option" where
  "front_time ch h = do { x \<leftarrow> heap_front h; PeekNext (ch x) }"

definition JobsArrived :: "channel_store \<Rightarrow> addr \<Rightarrow> scheduler \<Rightarrow> scheduler option" where
  "JobsArrived ch x s = do {
     let st = single_thread_object (ch x);
     let chq = queue_of s st;
     assert_that (heap_count x (channel_heap chq) = 0);
     earliest \<leftarrow> (if heap_empty (channel_heap chq) then Some kMaxTime else front_time ch (channel_heap chq));
     let h1 = push_heap (ChannelOrdering ch) x (channel_heap chq);
     let s1 = set_queue st (chq\<lparr>channel_heap := h1\<rparr>) s;
     now_first \<leftarrow> front_time ch h1;
     if enabled chq \<and> now_first < earliest
     then do {
       sq \<leftarrow> (if earliest \<noteq> kMaxTime
               then force_pop_heap (StateOrdering ch (state_queues s1)) st (state_queue s1)
               else Some (state_queue s1));
       assert_that (heap_count st sq = 0);
       Some (emit NotifyOne (s1\<lparr>state_queue := push_heap (StateOrdering ch (state_queues s1)) st sq\<rparr>))
     }
     else Some s1
   }"

definition JobsUpdated :: "channel_store \<Rightarrow> addr \<Rightarrow> bool \<Rightarrow> scheduler \<Rightarrow> scheduler option" where
  "JobsUpdated ch x was_push s = do {
     let st = single_thread_object (ch x);
     let chq = queue_of s st;
     assert_that (\<not> heap_empty (channel_heap chq));
     assert_that (heap_count x (channel_heap chq) = 1);
     top \<leftarrow> heap_front (channel_heap chq);
     let was_top = (top = x);
     earliest \<leftarrow> front_time ch (channel_heap chq);
     h0 \<leftarrow> force_pop_heap (ChannelOrdering ch) x (channel_heap chq);
     let h1 = push_heap (ChannelOrdering ch) x h0;
     let s1 = set_queue st (chq\<lparr>channel_heap := h1\<rparr>) s;
     now_first \<leftarrow> front_time ch h1;
     if enabled chq \<and> (now_first \<noteq> earliest \<or> was_top)
     then do {
       sq \<leftarrow> force_pop_heap (StateOrdering ch (state_queues s1)) st (state_queue s1);
       assert_that (heap_count st sq = 0);
       let s2 = s1\<lparr>state_queue := push_heap (StateOrdering ch (state_queues s1)) st sq\<rparr>;
       Some (if was_push then emit NotifyOne s2 else s2)
     }
     else Some s1
   }"

definition JobsDropped :: "channel_store \<Rightarrow> addr \<Rightarrow> scheduler \<Rightarrow> scheduler option" where
  "JobsDropped ch x s = do {
     let st = single_thread_object (ch x);
     let chq = queue_of s st;
     assert_that (\<not> heap_empty (channel_heap chq));
     assert_that (heap_count x (channel_heap chq) = 1);
     top \<leftarrow> heap_front (channel_heap chq);
     let was_top = (top = x);
     h1 \<leftarrow> force_pop_heap (ChannelOrdering ch) x (channel_heap chq);
     let s1 = set_queue st (chq\<lparr>channel_heap := h1\<rparr>) s;
     if enabled chq \<and> was_top
     then do {
       sq \<leftarrow> force_pop_heap (StateOrdering ch (state_queues s1)) st (state_queue s1);
       assert_that (heap_count st sq = 0);
       Some (if heap_empty h1 then s1\<lparr>state_queue := sq\<rparr>
             else s1\<lparr>state_queue := push_heap (StateOrdering ch (state_queues s1)) st sq\<rparr>)
     }
     else Some s1
   }"

subsection \<open>Configuration and life cycle\<close>

text \<open>
  These operations test the condition of an assertion again after it and return early when it fails:
  \<open>check dbg\<close> is the assertion as it was compiled.
\<close>

definition scheduler_new :: "nat \<Rightarrow> bool \<Rightarrow> scheduler option" where
  "scheduler_new n prof = do {
     assert_that (0 < n);
     Some \<lparr>channels = [], receivers = [], state_queue = steady_heap_new, state_queues = Map.empty,
           keep_running = False, running = False, workers = 0, workers_number = n,
           has_profiler = prof, valid_state = True, effects = []\<rparr>
   }"

definition AddReceiver :: "addr \<Rightarrow> scheduler \<Rightarrow> scheduler option" where
  "AddReceiver r s = do {
     assert_that (\<not> running s);
     Some (s\<lparr>receivers := receivers s @ [r]\<rparr>)
   }"

definition SetStateInvalid :: "bool \<Rightarrow> scheduler \<Rightarrow> scheduler option" where
  "SetStateInvalid dbg s = do {
     check dbg (\<not> running s);
     Some (if running s then s else s\<lparr>valid_state := False\<rparr>)
   }"

text \<open>The loop \<^verbatim>\<open>while (i-- > 0) workers_.emplace_back(...)\<close>.\<close>

fun spawn_workers :: "nat \<Rightarrow> scheduler \<Rightarrow> scheduler" where
  "spawn_workers 0 s = s"
| "spawn_workers (Suc i) s = spawn_workers i (emit SpawnWorker (s\<lparr>workers := Suc (workers s)\<rparr>))"

definition emit_all :: "sched_effect list \<Rightarrow> scheduler \<Rightarrow> scheduler" where
  "emit_all es s = s\<lparr>effects := effects s @ es\<rparr>"

definition Start :: "bool \<Rightarrow> scheduler \<Rightarrow> scheduler option" where
  "Start dbg s = do {
     check dbg (\<not> running s);
     check dbg (valid_state s);
     if running s \<or> \<not> valid_state s then Some s
     else do {
       let s1 = s\<lparr>running := True, keep_running := True\<rparr>;
       let s2 = spawn_workers (workers_number s) s1;
       let s3 = (if has_profiler s2 then emit ProfilerStart s2 else s2);
       Some (emit_all (map ReceiverStart (receivers s3)) s3)
     }
   }"

definition Stop :: "bool \<Rightarrow> scheduler \<Rightarrow> scheduler option" where
  "Stop dbg s = do {
     check dbg (running s);
     if \<not> running s then Some s
     else do {
       let s1 = emit NotifyAll (s\<lparr>keep_running := False\<rparr>);
       let s2 = emit_all (replicate (workers s1) JoinWorker) s1;
       let s3 = s2\<lparr>running := False, workers := 0\<rparr>;
       let s4 = (if has_profiler s3 then emit ProfilerStop s3 else s3);
       Some (emit_all (map ReceiverStop (receivers s4)) s4)
     }
   }"

definition scheduler_destroy :: "bool \<Rightarrow> scheduler \<Rightarrow> scheduler option" where
  "scheduler_destroy dbg s = do {
     s1 \<leftarrow> (if running s then Stop dbg s else Some s);
     check dbg (channels s1 = []);
     Some s1
   }"

text \<open>
  Registration. \<open>pd\<close> is the address that \<^verbatim>\<open>new ProfileData\<close> returns; the profiler's own
  list is not part of this state, so its two calls are effects.
\<close>

definition RegisterChannel :: "addr \<Rightarrow> addr \<Rightarrow> channel_store \<Rightarrow> scheduler \<Rightarrow> (channel_store \<times> scheduler) option" where
  "RegisterChannel pd x ch s = do {
     assert_that (\<not> running s);
     let s1 = s\<lparr>channels := channels s @ [x]\<rparr>;
     let st = single_thread_object (ch x);
     let s2 = (case state_queues s1 st of
                 Some q \<Rightarrow>
                   set_queue st (q\<lparr>channel_heap :=
                     heap_reserve (heap_capacity (channel_heap q) + 1) (channel_heap q)\<rparr>) s1
               | None \<Rightarrow>
                   set_queue st (enabled_heap_new\<lparr>channel_heap :=
                     heap_reserve 1 (channel_heap enabled_heap_new)\<rparr>)
                     (s1\<lparr>state_queue :=
                        heap_reserve (heap_capacity (state_queue s1) + 1) (state_queue s1)\<rparr>));
     Some (if has_profiler s2 then (ch(x := SetProfileData pd (ch x)), emit (AddProfileData pd) s2)
           else (ch, s2))
   }"

definition UnregisterChannel :: "addr \<Rightarrow> channel_store \<Rightarrow> scheduler \<Rightarrow> (channel_store \<times> scheduler) option" where
  "UnregisterChannel x ch s = do {
     assert_that (\<not> running s);
     i \<leftarrow> find_index x (channels s);
     (ch1, s1) \<leftarrow> (if has_profiler s then do {
                assert_that (profile_data (ch x) \<noteq> nullptr);
                Some (ch(x := SetProfileData nullptr (ch x)),
                      emit (RemoveProfileData (profile_data (ch x))) s)
              } else Some (ch, s));
     Some (ch1, s1\<lparr>channels := swap_remove i (channels s1)\<rparr>)
   }"

end
