(* ===== verification/Scheduler_Inv.thy ===== *)
theory Scheduler_Inv
  imports Scheduler_Impl
begin

text \<open>
  The scheduler's invariant and the proof that the three notifications of \<open>Scheduler_Impl\<close> restore
  it after a channel's queue has changed, without failing an assertion. All heap reasoning goes
  through the laws of \<open>rekey_queue\<close>.
\<close>

subsection \<open>The invariant\<close>

definition has_job :: "channel_store \<Rightarrow> addr \<Rightarrow> bool" where
  "has_job ch x \<longleftrightarrow> has_callback (ch x) \<and> queued_set (ch x) \<noteq> {}"

definition jobs_of :: "channel_store \<Rightarrow> scheduler \<Rightarrow> addr \<Rightarrow> addr set" where
  "jobs_of ch s st = {x \<in> set (channels s). single_thread_object (ch x) = st \<and> has_job ch x}"

definition heaps_inv :: "channel_store \<Rightarrow> scheduler \<Rightarrow> bool" where
  "heaps_inv ch s \<longleftrightarrow>
     (\<forall>st q. state_queues s st = Some q \<longrightarrow>
        queue_inv (channel_key ch) (channel_heap q) \<and> heap_set (channel_heap q) = jobs_of ch s st) \<and>
     (\<forall>x\<in>set (channels s). single_thread_object (ch x) \<in> dom (state_queues s))"

definition ready_states :: "scheduler \<Rightarrow> addr set" where
  "ready_states s = {st. \<exists>q. state_queues s st = Some q \<and> enabled q \<and> heap_set (channel_heap q) \<noteq> {}}"

definition states_inv :: "channel_store \<Rightarrow> scheduler \<Rightarrow> bool" where
  "states_inv ch s \<longleftrightarrow>
     queue_inv (state_key ch (state_queues s)) (state_queue s) \<and> heap_set (state_queue s) = ready_states s"

definition sched_inv :: "channel_store \<Rightarrow> scheduler \<Rightarrow> bool" where
  "sched_inv ch s \<longleftrightarrow> heaps_inv ch s \<and> states_inv ch s"

definition times_ok :: "channel_store \<Rightarrow> scheduler \<Rightarrow> bool" where
  "times_ok ch s \<longleftrightarrow> (\<forall>x\<in>set (channels s). has_job ch x \<longrightarrow> channel_key ch x < kMaxTime)"

text \<open>One channel of the store has changed, but not the fields set at construction.\<close>

definition updated :: "channel_store \<Rightarrow> addr \<Rightarrow> channel_store \<Rightarrow> bool" where
  "updated ch0 x ch \<longleftrightarrow>
     (\<forall>y. y \<noteq> x \<longrightarrow> ch y = ch0 y) \<and>
     single_thread_object (ch x) = single_thread_object (ch0 x) \<and> has_callback (ch x) = has_callback (ch0 x)"

text \<open>What a notification never changes.\<close>

definition same_config :: "scheduler \<Rightarrow> scheduler \<Rightarrow> bool" where
  "same_config s s' \<longleftrightarrow>
     channels s' = channels s \<and> receivers s' = receivers s \<and> keep_running s' = keep_running s \<and>
     running s' = running s \<and> workers s' = workers s \<and> workers_number s' = workers_number s \<and>
     has_profiler s' = has_profiler s \<and> valid_state s' = valid_state s \<and>
     (\<forall>st. map_option enabled (state_queues s' st) = map_option enabled (state_queues s st))"

text \<open>A state that becomes ready is announced to the workers.\<close>

definition announced :: "scheduler \<Rightarrow> scheduler \<Rightarrow> bool" where
  "announced s s' \<longleftrightarrow>
     effects s' = effects s @ [NotifyOne] \<or> effects s' = effects s \<and> ready_states s' \<subseteq> ready_states s"

lemma same_config_refl [simp]: "same_config s s"
  by (simp add: same_config_def)

lemma same_config_trans: "same_config s s' \<Longrightarrow> same_config s' s'' \<Longrightarrow> same_config s s''"
  by (simp add: same_config_def)

lemma updated_refl [simp]: "updated ch x ch"
  by (simp add: updated_def)

lemma updated_fun_upd:
  "single_thread_object c = single_thread_object (ch x) \<Longrightarrow> has_callback c = has_callback (ch x) \<Longrightarrow>
     updated ch x (ch(x := c))"
  by (simp add: updated_def)

subsection \<open>Keys\<close>

lemma channel_key_eq: "PeekNext (ch x) = Some t \<Longrightarrow> channel_key ch x = t"
  by (simp add: channel_key_def)

lemma has_job_peek: "has_job ch x \<Longrightarrow> PeekNext (ch x) = Some (channel_key ch x)"
  by (cases "PeekNext (ch x)") (auto simp: has_job_def channel_key_def)

lemma channel_key_updated: "updated ch0 x ch \<Longrightarrow> y \<noteq> x \<Longrightarrow> channel_key ch y = channel_key ch0 y"
  by (simp add: updated_def channel_key_def)

lemma has_job_updated: "updated ch0 x ch \<Longrightarrow> y \<noteq> x \<Longrightarrow> has_job ch y = has_job ch0 y"
  by (simp add: updated_def has_job_def)

lemma object_updated: "updated ch0 x ch \<Longrightarrow> single_thread_object (ch y) = single_thread_object (ch0 y)"
  by (cases "y = x") (auto simp: updated_def)

lemma front_time_eq:
  "heap_front h = Some y \<Longrightarrow> has_job ch y \<Longrightarrow> front_time ch h = Some (channel_key ch y)"
  by (simp add: front_time_def has_job_peek)

text \<open>A heap of channels that all have work has a front time, which is the least key.\<close>

lemma front_time_least:
  assumes "queue_inv (channel_key ch) h" and "heap_set h \<noteq> {}" and "\<And>y. y \<in> heap_set h \<Longrightarrow> has_job ch y"
  obtains y where "heap_front h = Some y" "y \<in> heap_set h" "front_time ch h = Some (channel_key ch y)"
    "\<And>z. z \<in> heap_set h \<Longrightarrow> channel_key ch y \<le> channel_key ch z"
proof -
  from hq.front_ex [OF assms(2)] obtain y where y: "heap_front h = Some y" by blast
  from hq.front_min [OF assms(1) y] assms(3) y show thesis by (intro that [of y]) (auto simp: front_time_eq)
qed

lemma state_key_front:
  "qs st = Some q \<Longrightarrow> heap_front (channel_heap q) = Some y \<Longrightarrow> state_key ch qs st = channel_key ch y"
  by (simp add: state_key_def)

lemma queue_of_Some: "state_queues s st = Some q \<Longrightarrow> queue_of s st = q"
  by (simp add: queue_of_def)

lemma heaps_inv_queue:
  assumes "heaps_inv ch s" "x \<in> set (channels s)"
  obtains q where "state_queues s (single_thread_object (ch x)) = Some q"
    "queue_of s (single_thread_object (ch x)) = q"
    "queue_inv (channel_key ch) (channel_heap q)"
    "heap_set (channel_heap q) = jobs_of ch s (single_thread_object (ch x))"
  using assms by (auto simp: heaps_inv_def queue_of_def)

subsection \<open>Replacing one state's heap\<close>

lemma jobs_of_other:
  "updated ch0 x ch \<Longrightarrow> st \<noteq> single_thread_object (ch0 x) \<Longrightarrow> jobs_of ch s st = jobs_of ch0 s st"
  by (auto simp: jobs_of_def object_updated has_job_updated) (metis has_job_updated)+

lemma jobs_of_gain:
  "updated ch0 x ch \<Longrightarrow> x \<in> set (channels s) \<Longrightarrow> has_job ch x \<Longrightarrow>
     jobs_of ch s (single_thread_object (ch0 x)) = insert x (jobs_of ch0 s (single_thread_object (ch0 x)))"
  by (auto simp: jobs_of_def object_updated) (metis has_job_updated)+

lemma jobs_of_lose:
  "updated ch0 x ch \<Longrightarrow> \<not> has_job ch x \<Longrightarrow>
     jobs_of ch s (single_thread_object (ch0 x)) = jobs_of ch0 s (single_thread_object (ch0 x)) - {x}"
  by (auto simp: jobs_of_def object_updated) (metis has_job_updated)+

lemma jobs_of_set_queue [simp]: "jobs_of ch (set_queue st q s) st' = jobs_of ch s st'"
  by (simp add: jobs_of_def set_queue_def)

lemma heaps_inv_other:
  assumes inv: "heaps_inv ch0 s" and upd: "updated ch0 x ch" and ne: "st' \<noteq> single_thread_object (ch0 x)"
    and q': "state_queues s st' = Some q'"
  shows "queue_inv (channel_key ch) (channel_heap q') \<and> heap_set (channel_heap q') = jobs_of ch s st'"
proof -
  from inv q' have old: "queue_inv (channel_key ch0) (channel_heap q')"
    "heap_set (channel_heap q') = jobs_of ch0 s st'" by (simp_all add: heaps_inv_def)
  have "queue_inv (channel_key ch) (channel_heap q')"
    using old(1)
  proof (rule hq.cong)
    fix y assume "y \<in> heap_set (channel_heap q')"
    with old(2) ne have "y \<noteq> x" by (auto simp: jobs_of_def)
    with upd show "channel_key ch y = channel_key ch0 y" by (rule channel_key_updated)
  qed
  with old(2) upd ne show ?thesis by (simp add: jobs_of_other)
qed

lemma heaps_inv_set_queue:
  assumes inv: "heaps_inv ch0 s" and upd: "updated ch0 x ch"
    and h: "queue_inv (channel_key ch) h" "heap_set h = jobs_of ch s (single_thread_object (ch0 x))"
  shows "heaps_inv ch (set_queue (single_thread_object (ch0 x)) (q\<lparr>channel_heap := h\<rparr>) s)"
    (is "heaps_inv ch ?s'")
  unfolding heaps_inv_def
proof (intro conjI allI impI ballI)
  fix st' q'
  assume q': "state_queues ?s' st' = Some q'"
  have "queue_inv (channel_key ch) (channel_heap q') \<and> heap_set (channel_heap q') = jobs_of ch s st'"
  proof (cases "st' = single_thread_object (ch0 x)")
    case True
    with q' have "q' = q\<lparr>channel_heap := h\<rparr>" by simp
    with True h show ?thesis by simp
  next
    case False
    with q' have "state_queues s st' = Some q'" by simp
    with inv upd False show ?thesis by (rule heaps_inv_other)
  qed
  then show "queue_inv (channel_key ch) (channel_heap q')"
    and "heap_set (channel_heap q') = jobs_of ch ?s' st'" by simp_all
next
  fix y assume "y \<in> set (channels ?s')"
  then have "single_thread_object (ch0 y) \<in> dom (state_queues s)" using inv by (simp add: heaps_inv_def)
  with upd show "single_thread_object (ch y) \<in> dom (state_queues ?s')" by (simp add: object_updated)
qed

text \<open>The keys of the other states do not move.\<close>

lemma state_key_other:
  assumes inv: "heaps_inv ch0 s" and upd: "updated ch0 x ch" and ne: "st' \<noteq> single_thread_object (ch0 x)"
  shows "state_key ch (state_queues (set_queue (single_thread_object (ch0 x)) q s)) st' =
    state_key ch0 (state_queues s) st'"
proof (cases "state_queues s st'")
  case None
  with ne show ?thesis by (simp add: state_key_def set_queue_def)
next
  case (Some q')
  show ?thesis
  proof (cases "heap_front (channel_heap q')")
    case None
    with Some ne show ?thesis by (simp add: state_key_def del: heap_front_None_iff)
  next
    case (Some y)
    from inv \<open>state_queues s st' = Some q'\<close> have q': "queue_inv (channel_key ch0) (channel_heap q')"
      "heap_set (channel_heap q') = jobs_of ch0 s st'" by (auto simp: heaps_inv_def)
    from hq.front_min [OF q'(1) Some] q'(2) ne have "y \<noteq> x" by (auto simp: jobs_of_def)
    with upd have "channel_key ch y = channel_key ch0 y" by (intro channel_key_updated)
    with Some \<open>state_queues s st' = Some q'\<close> ne show ?thesis by (simp add: state_key_def set_queue_def)
  qed
qed

lemma same_config_set_queue:
  "state_queues s st = Some q \<Longrightarrow> enabled q' = enabled q \<Longrightarrow> same_config s (set_queue st q' s)"
  by (auto simp: same_config_def set_queue_def)

subsection \<open>The state queue after one heap has been replaced\<close>

lemma ready_states_set_queue:
  "ready_states (set_queue st q s) =
     (if enabled q \<and> heap_set (channel_heap q) \<noteq> {} then insert st (ready_states s) else ready_states s - {st})"
  by (auto simp: ready_states_def)

lemma ready_states_cong [simp]:
  "ready_states (s\<lparr>state_queue := sq\<rparr>) = ready_states s"
  "ready_states (emit e s) = ready_states s"
  by (simp_all add: ready_states_def emit_def)

lemma heaps_inv_cong [simp]:
  "heaps_inv ch (s\<lparr>state_queue := sq\<rparr>) = heaps_inv ch s"
  "heaps_inv ch (emit e s) = heaps_inv ch s"
  by (simp_all add: heaps_inv_def jobs_of_def emit_def)

lemma states_inv_cong [simp]:
  "states_inv ch (emit e s) = states_inv ch s"
  by (simp add: states_inv_def) (simp add: emit_def)

lemma same_config_cong [simp]:
  "same_config s (s'\<lparr>state_queue := sq\<rparr>) = same_config s s'"
  "same_config s (emit e s') = same_config s s'"
  by (simp_all add: same_config_def emit_def)

lemma states_invI:
  "queue_inv (state_key ch (state_queues s)) sq \<Longrightarrow> heap_set sq = ready_states s \<Longrightarrow>
     states_inv ch (s\<lparr>state_queue := sq\<rparr>)"
  by (simp add: states_inv_def)

text \<open>
  The three ways the notifications treat the state queue: leave it (the state's key has not moved or
  the state is not in the queue), take the state out, or take it out and put it back.
\<close>

lemma states_keep:
  assumes inv: "sched_inv ch0 s" and upd: "updated ch0 x ch"
    and key: "single_thread_object (ch0 x) \<in> ready_states s \<Longrightarrow>
      state_key ch (state_queues (set_queue (single_thread_object (ch0 x)) q s)) (single_thread_object (ch0 x)) =
      state_key ch0 (state_queues s) (single_thread_object (ch0 x))"
    and ready: "ready_states (set_queue (single_thread_object (ch0 x)) q s) = ready_states s"
  shows "states_inv ch (set_queue (single_thread_object (ch0 x)) q s)"
proof -
  let ?st = "single_thread_object (ch0 x)"
  from inv have h: "heaps_inv ch0 s" and "queue_inv (state_key ch0 (state_queues s)) (state_queue s)"
    and set: "heap_set (state_queue s) = ready_states s" by (simp_all add: sched_inv_def states_inv_def)
  from this(2) have "queue_inv (state_key ch (state_queues (set_queue ?st q s))) (state_queue s)"
  proof (rule hq.cong)
    fix st' assume "st' \<in> heap_set (state_queue s)"
    with set key state_key_other [OF h upd, of st' q]
    show "state_key ch (state_queues (set_queue ?st q s)) st' = state_key ch0 (state_queues s) st'"
      by (cases "st' = ?st") auto
  qed
  with set ready show ?thesis by (simp add: states_inv_def)
qed

lemma states_rekey:
  assumes inv: "sched_inv ch0 s" and upd: "updated ch0 x ch"
    and st: "st = single_thread_object (ch0 x)" "st \<in> ready_states s"
  obtains sq where "force_pop_heap (StateOrdering ch (state_queues (set_queue st q s))) st (state_queue s) = Some sq"
    and "heap_set sq = ready_states s - {st}"
    and "queue_inv (state_key ch (state_queues (set_queue st q s))) sq"
    and "queue_inv (state_key ch (state_queues (set_queue st q s)))
           (push_heap (StateOrdering ch (state_queues (set_queue st q s))) st sq)"
    and "heap_set (push_heap (StateOrdering ch (state_queues (set_queue st q s))) st sq) = ready_states s"
proof -
  from inv have h: "heaps_inv ch0 s" and q0: "queue_inv (state_key ch0 (state_queues s)) (state_queue s)"
    and set: "heap_set (state_queue s) = ready_states s" by (simp_all add: sched_inv_def states_inv_def)
  have other: "state_key ch (state_queues (set_queue st q s)) st' = state_key ch0 (state_queues s) st'"
    if "st' \<noteq> st" for st'
    using state_key_other [OF h upd] that st(1) by blast
  have mem: "st \<in> heap_set (state_queue s)" using st(2) set by simp
  show thesis
    by (rule hq.rekey [OF q0 mem, where k' = "state_key ch (state_queues (set_queue st q s))"])
      (use other set that in \<open>auto simp: StateOrdering_def simp del: set_queue_simps\<close>)
qed

lemma states_insert:
  assumes inv: "sched_inv ch0 s" and upd: "updated ch0 x ch"
    and st: "st = single_thread_object (ch0 x)" "st \<notin> ready_states s"
  shows "queue_inv (state_key ch (state_queues (set_queue st q s)))
           (push_heap (StateOrdering ch (state_queues (set_queue st q s))) st (state_queue s))"
    and "heap_set (push_heap (StateOrdering ch (state_queues (set_queue st q s))) st (state_queue s)) =
           insert st (ready_states s)"
proof -
  from inv have h: "heaps_inv ch0 s" and q0: "queue_inv (state_key ch0 (state_queues s)) (state_queue s)"
    and set: "heap_set (state_queue s) = ready_states s" by (simp_all add: sched_inv_def states_inv_def)
  from q0 have "queue_inv (state_key ch (state_queues (set_queue st q s))) (state_queue s)"
  proof (rule hq.cong)
    fix st' assume "st' \<in> heap_set (state_queue s)"
    with set st have "st' \<noteq> single_thread_object (ch0 x)" by auto
    with h upd st(1) show "state_key ch (state_queues (set_queue st q s)) st' = state_key ch0 (state_queues s) st'"
      using state_key_other by blast
  qed
  with set st show "queue_inv (state_key ch (state_queues (set_queue st q s)))
      (push_heap (StateOrdering ch (state_queues (set_queue st q s))) st (state_queue s))"
    unfolding StateOrdering_def by (intro hq.invar_push) auto
  show "heap_set (push_heap (StateOrdering ch (state_queues (set_queue st q s))) st (state_queue s)) =
      insert st (ready_states s)"
    using set by simp
qed

subsection \<open>JobsArrived\<close>

lemma JobsArrived_ok:
  assumes inv: "sched_inv ch0 s" and upd: "updated ch0 x ch" and x: "x \<in> set (channels s)"
    and old: "\<not> has_job ch0 x" and new: "has_job ch x" and times: "times_ok ch s"
  shows "\<exists>s'. JobsArrived ch x s = Some s' \<and> sched_inv ch s' \<and> same_config s s' \<and>
    announced s s'"
proof -
  let ?st = "single_thread_object (ch0 x)"
  have obj: "single_thread_object (ch x) = ?st" using upd by (rule object_updated)
  from inv have hi: "heaps_inv ch0 s" by (simp add: sched_inv_def)
  from heaps_inv_queue [OF hi x] obtain q where q: "state_queues s ?st = Some q" "queue_of s ?st = q"
    "queue_inv (channel_key ch0) (channel_heap q)" "heap_set (channel_heap q) = jobs_of ch0 s ?st" .
  have xn: "x \<notin> heap_set (channel_heap q)" using q(4) old by (simp add: jobs_of_def)
  have hk: "queue_inv (channel_key ch) (channel_heap q)"
    using q(3) by (rule hq.cong) (metis xn upd channel_key_updated)
  have jobs: "has_job ch y" if "y \<in> heap_set (channel_heap q)" for y
    using that q(4) xn upd by (cases "y = x") (auto simp: jobs_of_def has_job_updated)
  define h1 where "h1 = push_heap (ChannelOrdering ch) x (channel_heap q)"
  define s1 where "s1 = set_queue ?st (q\<lparr>channel_heap := h1\<rparr>) s"
  have h1: "queue_inv (channel_key ch) h1" "heap_set h1 = insert x (heap_set (channel_heap q))"
    using hk xn by (simp_all add: h1_def ChannelOrdering_def hq.invar_push)
  have h1j: "heap_set h1 = jobs_of ch s ?st" using h1(2) q(4) jobs_of_gain [OF upd x new] by simp
  have hs1: "heaps_inv ch s1" unfolding s1_def by (rule heaps_inv_set_queue [OF hi upd h1(1) h1j])
  have sc: "same_config s s1" unfolding s1_def by (rule same_config_set_queue [OF q(1)]) simp
  obtain f where f: "heap_front h1 = Some f" "f \<in> heap_set h1" "front_time ch h1 = Some (channel_key ch f)"
    "\<And>z. z \<in> heap_set h1 \<Longrightarrow> channel_key ch f \<le> channel_key ch z"
    by (rule front_time_least [OF h1(1)]) (use h1(2) jobs new in auto)
  have fmax: "channel_key ch f < kMaxTime"
    using times f(2) h1j by (simp add: times_ok_def jobs_of_def)
  have ready1: "ready_states s1 = (if enabled q then insert ?st (ready_states s) else ready_states s - {?st})"
    using h1(2) by (simp add: s1_def ready_states_set_queue)
  have st_ready: "?st \<in> ready_states s \<longleftrightarrow> enabled q \<and> heap_set (channel_heap q) \<noteq> {}"
    using q(1) by (simp add: ready_states_def)
  have sk1: "state_key ch (state_queues s1) ?st = channel_key ch f"
    using f(1) by (simp add: s1_def state_key_def)
  note run = JobsArrived_def Let_def obj q(2) h1_def [symmetric] s1_def [symmetric] f(3) xn
  show ?thesis
  proof (cases "heap_set (channel_heap q) = {}")
    case True
    have "JobsArrived ch x s =
        (if enabled q then Some (emit NotifyOne (s1\<lparr>state_queue :=
           push_heap (StateOrdering ch (state_queues s1)) ?st (state_queue s)\<rparr>)) else Some s1)"
      using True fmax st_ready inv by (simp add: run) (simp add: s1_def sched_inv_def states_inv_def)
    moreover have "states_inv ch (s1\<lparr>state_queue :=
        push_heap (StateOrdering ch (state_queues s1)) ?st (state_queue s)\<rparr>)" if "enabled q"
      using states_insert [OF inv upd refl, of "q\<lparr>channel_heap := h1\<rparr>"] st_ready True ready1 that
      by (intro states_invI) (simp_all add: s1_def)
    moreover have "states_inv ch s1" if "\<not> enabled q"
      unfolding s1_def using that st_ready ready1 by (intro states_keep [OF inv upd]) (auto simp: s1_def)
    moreover have "effects s1 = effects s" by (simp add: s1_def)
    ultimately show ?thesis using hs1 sc ready1 by (cases "enabled q") (auto simp: sched_inv_def announced_def)
  next
    case False
    obtain g where g: "heap_front (channel_heap q) = Some g" "g \<in> heap_set (channel_heap q)"
      "front_time ch (channel_heap q) = Some (channel_key ch g)"
      "\<And>z. z \<in> heap_set (channel_heap q) \<Longrightarrow> channel_key ch g \<le> channel_key ch z"
      by (rule front_time_least [OF hk False]) (rule jobs that; assumption)+
    have gx: "g \<noteq> x" using g(2) xn by blast
    have gmax: "channel_key ch g < kMaxTime"
      using times g(2) h1(2) h1j by (metis (mono_tags, lifting) insertI2 jobs_of_def mem_Collect_eq times_ok_def)
    have sk0: "state_key ch0 (state_queues s) ?st = channel_key ch g"
      using g(1) q(1) channel_key_updated [OF upd gx] by (simp add: state_key_def)
    show ?thesis
    proof (cases "enabled q \<and> channel_key ch f < channel_key ch g")
      case True
      then have ready: "?st \<in> ready_states s" using st_ready \<open>heap_set (channel_heap q) \<noteq> {}\<close> by simp
      obtain sq where sq: "force_pop_heap (StateOrdering ch (state_queues s1)) ?st (state_queue s) = Some sq"
        "heap_set sq = ready_states s - {?st}"
        "queue_inv (state_key ch (state_queues s1)) (push_heap (StateOrdering ch (state_queues s1)) ?st sq)"
        "heap_set (push_heap (StateOrdering ch (state_queues s1)) ?st sq) = ready_states s"
        using states_rekey [OF inv upd refl ready, of "q\<lparr>channel_heap := h1\<rparr>"] unfolding s1_def by metis
      have "JobsArrived ch x s = Some (emit NotifyOne (s1\<lparr>state_queue :=
          push_heap (StateOrdering ch (state_queues s1)) ?st sq\<rparr>))"
        using True gmax False sq(1,2) by (simp add: run g(3)) (simp add: s1_def)
      moreover have "ready_states s1 = ready_states s" using ready1 True ready by auto
      moreover have "effects s1 = effects s" by (simp add: s1_def)
      ultimately show ?thesis using hs1 sc sq states_invI [OF sq(3)] by (simp add: sched_inv_def announced_def)
    next
      case notlt: False
      have "JobsArrived ch x s = Some s1" using notlt False by (auto simp: run g(3))
      moreover have rs: "ready_states s1 = ready_states s" using ready1 st_ready False by auto
      moreover have "states_inv ch s1"
        unfolding s1_def
      proof (rule states_keep [OF inv upd])
        assume "?st \<in> ready_states s"
        with notlt st_ready have "channel_key ch g \<le> channel_key ch f" by simp
        moreover have "channel_key ch f \<le> channel_key ch g" using f(4) h1(2) g(2) by simp
        ultimately show "state_key ch (state_queues (set_queue ?st (q\<lparr>channel_heap := h1\<rparr>) s)) ?st =
            state_key ch0 (state_queues s) ?st"
          using sk0 sk1 by (simp add: s1_def)
      qed (use rs in \<open>simp add: s1_def\<close>)
      moreover have "effects s1 = effects s" by (simp add: s1_def)
      ultimately show ?thesis using hs1 sc by (simp add: sched_inv_def announced_def)
    qed
  qed
qed

subsection \<open>JobsUpdated\<close>

lemma JobsUpdated_ok:
  assumes inv: "sched_inv ch0 s" and upd: "updated ch0 x ch" and x: "x \<in> set (channels s)"
    and old: "has_job ch0 x" and new: "has_job ch x"
  shows "\<exists>s'. JobsUpdated ch x was_push s = Some s' \<and> sched_inv ch s' \<and> same_config s s' \<and> announced s s'"
proof -
  let ?st = "single_thread_object (ch0 x)"
  have obj: "single_thread_object (ch x) = ?st" using upd by (rule object_updated)
  from inv have hi: "heaps_inv ch0 s" by (simp add: sched_inv_def)
  from heaps_inv_queue [OF hi x] obtain q where q: "state_queues s ?st = Some q" "queue_of s ?st = q"
    "queue_inv (channel_key ch0) (channel_heap q)" "heap_set (channel_heap q) = jobs_of ch0 s ?st" .
  have xin: "x \<in> heap_set (channel_heap q)" using q(4) old x by (simp add: jobs_of_def)
  then have nonempty: "heap_set (channel_heap q) \<noteq> {}" by blast
  have keys: "channel_key ch y = channel_key ch0 y" if "y \<noteq> x" for y
    using upd that by (rule channel_key_updated)
  have jobs: "has_job ch y" if "y \<in> heap_set (channel_heap q)" for y
    using that q(4) new upd by (cases "y = x") (auto simp: jobs_of_def has_job_updated)
  obtain h0 where h0: "force_pop_heap (ChannelOrdering ch) x (channel_heap q) = Some h0"
    "queue_inv (channel_key ch) (push_heap (ChannelOrdering ch) x h0)"
    "heap_set (push_heap (ChannelOrdering ch) x h0) = heap_set (channel_heap q)"
    unfolding ChannelOrdering_def by (rule hq.rekey [OF q(3) xin keys]) (assumption | blast)+
  define h1 where "h1 = push_heap (ChannelOrdering ch) x h0"
  define s1 where "s1 = set_queue ?st (q\<lparr>channel_heap := h1\<rparr>) s"
  have h1: "queue_inv (channel_key ch) h1" "heap_set h1 = heap_set (channel_heap q)"
    using h0 by (simp_all add: h1_def)
  have h1j: "heap_set h1 = jobs_of ch s ?st"
    using h1(2) q(4) xin jobs_of_gain [OF upd x new] by auto
  have hs1: "heaps_inv ch s1" unfolding s1_def by (rule heaps_inv_set_queue [OF hi upd h1(1) h1j])
  have sc: "same_config s s1" unfolding s1_def by (rule same_config_set_queue [OF q(1)]) simp
  have eff: "effects s1 = effects s" by (simp add: s1_def)
  obtain f where f: "heap_front h1 = Some f" "f \<in> heap_set h1" "front_time ch h1 = Some (channel_key ch f)"
    "\<And>z. z \<in> heap_set h1 \<Longrightarrow> channel_key ch f \<le> channel_key ch z"
    by (rule front_time_least [OF h1(1)]) (use h1(2) nonempty jobs in auto)
  obtain g where g: "heap_front (channel_heap q) = Some g" "g \<in> heap_set (channel_heap q)"
    using hq.front_ex [OF nonempty] hq.front_min [OF q(3)] by blast
  have gt: "front_time ch (channel_heap q) = Some (channel_key ch g)"
    using g jobs by (intro front_time_eq)
  have st_ready: "?st \<in> ready_states s \<longleftrightarrow> enabled q" using q(1) nonempty by (simp add: ready_states_def)
  have ready1: "ready_states s1 = ready_states s"
    using h1(2) nonempty st_ready by (auto simp: s1_def ready_states_set_queue)
  have sk1: "state_key ch (state_queues s1) ?st = channel_key ch f"
    using f(1) by (simp add: s1_def state_key_def)
  have run: "JobsUpdated ch x was_push s =
      (if enabled q \<and> (channel_key ch f \<noteq> channel_key ch g \<or> g = x)
       then do {
         sq \<leftarrow> force_pop_heap (StateOrdering ch (state_queues s1)) ?st (state_queue s1);
         assert_that (heap_count ?st sq = 0);
         let s2 = s1\<lparr>state_queue := push_heap (StateOrdering ch (state_queues s1)) ?st sq\<rparr>;
         Some (if was_push then emit NotifyOne s2 else s2)
       } else Some s1)"
    using nonempty xin heap_count_1 [OF q(3) xin]
    by (simp add: JobsUpdated_def Let_def obj q(2) g(1) gt h0(1) h1_def [symmetric] s1_def [symmetric] f(3) cong: if_cong
        del: set_queue_simps)
  show ?thesis
  proof (cases "enabled q \<and> (channel_key ch f \<noteq> channel_key ch g \<or> g = x)")
    case True
    then have ready: "?st \<in> ready_states s" using st_ready by simp
    obtain sq where sq: "force_pop_heap (StateOrdering ch (state_queues s1)) ?st (state_queue s) = Some sq"
      "heap_set sq = ready_states s - {?st}"
      "queue_inv (state_key ch (state_queues s1)) (push_heap (StateOrdering ch (state_queues s1)) ?st sq)"
      "heap_set (push_heap (StateOrdering ch (state_queues s1)) ?st sq) = ready_states s"
      using states_rekey [OF inv upd refl ready, of "q\<lparr>channel_heap := h1\<rparr>"] unfolding s1_def by metis
    define s2 where "s2 = s1\<lparr>state_queue := push_heap (StateOrdering ch (state_queues s1)) ?st sq\<rparr>"
    have "state_queue s1 = state_queue s" by (simp add: s1_def)
    then have "JobsUpdated ch x was_push s = Some (if was_push then emit NotifyOne s2 else s2)"
      using True sq(1,2) by (simp add: run Let_def s2_def)
    moreover have "states_inv ch s2" unfolding s2_def using sq ready1 by (intro states_invI) simp_all
    moreover have "heaps_inv ch s2" "same_config s s2" "ready_states s2 = ready_states s" "effects s2 = effects s"
      using hs1 sc ready1 eff by (simp_all add: s2_def)
    ultimately show ?thesis by (simp add: sched_inv_def announced_def)
  next
    case False
    have "states_inv ch s1"
      unfolding s1_def
    proof (rule states_keep [OF inv upd])
      assume "?st \<in> ready_states s"
      with False st_ready have "channel_key ch f = channel_key ch g" "g \<noteq> x" by simp_all
      moreover have "state_key ch0 (state_queues s) ?st = channel_key ch0 g"
        using g(1) q(1) by (simp add: state_key_def)
      ultimately show "state_key ch (state_queues (set_queue ?st (q\<lparr>channel_heap := h1\<rparr>) s)) ?st =
          state_key ch0 (state_queues s) ?st"
        using sk1 keys by (simp add: s1_def)
    qed (use ready1 in \<open>simp add: s1_def\<close>)
    moreover have "JobsUpdated ch x was_push s = Some s1" by (simp only: run if_not_P [OF False])
    ultimately show ?thesis using hs1 sc ready1 eff by (simp add: sched_inv_def announced_def)
  qed
qed

subsection \<open>JobsDropped\<close>

lemma JobsDropped_ok:
  assumes inv: "sched_inv ch0 s" and upd: "updated ch0 x ch" and x: "x \<in> set (channels s)"
    and old: "has_job ch0 x" and new: "\<not> has_job ch x"
  shows "\<exists>s'. JobsDropped ch x s = Some s' \<and> sched_inv ch s' \<and> same_config s s' \<and> announced s s'"
proof -
  let ?st = "single_thread_object (ch0 x)"
  have obj: "single_thread_object (ch x) = ?st" using upd by (rule object_updated)
  from inv have hi: "heaps_inv ch0 s" by (simp add: sched_inv_def)
  from heaps_inv_queue [OF hi x] obtain q where q: "state_queues s ?st = Some q" "queue_of s ?st = q"
    "queue_inv (channel_key ch0) (channel_heap q)" "heap_set (channel_heap q) = jobs_of ch0 s ?st" .
  have xin: "x \<in> heap_set (channel_heap q)" using q(4) old x by (simp add: jobs_of_def)
  then have nonempty: "heap_set (channel_heap q) \<noteq> {}" by blast
  have keys: "channel_key ch y = channel_key ch0 y" if "y \<noteq> x" for y
    using upd that by (rule channel_key_updated)
  obtain h1 where h1: "force_pop_heap (ChannelOrdering ch) x (channel_heap q) = Some h1"
    "queue_inv (channel_key ch) h1" "heap_set h1 = heap_set (channel_heap q) - {x}"
    unfolding ChannelOrdering_def using hq.force_pop_ok [OF q(3) xin, of "channel_key ch"] keys by metis
  define s1 where "s1 = set_queue ?st (q\<lparr>channel_heap := h1\<rparr>) s"
  have h1j: "heap_set h1 = jobs_of ch s ?st" using h1(3) q(4) jobs_of_lose [OF upd new] by simp
  have hs1: "heaps_inv ch s1" unfolding s1_def by (rule heaps_inv_set_queue [OF hi upd h1(2) h1j])
  have sc: "same_config s s1" unfolding s1_def by (rule same_config_set_queue [OF q(1)]) simp
  have eff: "effects s1 = effects s" and sq1: "state_queue s1 = state_queue s" by (simp_all add: s1_def)
  obtain g where g: "heap_front (channel_heap q) = Some g" "g \<in> heap_set (channel_heap q)"
    "\<And>z. z \<in> heap_set (channel_heap q) \<Longrightarrow> channel_key ch0 g \<le> channel_key ch0 z"
    using hq.front_ex [OF nonempty] hq.front_min [OF q(3)] by blast
  have st_ready: "?st \<in> ready_states s \<longleftrightarrow> enabled q" using q(1) nonempty by (simp add: ready_states_def)
  have ready1: "ready_states s1 =
      (if enabled q \<and> heap_set h1 \<noteq> {} then ready_states s else ready_states s - {?st})"
    using st_ready by (auto simp: s1_def ready_states_set_queue)
  have run: "JobsDropped ch x s =
      (if enabled q \<and> g = x
       then do {
         sq \<leftarrow> force_pop_heap (StateOrdering ch (state_queues s1)) ?st (state_queue s1);
         assert_that (heap_count ?st sq = 0);
         Some (if heap_empty h1 then s1\<lparr>state_queue := sq\<rparr>
               else s1\<lparr>state_queue := push_heap (StateOrdering ch (state_queues s1)) ?st sq\<rparr>)
       } else Some s1)"
    using nonempty xin heap_count_1 [OF q(3) xin]
    by (simp add: JobsDropped_def Let_def obj q(2) g(1) h1(1) s1_def [symmetric] cong: if_cong
        del: set_queue_simps)
  show ?thesis
  proof (cases "enabled q \<and> g = x")
    case True
    then have ready: "?st \<in> ready_states s" using st_ready by simp
    obtain sq where sq: "force_pop_heap (StateOrdering ch (state_queues s1)) ?st (state_queue s) = Some sq"
      "heap_set sq = ready_states s - {?st}"
      "queue_inv (state_key ch (state_queues s1)) sq"
      "queue_inv (state_key ch (state_queues s1)) (push_heap (StateOrdering ch (state_queues s1)) ?st sq)"
      "heap_set (push_heap (StateOrdering ch (state_queues s1)) ?st sq) = ready_states s"
      using states_rekey [OF inv upd refl ready, of "q\<lparr>channel_heap := h1\<rparr>"] unfolding s1_def by metis
    define s2 where "s2 = (if heap_empty h1 then s1\<lparr>state_queue := sq\<rparr>
        else s1\<lparr>state_queue := push_heap (StateOrdering ch (state_queues s1)) ?st sq\<rparr>)"
    have "JobsDropped ch x s = Some s2"
      using True sq(1,2) sq1 by (simp add: run s2_def del: heap_empty_iff)
    moreover have "states_inv ch s2"
    proof (cases "heap_set h1 = {}")
      case True
      with ready1 have "ready_states s1 = ready_states s - {?st}" by simp
      with True sq show ?thesis by (simp add: s2_def states_invI)
    next
      case False
      with ready1 True have "ready_states s1 = ready_states s" by simp
      with False sq show ?thesis by (simp add: s2_def states_invI)
    qed
    moreover have "heaps_inv ch s2" "same_config s s2" "effects s2 = effects s" "ready_states s2 = ready_states s1"
      using hs1 sc eff by (simp_all add: s2_def)
    moreover have "ready_states s1 \<subseteq> ready_states s" unfolding ready1 by auto
    ultimately show ?thesis by (simp add: sched_inv_def announced_def)
  next
    case False
    have same: "ready_states s1 = ready_states s"
    proof (cases "enabled q")
      case True
      with False have "g \<in> heap_set h1" using g(2) h1(3) by blast
      with True ready1 show ?thesis by auto
    next
      case False
      with st_ready ready1 show ?thesis by auto
    qed
    have "states_inv ch s1"
      unfolding s1_def
    proof (rule states_keep [OF inv upd])
      assume "?st \<in> ready_states s"
      with False st_ready have en: "enabled q" "g \<noteq> x" by simp_all
      then have gin: "g \<in> heap_set h1" using g(2) h1(3) by blast
      then have "heap_set h1 \<noteq> {}" by blast
      from hq.front_ex [OF this] obtain f where f: "heap_front h1 = Some f" ..
      have "channel_key ch f = channel_key ch g"
        using h1(2) f gin
      proof (rule hq.front_key_unique)
        fix z assume "z \<in> heap_set h1"
        with h1(3) have "z \<in> heap_set (channel_heap q)" "z \<noteq> x" by simp_all
        with g(3) [of z] keys [of z] keys [of g] en show "channel_key ch g \<le> channel_key ch z" by simp
      qed
      then show "state_key ch (state_queues (set_queue ?st (q\<lparr>channel_heap := h1\<rparr>) s)) ?st =
          state_key ch0 (state_queues s) ?st"
        using f g(1) q(1) keys en by (simp add: state_key_def)
    qed (use same in \<open>simp add: s1_def\<close>)
    moreover have "JobsDropped ch x s = Some s1" by (simp only: run if_not_P [OF False])
    ultimately show ?thesis using hs1 sc same eff by (simp add: sched_inv_def announced_def)
  qed
qed

text \<open>A change of a channel that no heap can see needs no notification.\<close>

lemma sched_inv_unseen:
  assumes inv: "sched_inv ch0 s" and upd: "updated ch0 x ch"
    and job: "has_job ch x = has_job ch0 x" and key: "has_job ch x \<Longrightarrow> channel_key ch x = channel_key ch0 x"
  shows "sched_inv ch s"
proof -
  have keys: "channel_key ch y = channel_key ch0 y" if "has_job ch0 y" for y
    using that key job upd by (cases "y = x") (auto simp: channel_key_updated)
  have hj: "has_job ch y = has_job ch0 y" for y
    using job has_job_updated [OF upd] by (cases "y = x") simp_all
  have js: "jobs_of ch s st = jobs_of ch0 s st" for st
    by (simp add: jobs_of_def object_updated [OF upd] hj)
  have jobs: "has_job ch0 y" if "state_queues s st = Some q" "y \<in> heap_set (channel_heap q)" for st q y
    using that inv by (auto simp: sched_inv_def heaps_inv_def jobs_of_def)
  have hi: "heaps_inv ch s"
    unfolding heaps_inv_def
  proof (intro conjI allI impI ballI)
    fix st q assume q: "state_queues s st = Some q"
    with inv have old: "queue_inv (channel_key ch0) (channel_heap q)" "heap_set (channel_heap q) = jobs_of ch0 s st"
      by (simp_all add: sched_inv_def heaps_inv_def)
    show "queue_inv (channel_key ch) (channel_heap q)"
      using old(1)
    proof (rule hq.cong)
      fix y assume "y \<in> heap_set (channel_heap q)"
      with q have "has_job ch0 y" by (rule jobs)
      then show "channel_key ch y = channel_key ch0 y" by (rule keys)
    qed
    show "heap_set (channel_heap q) = jobs_of ch s st" using old(2) js by simp
  next
    fix y assume "y \<in> set (channels s)"
    with inv have "single_thread_object (ch0 y) \<in> dom (state_queues s)" by (simp add: sched_inv_def heaps_inv_def)
    with upd show "single_thread_object (ch y) \<in> dom (state_queues s)" by (simp add: object_updated)
  qed
  have "state_key ch (state_queues s) st = state_key ch0 (state_queues s) st" for st
  proof (cases "state_queues s st")
    case (Some q)
    show ?thesis
    proof (cases "heap_front (channel_heap q)")
      case (Some y)
      have "queue_inv (channel_key ch0) (channel_heap q)"
        using inv \<open>state_queues s st = Some q\<close> by (simp add: sched_inv_def heaps_inv_def)
      from hq.front_min [OF this Some] have "y \<in> heap_set (channel_heap q)" ..
      from keys [OF jobs [OF \<open>state_queues s st = Some q\<close> this]] \<open>state_queues s st = Some q\<close> Some
      show ?thesis by (simp add: state_key_def)
    qed (use Some in \<open>simp add: state_key_def del: heap_front_None_iff\<close>)
  qed (simp add: state_key_def)
  then have sk: "state_key ch (state_queues s) = state_key ch0 (state_queues s)" by (rule ext)
  with hi inv show ?thesis by (simp add: sched_inv_def states_inv_def)
qed

end
