(* ===== verification/Channel_Impl.thy ===== *)
theory Channel_Impl
  imports Scheduler_Inv
begin

text \<open>
  The operations of \<^verbatim>\<open>src/ChannelImpl.cpp\<close> that change a job queue, over the whole pipeline: the
  store of channels and the scheduler. A scheduled channel's queue is only touched under the
  scheduler's global mutex, so Push, GetNext and PopNext are each one atomic step; Acquire consists of
  several, in the order the code has them.

  A reading of the clock is an argument; PopNext reads it only when it is not dropping.
\<close>

record pipeline =
  chan :: channel_store
  sched :: scheduler

definition set_channel :: "addr \<Rightarrow> channel \<Rightarrow> pipeline \<Rightarrow> pipeline" where
  "set_channel x c w = w\<lparr>chan := (chan w)(x := c)\<rparr>"

subsection \<open>Operations\<close>

definition ChannelImpl_new ::
  "cptr \<Rightarrow> nat \<Rightarrow> nat \<Rightarrow> addr \<Rightarrow> bool \<Rightarrow> addr \<Rightarrow> addr \<Rightarrow> addr \<Rightarrow> pipeline \<Rightarrow> pipeline option" where
  "ChannelImpl_new name cap psize obj cb base pd x w = do {
     c \<leftarrow> channel_new name cap psize obj cb base;
     (ch, s) \<leftarrow> RegisterChannel pd x ((chan w)(x := c)) (sched w);
     Some \<lparr>chan = ch, sched = s\<rparr>
   }"

definition ChannelImpl_destroy :: "addr \<Rightarrow> pipeline \<Rightarrow> pipeline option" where
  "ChannelImpl_destroy x w = do {
     (ch, s) \<leftarrow> UnregisterChannel x (chan w) (sched w);
     assert_that (pool (ch x) \<noteq> nullptr);
     Some \<lparr>chan = ch(x := (ch x)\<lparr>pool := nullptr\<rparr>), sched = s\<rparr>
   }"

definition Push :: "time \<Rightarrow> addr \<Rightarrow> addr \<Rightarrow> pipeline \<Rightarrow> pipeline option" where
  "Push t x p w = do {
     let c0 = chan w x;
     assert_that (t - packet_time c0 p \<ge> 0);
     assert_that (t - op_time c0 p \<ge> 0);
     let c1 = Log (log_event EventFillTime (of_int (t - op_time c0 p)))
                (Log (log_event EventPushed (of_int (t - packet_time c0 p))) c0);
     assert_that (heap_size (queued_packets c1) < channel_capacity c1);
     earliest \<leftarrow> (if heap_empty (queued_packets c1) then Some kMaxTime else PeekNext c1);
     let c2 = c1\<lparr>queued_packets := push_heap (PacketOrdering c1) p (queued_packets c1)\<rparr>;
     let w1 = set_channel x c2 w;
     now_first \<leftarrow> PeekNext c2;
     if IsScheduled c2 \<and> now_first < earliest
     then do {
       s \<leftarrow> (if earliest = kMaxTime then JobsArrived (chan w1) x (sched w1)
             else JobsUpdated (chan w1) x True (sched w1));
       Some (w1\<lparr>sched := s\<rparr>)
     }
     else Some w1
   }"

definition PopNext :: "time \<Rightarrow> addr \<Rightarrow> bool \<Rightarrow> pipeline \<Rightarrow> (addr \<times> pipeline) option" where
  "PopNext t x dropping w = do {
     let c0 = chan w x;
     assert_that (heap_size (queued_packets c0) \<le> channel_capacity c0);
     assert_that (\<not> heap_empty (queued_packets c0));
     earliest \<leftarrow> heap_front (queued_packets c0);
     q \<leftarrow> pop_heap (PacketOrdering c0) (queued_packets c0);
     let c1 = c0\<lparr>queued_packets := q\<rparr>;
     let w1 = set_channel x c1 w;
     s \<leftarrow> (if IsScheduled c1
           then if heap_empty q then JobsDropped (chan w1) x (sched w1)
                else if heap_front q \<noteq> Some earliest then JobsUpdated (chan w1) x False (sched w1)
                else Some (sched w1)
           else Some (sched w1));
     let w2 = w1\<lparr>sched := s\<rparr>;
     if \<not> dropping
     then do {
       assert_that (t - packet_time c1 earliest \<ge> 0);
       Some (earliest,
             set_channel x (Log (log_event EventRetrieved (of_int (t - packet_time c1 earliest)))
                              (stamp_operation t earliest c1)) w2)
     }
     else Some (earliest, w2)
   }"

definition GetNext :: "time \<Rightarrow> addr \<Rightarrow> bool \<Rightarrow> pipeline \<Rightarrow> (addr option \<times> pipeline) option" where
  "GetNext t x dropping w =
     (if \<not> heap_empty (queued_packets (chan w x))
      then do { (p, w1) \<leftarrow> PopNext t x dropping w; Some (Some p, w1) }
      else Some (None, w))"

definition ReleaseAt :: "time \<Rightarrow> addr \<Rightarrow> addr \<Rightarrow> bool \<Rightarrow> pipeline \<Rightarrow> pipeline option" where
  "ReleaseAt t x p dropping w = do {
     c \<leftarrow> Release t p dropping (chan w x);
     Some (set_channel x c w)
   }"

definition TryDroppingPacket :: "addr \<Rightarrow> pipeline \<Rightarrow> (bool \<times> pipeline) option" where
  "TryDroppingPacket x w = do {
     (packet, w1) \<leftarrow> GetNext 0 x True w;
     (case packet of
        Some p \<Rightarrow> do {
          w2 \<leftarrow> ReleaseAt 0 x p True w1;
          Some (True, set_channel x (Log (log_event EventDroppedPacket 1) (chan w2 x)) w2)
        }
      | None \<Rightarrow> Some (False, w1))
   }"

text \<open>
  Acquire's loop \<^verbatim>\<open>for (i = 0; !packet && i < 2 && (i == 0 || TryDroppingPacket()); i++)\<close>.
\<close>

function acquire_loop :: "nat \<Rightarrow> addr \<Rightarrow> addr option \<Rightarrow> pipeline \<Rightarrow> (addr option \<times> pipeline) option" where
  "acquire_loop i x packet w =
     (if packet = None \<and> i < 2
      then do {
        (go, w1) \<leftarrow> (if i = 0 then Some (True, w) else TryDroppingPacket x w);
        if go
        then (case take_free (chan w1 x) of
                (packet', c) \<Rightarrow> acquire_loop (Suc i) x packet' (set_channel x c w1))
        else Some (packet, w1)
      }
      else Some (packet, w))"
  by pat_completeness auto
termination
  by (relation "measure (\<lambda>(i, x, packet, w). 2 - i)") auto

declare acquire_loop.simps [simp del]

definition Acquire :: "time \<Rightarrow> addr \<Rightarrow> pipeline \<Rightarrow> (addr option \<times> pipeline) option" where
  "Acquire t x w = do {
     (packet, w1) \<leftarrow> acquire_loop 0 x None w;
     (case packet of
        Some p \<Rightarrow> do {
          assert_that (in_pool (chan w1 x) p);
          Some (Some p, set_channel x (stamp_operation t p (chan w1 x)) w1)
        }
      | None \<Rightarrow> Some (None, w1))
   }"

text \<open>The callback is the user's: an argument that may do anything to the pipeline.\<close>

definition Execute ::
  "(addr \<Rightarrow> addr \<Rightarrow> pipeline \<Rightarrow> pipeline option) \<Rightarrow> time \<Rightarrow> time \<Rightarrow> addr \<Rightarrow> addr \<Rightarrow> pipeline \<Rightarrow> pipeline option" where
  "Execute callback t1 t2 x p w = do {
     assert_that (channel_base (chan w x) \<noteq> nullptr);
     assert_that (p \<noteq> nullptr);
     w1 \<leftarrow> callback (channel_base (chan w x)) p w;
     Some (set_channel x (Log (log_event EventExecuteTime (of_int (t2 - t1))) (chan w1 x)) w1)
   }"

subsection \<open>Frames\<close>

definition same_static :: "channel \<Rightarrow> channel \<Rightarrow> bool" where
  "same_static c c' \<longleftrightarrow>
     single_thread_object c = single_thread_object c' \<and> has_callback c = has_callback c' \<and> pool c = pool c' \<and>
     channel_name c = channel_name c' \<and> channel_capacity c = channel_capacity c' \<and>
     packet_size c = packet_size c' \<and> channel_base c = channel_base c' \<and> profile_data c = profile_data c'"

lemma same_staticD:
  assumes "same_static c c'"
  shows "single_thread_object c = single_thread_object c'" "has_callback c = has_callback c'"
    "slots c = slots c'" "in_pool c = in_pool c'" "IsScheduled c = IsScheduled c'"
    "channel_capacity c = channel_capacity c'" "packet_size c = packet_size c'"
  using assms by (auto simp: same_static_def slots_def in_pool_def IsScheduled_def fun_eq_iff)

lemma same_static_refl [simp]: "same_static c c"
  by (simp add: same_static_def)

lemma same_static_trans: "same_static c c' \<Longrightarrow> same_static c' c'' \<Longrightarrow> same_static c c''"
  by (simp add: same_static_def)

lemma Log_frame [simp, pipert_frame]:
  "free_packets (Log e c) = free_packets c" "queued_packets (Log e c) = queued_packets c"
  "packet_time (Log e c) = packet_time c" "op_time (Log e c) = op_time c"
  "has_callback (Log e c) = has_callback c" "single_thread_object (Log e c) = single_thread_object c"
  "channel_capacity (Log e c) = channel_capacity c" "packet_size (Log e c) = packet_size c"
  "pool (Log e c) = pool c" "same_static (Log e c) c" "slots (Log e c) = slots c"
  "queued_set (Log e c) = queued_set c" "PeekNext (Log e c) = PeekNext c"
  by (simp_all add: Log_def same_static_def slots_def queued_set_def PeekNext_def)

lemma stamp_frame [simp, pipert_frame]:
  "free_packets (stamp_operation t p c) = free_packets c"
  "queued_packets (stamp_operation t p c) = queued_packets c"
  "packet_time (stamp_operation t p c) = packet_time c" "same_static (stamp_operation t p c) c"
  "has_callback (stamp_operation t p c) = has_callback c"
  "single_thread_object (stamp_operation t p c) = single_thread_object c"
  "slots (stamp_operation t p c) = slots c" "queued_set (stamp_operation t p c) = queued_set c"
  "PeekNext (stamp_operation t p c) = PeekNext c"
  by (simp_all add: stamp_operation_def same_static_def slots_def queued_set_def PeekNext_def)

lemma channel_inv_Log [simp]: "channel_inv (Log e c) = channel_inv c"
  by (simp add: channel_inv_def)

lemma channel_inv_stamp [simp]: "channel_inv (stamp_operation t p c) = channel_inv c"
  by (simp add: channel_inv_def) (simp add: stamp_operation_def)

lemma set_channel_simps [simp]:
  "chan (set_channel x c w) = (chan w)(x := c)" "sched (set_channel x c w) = sched w"
  by (simp_all add: set_channel_def)

subsection \<open>The pipeline's invariant\<close>

definition pipeline_inv :: "pipeline \<Rightarrow> bool" where
  "pipeline_inv w \<longleftrightarrow>
     sched_inv (chan w) (sched w) \<and> distinct (channels (sched w)) \<and>
     (\<forall>x\<in>set (channels (sched w)). channel_inv (chan w x))"

text \<open>A packet of the pool that is neither free nor queued: somebody holds a stub of it.\<close>

definition in_transit :: "pipeline \<Rightarrow> addr \<Rightarrow> addr \<Rightarrow> bool" where
  "in_transit w x p \<longleftrightarrow>
     p \<in> slots (chan w x) \<and> p \<notin> set (free_packets (chan w x)) \<and> p \<notin> queued_set (chan w x)"

lemma pipeline_inv_times: "pipeline_inv w \<Longrightarrow> times_ok (chan w) (sched w)"
  by (auto simp: pipeline_inv_def times_ok_def dest: has_job_peek PeekNext_bound)

text \<open>A change of one channel that keeps its queue and its static fields.\<close>

lemma pipeline_inv_set_channel:
  assumes inv: "pipeline_inv w"
    and c: "channel_inv c" "same_static c (chan w x)" "PeekNext c = PeekNext (chan w x)"
  shows "pipeline_inv (set_channel x c w)"
proof -
  have u: "updated (chan w) x ((chan w)(x := c))"
    using same_staticD [OF c(2)] by (intro updated_fun_upd) simp_all
  have q: "queued_set c = {} \<longleftrightarrow> queued_set (chan w x) = {}" using c(3) PeekNext_None_iff by metis
  have "sched_inv ((chan w)(x := c)) (sched w)"
  proof (rule sched_inv_unseen [OF _ u])
    show "sched_inv (chan w) (sched w)" using inv by (simp add: pipeline_inv_def)
    show "has_job ((chan w)(x := c)) x = has_job (chan w) x"
      using q same_staticD(2) [OF c(2)] by (simp add: has_job_def)
    show "channel_key ((chan w)(x := c)) x = channel_key (chan w) x" using c(3) by (simp add: channel_key_def)
  qed
  with inv c(1) show ?thesis by (simp add: pipeline_inv_def)
qed

subsection \<open>Push\<close>

lemma IsScheduled_upd [simp]:
  "IsScheduled (c\<lparr>queued_packets := q\<rparr>) = has_callback c" "IsScheduled (Log e c) = has_callback c"
  by (simp_all add: IsScheduled_def Log_def)

lemma PeekNext_push:
  assumes "queue_inv (packet_time c) (queued_packets c)" and "p \<notin> queued_set c"
    and "c2 = c\<lparr>queued_packets := push_heap (PacketOrdering c) p (queued_packets c)\<rparr>"
  shows "queue_inv (packet_time c2) (queued_packets c2)"
    and "queued_set c2 = insert p (queued_set c)"
    and "PeekNext c2 = Some (case PeekNext c of None \<Rightarrow> packet_time c p | Some t \<Rightarrow> min t (packet_time c p))"
proof -
  show q: "queue_inv (packet_time c2) (queued_packets c2)"
    using assms hq.invar_push by (simp add: PacketOrdering_def queued_set_def)
  show s: "queued_set c2 = insert p (queued_set c)" using assms(3) by (simp add: queued_set_def)
  then obtain f where f: "heap_front (queued_packets c2) = Some f"
    using hq.front_ex [of "queued_packets c2"] by (auto simp: queued_set_def)
  from hq.front_min [OF q f] s assms(3)
  have f2: "f \<in> insert p (queued_set c)" "\<And>y. y \<in> insert p (queued_set c) \<Longrightarrow> packet_time c f \<le> packet_time c y"
    by (auto simp: queued_set_def)
  have "PeekNext c2 = Some (packet_time c f)" using PeekNext_front [OF f] assms(3) by simp
  moreover have "packet_time c f = (case PeekNext c of None \<Rightarrow> packet_time c p | Some t \<Rightarrow> min t (packet_time c p))"
  proof (cases "PeekNext c")
    case None
    then have "queued_set c = {}" by simp
    with f2(1) None show ?thesis by (simp del: PeekNext_None_iff)
  next
    case (Some t)
    then obtain g where g: "heap_front (queued_packets c) = Some g" "t = packet_time c g" by (rule PeekNext_SomeD)
    from hq.front_min [OF assms(1) g(1)]
    have "g \<in> queued_set c" "\<And>y. y \<in> queued_set c \<Longrightarrow> packet_time c g \<le> packet_time c y"
      by (auto simp: queued_set_def)
    with f2(2) [of g] f2(2) [of p] f2(1) Some g(2) show ?thesis by fastforce
  qed
  ultimately show "PeekNext c2 = Some (case PeekNext c of None \<Rightarrow> packet_time c p | Some t \<Rightarrow> min t (packet_time c p))"
    by simp
qed

lemma queued_below_capacity:
  assumes "channel_inv c" and "p \<in> slots c" and "p \<notin> queued_set c"
  shows "heap_size (queued_packets c) < channel_capacity c"
proof -
  have q: "queue_inv (packet_time c) (queued_packets c)" and sub: "queued_set c \<subseteq> slots c"
    and ps: "0 < packet_size c" using assms(1) by (simp_all add: channel_inv_def)
  have "queued_set c \<subset> slots c" using sub assms(2,3) by blast
  then have "card (queued_set c) < card (slots c)" by (intro psubset_card_mono) simp_all
  then show ?thesis using heap_size_card [OF q] card_slots [OF ps] by (simp add: queued_set_def)
qed

lemma free_below_capacity:
  assumes "channel_inv c" and "p \<in> slots c" and "p \<notin> set (free_packets c)"
  shows "length (free_packets c) < channel_capacity c"
proof -
  have "distinct (free_packets c)" and sub: "set (free_packets c) \<subseteq> slots c" and ps: "0 < packet_size c"
    using assms(1) by (simp_all add: channel_inv_def)
  have "set (free_packets c) \<subset> slots c" using sub assms(2,3) by blast
  then have "card (set (free_packets c)) < card (slots c)" by (intro psubset_card_mono) simp_all
  then show ?thesis using card_slots [OF ps] \<open>distinct (free_packets c)\<close> by (simp add: distinct_card)
qed

lemma channel_inv_enqueue:
  assumes inv: "channel_inv c" and p: "p \<in> slots c" "p \<notin> queued_set c" "p \<notin> set (free_packets c)"
    and t: "packet_time c p < kMaxTime"
    and c2: "c2 = c\<lparr>queued_packets := push_heap (PacketOrdering c) p (queued_packets c)\<rparr>"
  shows "channel_inv c2"
proof -
  have q: "queue_inv (packet_time c) (queued_packets c)" using inv by (simp add: channel_inv_def)
  have "heap_size (queued_packets c) < heap_capacity (queued_packets c)"
    using queued_below_capacity [OF inv p(1,2)] inv by (simp add: channel_inv_def)
  then have "heap_capacity (queued_packets c2) = heap_capacity (queued_packets c)" using c2 by simp
  moreover have "slots c2 = slots c" "free_packets c2 = free_packets c" "packet_time c2 = packet_time c"
    "packet_size c2 = packet_size c" "channel_capacity c2 = channel_capacity c" "pool c2 = pool c"
    using c2 by (simp_all add: slots_def)
  ultimately show ?thesis
    using PeekNext_push(1,2) [OF q p(2) c2] inv p t by (auto simp: channel_inv_def)
qed

text \<open>
  The heart of Push, PopNext and their callers: replacing a channel's queue by one whose packets are
  all in the pool, with the notification that fits, gives a pipeline in order again.
\<close>

lemma pipeline_inv_notified:
  assumes "sched_inv ((chan w)(x := c)) s'" "same_config (sched w) s'" "pipeline_inv w" "channel_inv c"
  shows "pipeline_inv ((set_channel x c w)\<lparr>sched := s'\<rparr>)"
  using assms by (simp add: pipeline_inv_def same_config_def)

lemma Push_ok:
  assumes inv: "pipeline_inv w" and x: "x \<in> set (channels (sched w))" and p: "in_transit w x p"
    and t: "packet_time (chan w x) p \<le> t" "op_time (chan w x) p \<le> t" "t < kMaxTime"
  shows "\<exists>w'. Push t x p w = Some w' \<and> pipeline_inv w' \<and> same_config (sched w) (sched w') \<and>
    announced (sched w) (sched w') \<and> (\<forall>y. y \<noteq> x \<longrightarrow> chan w' y = chan w y) \<and>
    same_static (chan w' x) (chan w x) \<and> free_packets (chan w' x) = free_packets (chan w x) \<and>
    queued_set (chan w' x) = insert p (queued_set (chan w x)) \<and>
    packet_time (chan w' x) = packet_time (chan w x) \<and> op_time (chan w' x) = op_time (chan w x)"
proof -
  let ?c0 = "chan w x"
  define c1 where "c1 = Log (log_event EventFillTime (of_int (t - op_time ?c0 p)))
    (Log (log_event EventPushed (of_int (t - packet_time ?c0 p))) ?c0)"
  define c2 where "c2 = c1\<lparr>queued_packets := push_heap (PacketOrdering c1) p (queued_packets c1)\<rparr>"
  have ci: "channel_inv c1" using inv x by (simp add: pipeline_inv_def c1_def)
  have c1f: "queued_set c1 = queued_set ?c0" "slots c1 = slots ?c0" "free_packets c1 = free_packets ?c0"
    "packet_time c1 = packet_time ?c0" "op_time c1 = op_time ?c0" "PeekNext c1 = PeekNext ?c0"
    by (simp_all add: c1_def)
  have st1: "same_static c1 ?c0" unfolding c1_def by (meson Log_frame same_static_trans)
  have p1: "p \<in> slots c1" "p \<notin> queued_set c1" "p \<notin> set (free_packets c1)"
    using p by (simp_all add: in_transit_def c1f)
  have q1: "queue_inv (packet_time c1) (queued_packets c1)" using ci by (simp add: channel_inv_def)
  have pk: "packet_time c1 p < kMaxTime" using t by (simp add: c1f)
  note pushed = PeekNext_push [OF q1 p1(2) c2_def]
  have c2i: "channel_inv c2" using ci p1 pk c2_def by (rule channel_inv_enqueue)
  have st2: "same_static c2 ?c0" using st1 by (simp add: c2_def same_static_def)
  let ?w1 = "set_channel x c2 w"
  have u: "updated (chan w) x (chan ?w1)" using same_staticD [OF st2] by (simp add: updated_def)
  define now_first where
    "now_first = (case PeekNext ?c0 of None \<Rightarrow> packet_time ?c0 p | Some t \<Rightarrow> min t (packet_time ?c0 p))"
  define earliest where "earliest = (case PeekNext ?c0 of None \<Rightarrow> kMaxTime | Some t \<Rightarrow> t)"
  have peek2: "PeekNext c2 = Some now_first" using pushed(3) unfolding now_first_def c1f(4,6) .
  have e_ok: "(if heap_empty (queued_packets c1) then Some kMaxTime else PeekNext c1) = Some earliest"
  proof (cases "PeekNext ?c0")
    case None
    then have "queued_set c1 = {}" using c1f(1) by simp
    with None show ?thesis by (simp add: earliest_def queued_set_def del: PeekNext_None_iff)
  next
    case (Some e)
    then have "queued_set c1 \<noteq> {}" using c1f(6) PeekNext_None_iff [of c1] by simp
    with Some show ?thesis using c1f(6) by (simp add: earliest_def queued_set_def)
  qed
  have size1: "heap_size (queued_packets c1) < channel_capacity c1"
    using ci p1(1,2) by (rule queued_below_capacity)
  have sch: "has_callback c1 = has_callback ?c0" using same_staticD(2) [OF st1] .
  have sch2: "IsScheduled c2 = has_callback ?c0" by (simp add: c2_def sch)
  have run: "Push t x p w =
      (if has_callback ?c0 \<and> now_first < earliest
       then do {
         s \<leftarrow> (if earliest = kMaxTime then JobsArrived (chan ?w1) x (sched w)
               else JobsUpdated (chan ?w1) x True (sched w));
         Some (?w1\<lparr>sched := s\<rparr>)
       } else Some ?w1)"
    unfolding Push_def Let_def c1_def [symmetric] c2_def [symmetric]
    using t size1 sch2 by (simp add: peek2 e_ok del: heap_empty_iff)
  have job: "has_job (chan ?w1) x \<longleftrightarrow> has_callback ?c0"
    using pushed(2) same_staticD(2) [OF st2] by (simp add: has_job_def)
  have job0: "has_job (chan w) x \<longleftrightarrow> has_callback ?c0 \<and> PeekNext ?c0 \<noteq> None" by (simp add: has_job_def)
  have si: "sched_inv (chan w) (sched w)" using inv by (simp add: pipeline_inv_def)
  have frame: "(\<forall>y. y \<noteq> x \<longrightarrow> (chan ?w1) y = chan w y) \<and> same_static (chan ?w1 x) ?c0 \<and>
      free_packets (chan ?w1 x) = free_packets ?c0 \<and> queued_set (chan ?w1 x) = insert p (queued_set ?c0) \<and>
      packet_time (chan ?w1 x) = packet_time ?c0 \<and> op_time (chan ?w1 x) = op_time ?c0"
    using st2 pushed(2) c1f by (simp add: c2_def)
  show ?thesis
  proof (cases "has_callback ?c0 \<and> now_first < earliest")
    case True
    have ex: "\<exists>s'. (if earliest = kMaxTime then JobsArrived (chan ?w1) x (sched w)
                 else JobsUpdated (chan ?w1) x True (sched w)) = Some s' \<and>
        sched_inv (chan ?w1) s' \<and> same_config (sched w) s' \<and> announced (sched w) s'"
    proof (cases "PeekNext ?c0")
      case None
      have "times_ok (chan ?w1) (sched w)"
        using pipeline_inv_times [OF inv] pk peek2 None u
        by (auto simp: times_ok_def has_job_updated channel_key_updated channel_key_def now_first_def c1f
            updated_def has_job_def)
      moreover have "earliest = kMaxTime" using None by (simp add: earliest_def del: PeekNext_None_iff)
      ultimately show ?thesis
        using JobsArrived_ok [OF si u x] True None job job0 by simp
    next
      case (Some e)
      have "channel_inv ?c0" using inv x by (simp add: pipeline_inv_def)
      then have "e < kMaxTime" using Some by (rule PeekNext_bound)
      then have "earliest \<noteq> kMaxTime" using Some by (simp add: earliest_def)
      then show ?thesis using JobsUpdated_ok [OF si u x] True Some job job0 by simp
    qed
    then obtain s' where s': "(if earliest = kMaxTime then JobsArrived (chan ?w1) x (sched w)
                 else JobsUpdated (chan ?w1) x True (sched w)) = Some s'"
      "sched_inv (chan ?w1) s'" "same_config (sched w) s'" "announced (sched w) s'" by blast
    have "Push t x p w = Some (?w1\<lparr>sched := s'\<rparr>)" using True s'(1) by (simp add: run)
    moreover have "pipeline_inv (?w1\<lparr>sched := s'\<rparr>)"
      using s' inv c2i by (intro pipeline_inv_notified) simp_all
    ultimately show ?thesis using s' frame by simp
  next
    case False
    then have res: "Push t x p w = Some ?w1" by (simp only: run if_False)
    have "sched_inv (chan ?w1) (sched w)"
    proof (cases "has_callback ?c0")
      case True
      with False pk obtain e where e: "PeekNext ?c0 = Some e" "e \<le> packet_time ?c0 p"
        by (cases "PeekNext ?c0") (auto simp: now_first_def earliest_def c1f)
      then have nf: "now_first = e" by (simp add: now_first_def)
      show ?thesis
        by (rule sched_inv_unseen [OF si u]) (use True job job0 e nf peek2 in \<open>simp_all add: channel_key_def\<close>)
    next
      case False
      then show ?thesis
        by (intro sched_inv_unseen [OF si u]) (use job job0 in simp_all)
    qed
    then have "pipeline_inv ?w1" using inv c2i by (simp add: pipeline_inv_def)
    with res frame show ?thesis by (simp add: announced_def)
  qed
qed

end
