(* ===== verification/Channel_Ops.thy ===== *)
theory Channel_Ops
  imports Channel_Impl
begin

text \<open>
  What PopNext, GetNext, Release, the dropping policy and Acquire do in a pipeline in order: none of
  them fails an assertion, each keeps the invariant, and each moves exactly the packets it should.
\<close>

subsection \<open>PopNext\<close>

lemma PopNext_ok:
  assumes inv: "pipeline_inv w" and x: "x \<in> set (channels (sched w))" and ne: "queued_set (chan w x) \<noteq> {}"
    and t: "dropping \<or> (\<forall>y\<in>queued_set (chan w x). packet_time (chan w x) y \<le> t)"
  shows "\<exists>p w'. PopNext t x dropping w = Some (p, w') \<and> heap_front (queued_packets (chan w x)) = Some p \<and>
    pipeline_inv w' \<and> same_config (sched w) (sched w') \<and> announced (sched w) (sched w') \<and>
    (\<forall>y. y \<noteq> x \<longrightarrow> chan w' y = chan w y) \<and> same_static (chan w' x) (chan w x) \<and>
    free_packets (chan w' x) = free_packets (chan w x) \<and>
    queued_set (chan w' x) = queued_set (chan w x) - {p} \<and>
    packet_time (chan w' x) = packet_time (chan w x) \<and>
    (\<forall>y. y \<noteq> p \<longrightarrow> op_time (chan w' x) y = op_time (chan w x) y) \<and>
    (if dropping then op_time (chan w' x) p = op_time (chan w x) p else op_time (chan w' x) p = t)"
proof -
  let ?c0 = "chan w x"
  have ci: "channel_inv ?c0" using inv x by (simp add: pipeline_inv_def)
  then have qi: "queue_inv (packet_time ?c0) (queued_packets ?c0)" by (simp add: channel_inv_def)
  from ne have "heap_set (queued_packets ?c0) \<noteq> {}" by (simp add: queued_set_def)
  from hq.front_ex [OF this] obtain p where p: "heap_front (queued_packets ?c0) = Some p" ..
  from hq.front_min [OF qi p] have pin: "p \<in> queued_set ?c0" by (simp add: queued_set_def)
  from queue_pop [OF qi p] obtain q where q: "pop_heap (PacketOrdering ?c0) (queued_packets ?c0) = Some q"
    "queue_inv (packet_time ?c0) q" "heap_set q = queued_set ?c0 - {p}"
    "heap_capacity q = heap_capacity (queued_packets ?c0)"
    by (auto simp: PacketOrdering_def queued_set_def)
  define c1 where "c1 = ?c0\<lparr>queued_packets := q\<rparr>"
  let ?w1 = "set_channel x c1 w"
  have st1: "same_static c1 ?c0" by (simp add: c1_def same_static_def)
  have u: "updated (chan w) x (chan ?w1)" using same_staticD [OF st1] by (simp add: updated_def)
  have qs1: "queued_set c1 = queued_set ?c0 - {p}" using q(3) by (simp add: c1_def queued_set_def)
  have slots1: "slots c1 = slots ?c0" by (simp add: c1_def slots_def)
  have ci1: "channel_inv c1"
    using ci q(2,4) qs1 slots1 by (auto simp: channel_inv_def c1_def)
  have "heap_size (queued_packets ?c0) \<le> channel_capacity ?c0"
    using heap_size_card [OF qi] card_mono [of "slots ?c0" "queued_set ?c0"] card_slots [of ?c0] ci
    by (simp add: channel_inv_def queued_set_def)
  note size = this
  have si: "sched_inv (chan w) (sched w)" using inv by (simp add: pipeline_inv_def)
  have job0: "has_job (chan w) x \<longleftrightarrow> has_callback ?c0" using ne by (simp add: has_job_def)
  have job1: "has_job (chan ?w1) x \<longleftrightarrow> has_callback ?c0 \<and> heap_set q \<noteq> {}"
    using qs1 q(3) same_staticD(2) [OF st1] by (simp add: has_job_def)
  have fq: "heap_front q \<noteq> Some p" if "heap_set q \<noteq> {}"
    using hq.front_min [OF q(2), of p] q(3) by auto
  let ?notify = "if IsScheduled c1
           then if heap_empty q then JobsDropped (chan ?w1) x (sched ?w1)
                else if heap_front q \<noteq> Some p then JobsUpdated (chan ?w1) x False (sched ?w1)
                else Some (sched ?w1)
           else Some (sched ?w1)"
  have sc1: "IsScheduled c1 = has_callback ?c0" by (simp add: c1_def)
  have "\<exists>s'. ?notify = Some s' \<and> sched_inv (chan ?w1) s' \<and> same_config (sched w) s' \<and> announced (sched w) s'"
  proof (cases "has_callback ?c0")
    case False
    then have "sched_inv (chan ?w1) (sched w)"
      by (intro sched_inv_unseen [OF si u]) (use job0 job1 in simp_all)
    with False sc1 show ?thesis by (simp add: announced_def)
  next
    case cb: True
    show ?thesis
    proof (cases "heap_set q = {}")
      case True
      then show ?thesis using JobsDropped_ok [OF si u x] cb job0 job1 sc1 by simp
    next
      case False
      then show ?thesis using JobsUpdated_ok [OF si u x, of False] cb job0 job1 sc1 fq by simp
    qed
  qed
  then obtain s' where s': "?notify = Some s'" "sched_inv (chan ?w1) s'" "same_config (sched w) s'"
    "announced (sched w) s'" by blast
  define w2 where "w2 = ?w1\<lparr>sched := s'\<rparr>"
  have inv2: "pipeline_inv w2" unfolding w2_def using s' inv ci1 by (intro pipeline_inv_notified) simp_all
  have run: "PopNext t x dropping w =
     (if \<not> dropping then do {
       assert_that (t - packet_time c1 p \<ge> 0);
       Some (p, set_channel x (Log (log_event EventRetrieved (of_int (t - packet_time c1 p)))
                              (stamp_operation t p c1)) w2)
     } else Some (p, w2))"
  proof -
    have a: "assert_that (heap_size (queued_packets ?c0) \<le> channel_capacity ?c0) = Some ()"
      "assert_that (\<not> heap_empty (queued_packets ?c0)) = Some ()"
      using size ne by (simp_all add: queued_set_def)
    show ?thesis
      by (simp only: PopNext_def Let_def a p q(1) Option.bind.simps c1_def [symmetric] s'(1) w2_def)
  qed
  have frame2: "chan w2 = (chan w)(x := c1)" "sched w2 = s'" by (simp_all add: w2_def)
  show ?thesis
  proof (cases dropping)
    case True
    with run have "PopNext t x dropping w = Some (p, w2)" by simp
    with True inv2 s' p qs1 st1 frame2 show ?thesis by (simp add: c1_def)
  next
    case False
    let ?c3 = "Log (log_event EventRetrieved (of_int (t - packet_time c1 p))) (stamp_operation t p c1)"
    have tp: "packet_time c1 p \<le> t" using False t pin by (simp add: c1_def)
    have st3: "same_static ?c3 c1" by (meson Log_frame stamp_frame same_static_trans)
    have "pipeline_inv (set_channel x ?c3 w2)"
      using inv2 ci1 st3 frame2 by (intro pipeline_inv_set_channel) simp_all
    moreover have "same_static ?c3 ?c0" using st3 st1 by (rule same_static_trans)
    moreover have "PopNext t x dropping w = Some (p, set_channel x ?c3 w2)" using run False tp by simp
    moreover have "op_time ?c3 y = (if y = p then t else op_time ?c0 y)" for y
      by (simp add: stamp_operation_def c1_def)
    ultimately show ?thesis using False s' p qs1 frame2 by (simp add: c1_def)
  qed
qed

text \<open>The packet that comes out is the earliest of the queue.\<close>

lemma front_earliest:
  assumes "pipeline_inv w" "x \<in> set (channels (sched w))" "heap_front (queued_packets (chan w x)) = Some p"
  shows "p \<in> queued_set (chan w x) \<and> (\<forall>y\<in>queued_set (chan w x). packet_time (chan w x) p \<le> packet_time (chan w x) y)"
  using assms hq.front_min [of "packet_time (chan w x)" "queued_packets (chan w x)" p]
  by (simp add: pipeline_inv_def channel_inv_def queued_set_def)

lemma GetNext_empty: "queued_set (chan w x) = {} \<Longrightarrow> GetNext t x dropping w = Some (None, w)"
  by (simp add: GetNext_def queued_set_def)

lemma GetNext_PopNext:
  "queued_set (chan w x) \<noteq> {} \<Longrightarrow>
     GetNext t x dropping w = do { (p, w1) \<leftarrow> PopNext t x dropping w; Some (Some p, w1) }"
  by (simp add: GetNext_def queued_set_def)

subsection \<open>Release\<close>

lemma ReleaseAt_ok:
  assumes inv: "pipeline_inv w" and x: "x \<in> set (channels (sched w))" and p: "in_transit w x p"
    and t: "dropping \<or> op_time (chan w x) p \<le> t"
  shows "\<exists>c. ReleaseAt t x p dropping w = Some (set_channel x c w) \<and> pipeline_inv (set_channel x c w) \<and>
    same_static c (chan w x) \<and> free_packets c = free_packets (chan w x) @ [p] \<and>
    queued_set c = queued_set (chan w x) \<and> packet_time c = packet_time (chan w x) \<and>
    op_time c = op_time (chan w x)"
proof -
  let ?c0 = "chan w x"
  define c1 where "c1 = (if dropping then ?c0 else Log (log_event EventReadTime (of_int (t - op_time ?c0 p))) ?c0)"
  have f1: "free_packets c1 = free_packets ?c0" "queued_set c1 = queued_set ?c0" "slots c1 = slots ?c0"
    "channel_capacity c1 = channel_capacity ?c0" "packet_size c1 = packet_size ?c0"
    "packet_time c1 = packet_time ?c0" "op_time c1 = op_time ?c0" "PeekNext c1 = PeekNext ?c0" "same_static c1 ?c0"
    by (simp_all add: c1_def)
  have ci: "channel_inv ?c0" using inv x by (simp add: pipeline_inv_def)
  then have ci1: "channel_inv c1" by (simp add: c1_def)
  then have ps: "0 < packet_size c1" by (simp add: channel_inv_def)
  have p1: "p \<in> slots c1" "p \<notin> set (free_packets c1)" "p \<notin> queued_set c1"
    using p f1 by (simp_all add: in_transit_def)
  let ?c2 = "c1\<lparr>free_packets := free_packets c1 @ [p]\<rparr>"
  have "Release t p dropping ?c0 = Some ?c2"
    using t free_below_capacity [OF ci1 p1(1,2)] p1(1) in_pool_slots [OF ps, of p]
    by (simp add: Release_def c1_def [symmetric]) (auto simp: c1_def)
  then have run: "ReleaseAt t x p dropping w = Some (set_channel x ?c2 w)" by (simp add: ReleaseAt_def)
  have "channel_inv ?c2" using ci1 p1 by (auto simp: channel_inv_def slots_def queued_set_def)
  moreover have "same_static ?c2 ?c0" using f1(9) by (simp add: same_static_def)
  moreover have "PeekNext ?c2 = PeekNext ?c0" using f1(8) by (simp add: PeekNext_def)
  ultimately have "pipeline_inv (set_channel x ?c2 w)" using inv by (intro pipeline_inv_set_channel)
  with run f1 \<open>same_static ?c2 ?c0\<close> show ?thesis by (intro exI [of _ ?c2]) (simp add: queued_set_def)
qed


subsection \<open>Several atomic steps in a row\<close>

text \<open>Every state that has become ready since was announced. Unlike \<open>announced\<close> this composes.\<close>

definition wakes :: "scheduler \<Rightarrow> scheduler \<Rightarrow> bool" where
  "wakes s s' \<longleftrightarrow>
     (\<exists>n. effects s' = effects s @ replicate n NotifyOne \<and> (n = 0 \<longrightarrow> ready_states s' \<subseteq> ready_states s))"

lemma wakes_refl [simp]: "wakes s s"
  unfolding wakes_def by (intro exI [of _ 0]) simp

lemma announced_wakes: "announced s s' \<Longrightarrow> wakes s s'"
  unfolding announced_def wakes_def
proof (elim disjE)
  assume "effects s' = effects s @ [NotifyOne]"
  then show "\<exists>n. effects s' = effects s @ replicate n NotifyOne \<and> (n = 0 \<longrightarrow> ready_states s' \<subseteq> ready_states s)"
    by (intro exI [of _ 1]) simp
qed (intro exI [of _ 0], simp)

lemma wakes_trans: "wakes s s' \<Longrightarrow> wakes s' s'' \<Longrightarrow> wakes s s''"
  unfolding wakes_def
proof (elim exE conjE)
  fix n m
  assume "effects s' = effects s @ replicate n NotifyOne" "n = 0 \<longrightarrow> ready_states s' \<subseteq> ready_states s"
    "effects s'' = effects s' @ replicate m NotifyOne" "m = 0 \<longrightarrow> ready_states s'' \<subseteq> ready_states s'"
  then show "\<exists>k. effects s'' = effects s @ replicate k NotifyOne \<and> (k = 0 \<longrightarrow> ready_states s'' \<subseteq> ready_states s)"
    by (intro exI [of _ "n + m"]) (auto simp: replicate_add)
qed

text \<open>What an operation on channel \<open>x\<close> leaves alone.\<close>

definition local_change :: "addr \<Rightarrow> pipeline \<Rightarrow> pipeline \<Rightarrow> bool" where
  "local_change x w w' \<longleftrightarrow>
     same_config (sched w) (sched w') \<and> wakes (sched w) (sched w') \<and>
     (\<forall>y. y \<noteq> x \<longrightarrow> chan w' y = chan w y) \<and> same_static (chan w' x) (chan w x) \<and>
     packet_time (chan w' x) = packet_time (chan w x)"

lemma local_change_refl [simp]: "local_change x w w"
  by (simp add: local_change_def)

lemma local_change_trans: "local_change x w w' \<Longrightarrow> local_change x w' w'' \<Longrightarrow> local_change x w w''"
  unfolding local_change_def using same_config_trans wakes_trans same_static_trans by metis

lemma local_change_set_channel:
  "same_static c (chan w x) \<Longrightarrow> packet_time c = packet_time (chan w x) \<Longrightarrow> local_change x w (set_channel x c w)"
  by (simp add: local_change_def)

lemma local_change_registered: "local_change x w w' \<Longrightarrow> channels (sched w') = channels (sched w)"
  by (simp add: local_change_def same_config_def)

lemma local_change_static:
  assumes "local_change x w w'"
  shows "slots (chan w' x) = slots (chan w x)" "in_pool (chan w' x) = in_pool (chan w x)"
  using assms same_staticD(3,4) by (simp_all add: local_change_def)

subsection \<open>The dropping policy\<close>

lemma TryDroppingPacket_empty: "queued_set (chan w x) = {} \<Longrightarrow> TryDroppingPacket x w = Some (False, w)"
  by (simp add: TryDroppingPacket_def GetNext_empty)

lemma TryDroppingPacket_ok:
  assumes inv: "pipeline_inv w" and x: "x \<in> set (channels (sched w))" and ne: "queued_set (chan w x) \<noteq> {}"
  shows "\<exists>p w'. TryDroppingPacket x w = Some (True, w') \<and> heap_front (queued_packets (chan w x)) = Some p \<and>
    pipeline_inv w' \<and> local_change x w w' \<and>
    free_packets (chan w' x) = free_packets (chan w x) @ [p] \<and>
    queued_set (chan w' x) = queued_set (chan w x) - {p} \<and>
    op_time (chan w' x) = op_time (chan w x)"
proof -
  from PopNext_ok [OF inv x ne, of True 0] obtain p w1 where
    w1: "PopNext 0 x True w = Some (p, w1)" "heap_front (queued_packets (chan w x)) = Some p"
    "pipeline_inv w1" "same_config (sched w) (sched w1)" "announced (sched w) (sched w1)"
    "\<forall>y. y \<noteq> x \<longrightarrow> chan w1 y = chan w y" "same_static (chan w1 x) (chan w x)"
    "free_packets (chan w1 x) = free_packets (chan w x)"
    "queued_set (chan w1 x) = queued_set (chan w x) - {p}"
    "packet_time (chan w1 x) = packet_time (chan w x)"
    "\<forall>y. y \<noteq> p \<longrightarrow> op_time (chan w1 x) y = op_time (chan w x) y"
    "op_time (chan w1 x) p = op_time (chan w x) p" by auto
  have loc1: "local_change x w w1" using w1 announced_wakes by (simp add: local_change_def)
  from front_earliest [OF inv x w1(2)] have pq: "p \<in> queued_set (chan w x)" ..
  have ci: "channel_inv (chan w x)" using inv x by (simp add: pipeline_inv_def)
  have tr: "in_transit w1 x p"
    using pq ci w1(8,9) local_change_static(1) [OF loc1] by (auto simp: in_transit_def channel_inv_def)
  have x1: "x \<in> set (channels (sched w1))" using x local_change_registered [OF loc1] by simp
  from ReleaseAt_ok [OF w1(3) x1 tr, of True 0] obtain c where
    c: "ReleaseAt 0 x p True w1 = Some (set_channel x c w1)" "pipeline_inv (set_channel x c w1)"
    "same_static c (chan w1 x)" "free_packets c = free_packets (chan w1 x) @ [p]"
    "queued_set c = queued_set (chan w1 x)" "packet_time c = packet_time (chan w1 x)"
    "op_time c = op_time (chan w1 x)" by auto
  let ?e = "log_event EventDroppedPacket 1"
  let ?w2 = "set_channel x c w1"
  let ?w3 = "set_channel x (Log ?e c) ?w2"
  have ci2: "channel_inv c" using c(2) x1 by (force simp: pipeline_inv_def)
  have "TryDroppingPacket x w = Some (True, ?w3)"
    using c(1) w1(1) by (simp add: TryDroppingPacket_def GetNext_PopNext [OF ne])
  moreover have "pipeline_inv ?w3" by (rule pipeline_inv_set_channel [OF c(2)]) (use ci2 in simp_all)
  moreover have "local_change x w1 ?w2" using c by (intro local_change_set_channel)
  then have "local_change x w ?w2" using loc1 local_change_trans by blast
  moreover have "local_change x ?w2 ?w3" by (intro local_change_set_channel) simp_all
  ultimately have main: "TryDroppingPacket x w = Some (True, ?w3)" "pipeline_inv ?w3" "local_change x w ?w3"
    using local_change_trans by blast+
  have "op_time (chan w1 x) = op_time (chan w x)" using w1(11,12) by (intro ext) metis
  with main w1 c show ?thesis by (intro exI [of _ p] exI [of _ ?w3]) simp
qed

subsection \<open>Acquire\<close>

lemma take_free_Cons:
  "free_packets c \<noteq> [] \<Longrightarrow>
     take_free c = (Some (last (free_packets c)), c\<lparr>free_packets := butlast (free_packets c)\<rparr>)"
  by (simp add: take_free_def)

lemma take_free_Nil: "free_packets c = [] \<Longrightarrow> take_free c = (None, c)"
  by (simp add: take_free_def)

lemma set_channel_self [simp]: "set_channel x (chan w x) w = w"
  by (simp add: set_channel_def)

text \<open>Taking a packet of the free stack, and the timestamp Acquire ends with.\<close>

lemma take_free_ok:
  assumes inv: "pipeline_inv w" and x: "x \<in> set (channels (sched w))"
    and free: "free_packets (chan w x) = fs @ [p]"
  defines "w1 \<equiv> set_channel x ((chan w x)\<lparr>free_packets := fs\<rparr>) w"
  shows "take_free (chan w x) = (Some p, chan w1 x)" "pipeline_inv w1" "local_change x w w1"
    "in_transit w1 x p" "in_pool (chan w1 x) p" "queued_set (chan w1 x) = queued_set (chan w x)"
proof -
  let ?c = "(chan w x)\<lparr>free_packets := fs\<rparr>"
  have ci: "channel_inv (chan w x)" using inv x by (simp add: pipeline_inv_def)
  show "take_free (chan w x) = (Some p, chan w1 x)"
    using free by (simp add: take_free_def w1_def)
  have st: "same_static ?c (chan w x)" by (simp add: same_static_def)
  then show "local_change x w w1" unfolding w1_def by (intro local_change_set_channel) simp_all
  have eq: "slots ?c = slots (chan w x)" "queued_set ?c = queued_set (chan w x)" "PeekNext ?c = PeekNext (chan w x)"
    by (simp_all add: slots_def queued_set_def PeekNext_def)
  have "channel_inv ?c" using ci free eq by (auto simp: channel_inv_def)
  then show "pipeline_inv w1" unfolding w1_def using inv st eq by (intro pipeline_inv_set_channel) simp_all
  show tr: "in_transit w1 x p"
    using ci free eq by (auto simp: in_transit_def w1_def channel_inv_def)
  have "0 < packet_size ?c" using ci by (simp add: channel_inv_def)
  with tr show "in_pool (chan w1 x) p" by (simp add: in_transit_def w1_def in_pool_slots)
  show "queued_set (chan w1 x) = queued_set (chan w x)" using eq by (simp add: w1_def)
qed

lemma stamp_ok:
  fixes t :: time
  assumes inv: "pipeline_inv w" and tr: "in_transit w x p" and x: "x \<in> set (channels (sched w))"
  defines "w1 \<equiv> set_channel x (stamp_operation t p (chan w x)) w"
  shows "pipeline_inv w1" "local_change x w w1" "in_transit w1 x p"
    "queued_set (chan w1 x) = queued_set (chan w x)" "free_packets (chan w1 x) = free_packets (chan w x)"
    "op_time (chan w1 x) p = t"
proof -
  have "channel_inv (chan w x)" using inv x by (simp add: pipeline_inv_def)
  then show "pipeline_inv w1" unfolding w1_def using inv by (intro pipeline_inv_set_channel) simp_all
  show "local_change x w w1" unfolding w1_def by (intro local_change_set_channel) simp_all
  show "in_transit w1 x p" using tr by (simp add: in_transit_def w1_def)
qed (simp_all add: w1_def stamp_operation_def queued_set_def)

text \<open>
  Acquire's loop in the three situations it can find: a free packet, a queue to drop from, neither.
\<close>

lemma acquire_loop_free:
  assumes "free_packets (chan w x) = fs @ [p]"
  shows "acquire_loop 0 x None w = Some (Some p, set_channel x ((chan w x)\<lparr>free_packets := fs\<rparr>) w)"
  using assms by (simp add: acquire_loop.simps [of 0] acquire_loop.simps [of "Suc 0"] take_free_Cons)

lemma acquire_loop_empty:
  assumes "free_packets (chan w x) = []"
  shows "acquire_loop 0 x None w =
    do {
      (go, w1) \<leftarrow> TryDroppingPacket x w;
      if go
      then (case take_free (chan w1 x) of (packet, c) \<Rightarrow> Some (packet, set_channel x c w1))
      else Some (None, w1)
    }"
  using assms
  by (simp add: acquire_loop.simps [of 0] acquire_loop.simps [of "Suc 0"] take_free_Nil
      acquire_loop.simps [of 2] numeral_2_eq_2 [symmetric] cong: if_cong)

lemma Acquire_free:
  assumes inv: "pipeline_inv w" and x: "x \<in> set (channels (sched w))"
    and free: "free_packets (chan w x) = fs @ [p]"
  shows "\<exists>w'. Acquire t x w = Some (Some p, w') \<and> pipeline_inv w' \<and> local_change x w w' \<and> in_transit w' x p \<and>
    free_packets (chan w' x) = fs \<and> queued_set (chan w' x) = queued_set (chan w x) \<and> op_time (chan w' x) p = t"
proof -
  define w1 where "w1 = set_channel x ((chan w x)\<lparr>free_packets := fs\<rparr>) w"
  note t1 = take_free_ok [OF inv x free, folded w1_def]
  have x1: "x \<in> set (channels (sched w1))" using x by (simp add: w1_def)
  note s2 = stamp_ok [OF t1(2,4) x1, of t]
  let ?w2 = "set_channel x (stamp_operation t p (chan w1 x)) w1"
  have "Acquire t x w = Some (Some p, ?w2)"
    using acquire_loop_free [OF free] t1(5) by (simp add: Acquire_def w1_def)
  moreover have "local_change x w ?w2" using t1(3) s2(2) by (rule local_change_trans)
  moreover have "free_packets (chan ?w2 x) = fs" by (simp add: w1_def)
  ultimately show ?thesis using s2 t1(6) by auto
qed

lemma Acquire_dropping:
  assumes inv: "pipeline_inv w" and x: "x \<in> set (channels (sched w))"
    and free: "free_packets (chan w x) = []" and ne: "queued_set (chan w x) \<noteq> {}"
  shows "\<exists>p w'. Acquire t x w = Some (Some p, w') \<and> heap_front (queued_packets (chan w x)) = Some p \<and>
    pipeline_inv w' \<and> local_change x w w' \<and> in_transit w' x p \<and> free_packets (chan w' x) = [] \<and>
    queued_set (chan w' x) = queued_set (chan w x) - {p} \<and> op_time (chan w' x) p = t"
proof -
  from TryDroppingPacket_ok [OF inv x ne] free obtain p w1 where w1: "TryDroppingPacket x w = Some (True, w1)"
    "heap_front (queued_packets (chan w x)) = Some p" "pipeline_inv w1" "local_change x w w1"
    "free_packets (chan w1 x) = [] @ [p]" "queued_set (chan w1 x) = queued_set (chan w x) - {p}" by auto
  have x1: "x \<in> set (channels (sched w1))" using x local_change_registered [OF w1(4)] by simp
  define w2 where "w2 = set_channel x ((chan w1 x)\<lparr>free_packets := []\<rparr>) w1"
  note t2 = take_free_ok [OF w1(3) x1 w1(5), folded w2_def]
  have x2: "x \<in> set (channels (sched w2))" using x1 by (simp add: w2_def)
  note s3 = stamp_ok [OF t2(2,4) x2, of t]
  let ?w3 = "set_channel x (stamp_operation t p (chan w2 x)) w2"
  have "acquire_loop 0 x None w = Some (Some p, w2)"
    using acquire_loop_empty [OF free] w1(1) t2(1) by (simp add: w2_def)
  then have "Acquire t x w = Some (Some p, ?w3)" using t2(5) by (simp add: Acquire_def)
  moreover have "local_change x w ?w3" using w1(4) t2(3) s3(2) local_change_trans by blast
  moreover have "free_packets (chan ?w3 x) = []" by (simp add: w2_def)
  ultimately show ?thesis using s3 t2(6) w1(2,6) by (intro exI [of _ p] exI [of _ ?w3]) simp
qed

lemma Acquire_none:
  assumes "free_packets (chan w x) = []" and "queued_set (chan w x) = {}"
  shows "Acquire t x w = Some (None, w)"
  using assms acquire_loop_empty [of w x] TryDroppingPacket_empty [of w x] by (simp add: Acquire_def)

subsection \<open>Construction of the packet in place\<close>

lemma channel_inv_construct:
  "channel_inv c \<Longrightarrow> p \<notin> queued_set c \<Longrightarrow> channel_inv (construct_packet ts p c)"
proof -
  assume c: "channel_inv c" "p \<notin> queued_set c"
  then have q: "queue_inv (packet_time c) (queued_packets c)" by (simp add: channel_inv_def)
  have "queue_inv ((packet_time c)(p := ts)) (queued_packets c)"
    using q by (rule hq.cong) (use c(2) in \<open>auto simp: queued_set_def\<close>)
  with c show ?thesis by (simp add: channel_inv_def construct_packet_def slots_def queued_set_def)
qed

lemma construct_frame [simp, pipert_frame]:
  "free_packets (construct_packet ts p c) = free_packets c" "queued_set (construct_packet ts p c) = queued_set c"
  "same_static (construct_packet ts p c) c" "slots (construct_packet ts p c) = slots c"
  "op_time (construct_packet ts p c) = op_time c" "queued_packets (construct_packet ts p c) = queued_packets c"
  by (simp_all add: construct_packet_def queued_set_def same_static_def slots_def)

lemma PeekNext_construct: "channel_inv c \<Longrightarrow> p \<notin> queued_set c \<Longrightarrow> PeekNext (construct_packet ts p c) = PeekNext c"
proof -
  assume c: "channel_inv c" "p \<notin> queued_set c"
  then have q: "queue_inv (packet_time c) (queued_packets c)" by (simp add: channel_inv_def)
  have "packet_time (construct_packet ts p c) f = packet_time c f" if "heap_front (queued_packets c) = Some f" for f
    using hq.front_min [OF q that] c(2) by (auto simp: construct_packet_def queued_set_def)
  then show ?thesis by (cases "heap_front (queued_packets c)") (simp_all add: PeekNext_def)
qed

lemma construct_ok:
  fixes ts :: time
  assumes inv: "pipeline_inv w" and tr: "in_transit w x p" and x: "x \<in> set (channels (sched w))"
  defines "w1 \<equiv> set_channel x (construct_packet ts p (chan w x)) w"
  shows "pipeline_inv w1" "in_transit w1 x p" "sched w1 = sched w" "queued_set (chan w1 x) = queued_set (chan w x)"
    "free_packets (chan w1 x) = free_packets (chan w x)" "op_time (chan w1 x) = op_time (chan w x)"
    "packet_time (chan w1 x) = (packet_time (chan w x))(p := ts)" "y \<noteq> x \<Longrightarrow> chan w1 y = chan w y"
    "same_static (chan w1 x) (chan w x)"
proof -
  have ci: "channel_inv (chan w x)" using inv x by (simp add: pipeline_inv_def)
  have p: "p \<notin> queued_set (chan w x)" using tr by (simp add: in_transit_def)
  show "pipeline_inv w1"
    unfolding w1_def using inv channel_inv_construct [OF ci p] PeekNext_construct [OF ci p]
    by (intro pipeline_inv_set_channel) simp_all
  show "in_transit w1 x p" using tr by (simp add: in_transit_def w1_def)
qed (simp_all add: w1_def construct_packet_def queued_set_def same_static_def)

subsection \<open>Connecting a channel with its front\<close>

lemma SetBase_ok:
  assumes inv: "pipeline_inv w" and x: "x \<in> set (channels (sched w))"
  shows "pipeline_inv (set_channel x (SetBase b (chan w x)) w)"
proof -
  let ?c = "SetBase b (chan w x)"
  have f: "queued_set ?c = queued_set (chan w x)" "PeekNext ?c = PeekNext (chan w x)" "slots ?c = slots (chan w x)"
    "has_callback ?c = has_callback (chan w x)" "single_thread_object ?c = single_thread_object (chan w x)"
    by (simp_all add: SetBase_def queued_set_def PeekNext_def slots_def)
  have "channel_inv (chan w x)" using inv x by (simp add: pipeline_inv_def)
  then have ci: "channel_inv ?c" by (simp add: channel_inv_def f) (simp add: SetBase_def)
  have u: "updated (chan w) x ((chan w)(x := ?c))" by (intro updated_fun_upd) (simp_all add: f)
  have "sched_inv (chan w) (sched w)" using inv by (simp add: pipeline_inv_def)
  then have "sched_inv ((chan w)(x := ?c)) (sched w)"
    by (rule sched_inv_unseen [OF _ u]) (simp_all add: f has_job_def channel_key_def)
  with inv ci show ?thesis by (simp add: pipeline_inv_def)
qed

end
