(* ===== verification/Run_Tasks.thy ===== *)
theory Run_Tasks
  imports Channel_Ops
begin

text \<open>
  The worker's loop body \<^verbatim>\<open>RunTasks\<close> of \<^verbatim>\<open>src/SchedulerImpl.cpp\<close>: the section that
  picks the next job under the global mutex, and the section after the callback that lets other
  workers service the state again. \<open>drain\<close> is the loop of one worker that nobody disturbs.
\<close>

subsection \<open>The two sections\<close>

text \<open>Taking a state out of the state queue while one of its channels is serviced.\<close>

definition disable_state :: "channel_store \<Rightarrow> addr \<Rightarrow> enabled_heap \<Rightarrow> scheduler \<Rightarrow> scheduler option" where
  "disable_state ch st chq s = do {
     let s1 = set_queue st (chq\<lparr>enabled := False\<rparr>) s;
     sq \<leftarrow> pop_heap (StateOrdering ch (state_queues s1)) (state_queue s1);
     Some (s1\<lparr>state_queue := sq\<rparr>)
   }"

text \<open>
  The result is the state, the channel and the packet, or none when the worker was woken to stop.
\<close>

definition pick_task :: "time \<Rightarrow> pipeline \<Rightarrow> ((addr \<times> addr \<times> addr) option \<times> pipeline) option" where
  "pick_task t w =
     (if heap_empty (state_queue (sched w)) then Some (None, w)
      else do {
        st \<leftarrow> heap_front (state_queue (sched w));
        chq \<leftarrow> state_queues (sched w) st;
        assert_that (enabled chq);
        assert_that (\<not> heap_empty (channel_heap chq));
        x \<leftarrow> heap_front (channel_heap chq);
        assert_that (single_thread_object (chan w x) = st);
        s1 \<leftarrow> (if st \<noteq> nullptr then disable_state (chan w) st chq (sched w) else Some (sched w));
        (p, w1) \<leftarrow> PopNext t x False (w\<lparr>sched := s1\<rparr>);
        assert_that (p \<noteq> nullptr);
        Some (Some (st, x, p), w1)
      })"

definition finish_task :: "addr \<Rightarrow> pipeline \<Rightarrow> pipeline option" where
  "finish_task st w =
     (if st \<noteq> nullptr
      then do {
        assert_that (heap_count st (state_queue (sched w)) = 0);
        chq \<leftarrow> state_queues (sched w) st;
        assert_that (\<not> enabled chq);
        let s1 = set_queue st (chq\<lparr>enabled := True\<rparr>) (sched w);
        Some (w\<lparr>sched :=
          if \<not> heap_empty (channel_heap chq)
          then s1\<lparr>state_queue := push_heap (StateOrdering (chan w) (state_queues s1)) st (state_queue s1)\<rparr>
          else s1\<rparr>)
      }
      else Some w)"

subsection \<open>Enabling and disabling a state\<close>

definition same_setup :: "scheduler \<Rightarrow> scheduler \<Rightarrow> bool" where
  "same_setup s s' \<longleftrightarrow>
     channels s' = channels s \<and> receivers s' = receivers s \<and> keep_running s' = keep_running s \<and>
     running s' = running s \<and> workers s' = workers s \<and> workers_number s' = workers_number s \<and>
     has_profiler s' = has_profiler s \<and> valid_state s' = valid_state s"

definition is_enabled :: "scheduler \<Rightarrow> addr \<Rightarrow> bool" where
  "is_enabled s st \<longleftrightarrow> (\<exists>q. state_queues s st = Some q \<and> enabled q)"

lemma same_config_setup: "same_config s s' \<Longrightarrow> same_setup s s'"
  by (simp add: same_config_def same_setup_def)

lemma same_config_enabled: "same_config s s' \<Longrightarrow> is_enabled s' st = is_enabled s st"
proof -
  assume "same_config s s'"
  then have "map_option enabled (state_queues s' st) = map_option enabled (state_queues s st)"
    by (simp add: same_config_def)
  then show ?thesis by (cases "state_queues s st"; cases "state_queues s' st") (auto simp: is_enabled_def)
qed

lemma dom_same_config: "same_config s s' \<Longrightarrow> dom (state_queues s') = dom (state_queues s)"
proof -
  assume "same_config s s'"
  then have "map_option enabled (state_queues s' st) = map_option enabled (state_queues s st)" for st
    by (simp add: same_config_def)
  then have "state_queues s' st = None \<longleftrightarrow> state_queues s st = None" for st by (metis option.map_disc_iff)
  then show ?thesis by (auto simp: dom_def)
qed

lemma same_setup_refl [simp]: "same_setup s s"
  by (simp add: same_setup_def)

lemma same_setup_trans: "same_setup s s' \<Longrightarrow> same_setup s' s'' \<Longrightarrow> same_setup s s''"
  by (simp add: same_setup_def)

lemma state_key_flag:
  "state_queues s st = Some q \<Longrightarrow>
     state_key ch (state_queues (set_queue st (q\<lparr>enabled := b\<rparr>) s)) = state_key ch (state_queues s)"
  by (rule ext) (simp add: state_key_def)

lemma heaps_inv_flag:
  "heaps_inv ch s \<Longrightarrow> state_queues s st = Some q \<Longrightarrow> heaps_inv ch (set_queue st (q\<lparr>enabled := b\<rparr>) s)"
  by (auto simp: heaps_inv_def)

lemma same_setup_queue [simp]:
  "same_setup s (set_queue st q s)" "same_setup s (s'\<lparr>state_queue := sq\<rparr>) = same_setup s s'"
  by (simp_all add: same_setup_def set_queue_def)

lemma is_enabled_flag [simp]:
  "is_enabled (set_queue st (q\<lparr>enabled := b\<rparr>) s) st' = (if st' = st then b else is_enabled s st')"
  "is_enabled (s\<lparr>state_queue := sq\<rparr>) st' = is_enabled s st'"
  by (simp_all add: is_enabled_def)

lemma disable_state_ok:
  assumes inv: "sched_inv ch s" and front: "heap_front (state_queue s) = Some st"
    and q: "state_queues s st = Some q"
  shows "\<exists>s'. disable_state ch st q s = Some s' \<and> sched_inv ch s' \<and> same_setup s s' \<and> effects s' = effects s \<and>
    dom (state_queues s') = dom (state_queues s) \<and> ready_states s' = ready_states s - {st} \<and> (\<forall>st'. is_enabled s' st' \<longleftrightarrow> is_enabled s st' \<and> st' \<noteq> st)"
proof -
  let ?s1 = "set_queue st (q\<lparr>enabled := False\<rparr>) s"
  have sq: "queue_inv (state_key ch (state_queues s)) (state_queue s)" "heap_set (state_queue s) = ready_states s"
    and hi: "heaps_inv ch s" using inv by (simp_all add: sched_inv_def states_inv_def)
  from hq.pop_ok [OF sq(1) front] obtain sq' where
    sq': "pop_heap (StateOrdering ch (state_queues ?s1)) (state_queue s) = Some sq'"
    "queue_inv (state_key ch (state_queues s)) sq'" "heap_set sq' = ready_states s - {st}"
    unfolding StateOrdering_def state_key_flag [of s st q ch False, OF q] sq(2) by blast
  let ?s2 = "?s1\<lparr>state_queue := sq'\<rparr>"
  have "disable_state ch st q s = Some ?s2" using sq'(1) by (simp add: disable_state_def Let_def)
  moreover have r: "ready_states ?s2 = ready_states s - {st}" by (simp add: ready_states_set_queue)
  moreover have "sched_inv ch ?s2"
    using heaps_inv_flag [OF hi q] sq' r state_key_flag [OF q, of ch False]
    by (simp add: sched_inv_def states_invI)
  moreover have "dom (state_queues ?s2) = dom (state_queues s)" using q by auto
  ultimately show ?thesis by auto
qed

lemma finish_task_ok:
  assumes inv: "pipeline_inv w" and q: "state_queues (sched w) st = Some q" "\<not> enabled q"
  shows "\<exists>w'. finish_task st w = Some w' \<and> pipeline_inv w' \<and> same_setup (sched w) (sched w') \<and>
    chan w' = chan w \<and> effects (sched w') = effects (sched w) \<and>
    dom (state_queues (sched w')) = dom (state_queues (sched w)) \<and>
    (st = nullptr \<longrightarrow> w' = w) \<and>
    (st \<noteq> nullptr \<longrightarrow> (\<forall>st'. is_enabled (sched w') st' \<longleftrightarrow> is_enabled (sched w) st' \<or> st' = st) \<and>
      ready_states (sched w') =
        ready_states (sched w) \<union> (if heap_set (channel_heap q) \<noteq> {} then {st} else {}))"
proof (cases "st = nullptr")
  case True
  with inv show ?thesis by (simp add: finish_task_def)
next
  case False
  let ?s1 = "set_queue st (q\<lparr>enabled := True\<rparr>) (sched w)"
  define s2 where "s2 = (if \<not> heap_empty (channel_heap q)
          then ?s1\<lparr>state_queue := push_heap (StateOrdering (chan w) (state_queues ?s1)) st (state_queue ?s1)\<rparr>
          else ?s1)"
  have sq: "queue_inv (state_key (chan w) (state_queues (sched w))) (state_queue (sched w))"
      "heap_set (state_queue (sched w)) = ready_states (sched w)"
    and hi: "heaps_inv (chan w) (sched w)" using inv by (simp_all add: pipeline_inv_def sched_inv_def states_inv_def)
  have notin: "st \<notin> ready_states (sched w)" using q by (simp add: ready_states_def)
  have run: "finish_task st w = Some (w\<lparr>sched := s2\<rparr>)"
    using False q notin sq(2) by (simp add: finish_task_def Let_def s2_def)
  have ready: "ready_states s2 = ready_states (sched w) \<union> (if heap_set (channel_heap q) \<noteq> {} then {st} else {})"
    using notin by (auto simp: s2_def ready_states_set_queue)
  have key: "state_key (chan w) (state_queues ?s1) = state_key (chan w) (state_queues (sched w))"
    using q(1) by (rule state_key_flag)
  have "states_inv (chan w) s2"
  proof (cases "heap_set (channel_heap q) = {}")
    case True
    with sq ready key show ?thesis by (simp add: s2_def states_inv_def)
  next
    case ne: False
    have "queue_inv (state_key (chan w) (state_queues ?s1))
        (push_heap (StateOrdering (chan w) (state_queues ?s1)) st (state_queue ?s1))"
      using sq notin unfolding StateOrdering_def key by (intro hq.invar_push) simp_all
    with ne sq ready key show ?thesis by (simp add: s2_def states_inv_def)
  qed
  moreover have "heaps_inv (chan w) s2" using heaps_inv_flag [OF hi q(1)] by (simp add: s2_def)
  ultimately have "sched_inv (chan w) s2" by (simp add: sched_inv_def)
  moreover have sc: "same_setup (sched w) s2" "effects s2 = effects (sched w)" by (simp_all add: s2_def)
  ultimately have "pipeline_inv (w\<lparr>sched := s2\<rparr>)" using inv by (simp add: pipeline_inv_def same_setup_def)
  moreover have "dom (state_queues s2) = dom (state_queues (sched w))" using q(1) by (auto simp: s2_def)
  moreover have "is_enabled s2 st' \<longleftrightarrow> is_enabled (sched w) st' \<or> st' = st" for st' by (simp add: s2_def)
  ultimately show ?thesis using run ready sc False by simp
qed

subsection \<open>Picking a job\<close>

text \<open>Every queued packet lies in the past: what Push asserts.\<close>

definition past :: "time \<Rightarrow> pipeline \<Rightarrow> bool" where
  "past t w \<longleftrightarrow>
     (\<forall>x\<in>set (channels (sched w)). \<forall>p\<in>queued_set (chan w x). packet_time (chan w x) p \<le> t)"

lemma pastD: "past t w \<Longrightarrow> x \<in> set (channels (sched w)) \<Longrightarrow> p \<in> queued_set (chan w x) \<Longrightarrow> packet_time (chan w x) p \<le> t"
  by (simp add: past_def)

text \<open>The front of the state queue is a state whose front channel has the least key of all ready ones.\<close>

lemma front_state:
  assumes inv: "sched_inv ch s" and front: "heap_front (state_queue s) = Some st"
  obtains q x where "state_queues s st = Some q" "enabled q" "heap_front (channel_heap q) = Some x"
    "x \<in> jobs_of ch s st"
    "\<And>y. y \<in> set (channels s) \<Longrightarrow> has_job ch y \<Longrightarrow> is_enabled s (single_thread_object (ch y)) \<Longrightarrow>
       channel_key ch x \<le> channel_key ch y"
proof -
  have sq: "queue_inv (state_key ch (state_queues s)) (state_queue s)" "heap_set (state_queue s) = ready_states s"
    and hi: "heaps_inv ch s" using inv by (simp_all add: sched_inv_def states_inv_def)
  from hq.front_min [OF sq(1) front] sq(2) have st: "st \<in> ready_states s"
    and min: "\<And>st'. st' \<in> ready_states s \<Longrightarrow> state_key ch (state_queues s) st \<le> state_key ch (state_queues s) st'"
    by auto
  from st obtain q where q: "state_queues s st = Some q" "enabled q" "heap_set (channel_heap q) \<noteq> {}"
    by (auto simp: ready_states_def)
  from hq.front_ex [OF q(3)] obtain x where x: "heap_front (channel_heap q) = Some x" ..
  have heap: "queue_inv (channel_key ch) (channel_heap q)" "heap_set (channel_heap q) = jobs_of ch s st"
    using hi q(1) by (simp_all add: heaps_inv_def)
  from hq.front_min [OF heap(1) x] heap(2) have xj: "x \<in> jobs_of ch s st" by simp
  have least: "channel_key ch x \<le> channel_key ch y"
    if y: "y \<in> set (channels s)" "has_job ch y" "is_enabled s (single_thread_object (ch y))" for y
  proof -
    let ?st = "single_thread_object (ch y)"
    from y(3) obtain q' where q': "state_queues s ?st = Some q'" "enabled q'" by (auto simp: is_enabled_def)
    have h': "queue_inv (channel_key ch) (channel_heap q')" "heap_set (channel_heap q') = jobs_of ch s ?st"
      using hi q'(1) by (simp_all add: heaps_inv_def)
    have yin: "y \<in> heap_set (channel_heap q')" using h'(2) y by (simp add: jobs_of_def)
    then have "heap_set (channel_heap q') \<noteq> {}" by blast
    from hq.front_ex [OF this] obtain z where z: "heap_front (channel_heap q') = Some z" ..
    have "?st \<in> ready_states s" using q' yin by (auto simp: ready_states_def)
    from min [OF this] have "channel_key ch x \<le> channel_key ch z"
      using state_key_front [where qs = "state_queues s", OF q(1) x]
        state_key_front [where qs = "state_queues s", OF q'(1) z] by simp
    also have "\<dots> \<le> channel_key ch y" using hq.front_min [OF h'(1) z] yin by simp
    finally show ?thesis .
  qed
  show thesis using q(1,2) x xj least by (rule that)
qed

lemma pick_none: "ready_states (sched w) = {} \<Longrightarrow> pipeline_inv w \<Longrightarrow> pick_task t w = Some (None, w)"
  by (simp add: pick_task_def pipeline_inv_def sched_inv_def states_inv_def)

text \<open>
  The earliest-deadline-first rule, with everything a worker relies on afterwards.
\<close>

definition earliest_job :: "pipeline \<Rightarrow> addr \<Rightarrow> addr \<Rightarrow> bool" where
  "earliest_job w x p \<longleftrightarrow>
     x \<in> set (channels (sched w)) \<and> has_callback (chan w x) \<and> p \<in> queued_set (chan w x) \<and>
     is_enabled (sched w) (single_thread_object (chan w x)) \<and>
     (\<forall>y\<in>set (channels (sched w)). \<forall>q\<in>queued_set (chan w y).
        has_callback (chan w y) \<and> is_enabled (sched w) (single_thread_object (chan w y)) \<longrightarrow>
        packet_time (chan w x) p \<le> packet_time (chan w y) q)"

lemma slot_not_null: "channel_inv c \<Longrightarrow> p \<in> slots c \<Longrightarrow> p \<noteq> nullptr"
  by (auto simp: channel_inv_def slots_def nullptr_def)

lemma pick_task_ok:
  assumes inv: "pipeline_inv w" and ready: "ready_states (sched w) \<noteq> {}" and past: "past t w"
  shows "\<exists>st x p w'. pick_task t w = Some (Some (st, x, p), w') \<and>
    earliest_job w x p \<and> st = single_thread_object (chan w x) \<and>
    pipeline_inv w' \<and> same_setup (sched w) (sched w') \<and> dom (state_queues (sched w')) = dom (state_queues (sched w)) \<and>
    (\<forall>st'. is_enabled (sched w') st' \<longleftrightarrow> is_enabled (sched w) st' \<and> (st' \<noteq> st \<or> st = nullptr)) \<and>
    wakes (sched w) (sched w') \<and>
    (\<forall>y. y \<noteq> x \<longrightarrow> chan w' y = chan w y) \<and> same_static (chan w' x) (chan w x) \<and>
    free_packets (chan w' x) = free_packets (chan w x) \<and>
    queued_set (chan w' x) = queued_set (chan w x) - {p} \<and>
    packet_time (chan w' x) = packet_time (chan w x) \<and>
    (\<forall>y. y \<noteq> p \<longrightarrow> op_time (chan w' x) y = op_time (chan w x) y) \<and> op_time (chan w' x) p = t"
proof -
  let ?s = "sched w"
  have si: "sched_inv (chan w) ?s" using inv by (simp add: pipeline_inv_def)
  have sq: "queue_inv (state_key (chan w) (state_queues ?s)) (state_queue ?s)"
    "heap_set (state_queue ?s) = ready_states ?s" using si by (simp_all add: sched_inv_def states_inv_def)
  from ready sq(2) have "heap_set (state_queue ?s) \<noteq> {}" by simp
  from hq.front_ex [OF this] obtain st where st: "heap_front (state_queue ?s) = Some st" ..
  from front_state [OF si st] obtain q x where q: "state_queues ?s st = Some q" "enabled q"
      "heap_front (channel_heap q) = Some x" "x \<in> jobs_of (chan w) ?s st"
    and least: "\<And>y. y \<in> set (channels ?s) \<Longrightarrow> has_job (chan w) y \<Longrightarrow>
        is_enabled ?s (single_thread_object (chan w y)) \<Longrightarrow> channel_key (chan w) x \<le> channel_key (chan w) y" by (metis (no_types))
  have x: "x \<in> set (channels ?s)" "single_thread_object (chan w x) = st" "has_job (chan w) x"
    using q(4) by (simp_all add: jobs_of_def)
  then have ne: "queued_set (chan w x) \<noteq> {}" and cb: "has_callback (chan w x)" by (simp_all add: has_job_def)
  have "\<exists>s1. (if st \<noteq> nullptr then disable_state (chan w) st q ?s else Some ?s) = Some s1 \<and>
      sched_inv (chan w) s1 \<and> same_setup ?s s1 \<and> effects s1 = effects ?s \<and> ready_states s1 \<subseteq> ready_states ?s \<and>
      dom (state_queues s1) = dom (state_queues ?s) \<and> (\<forall>st'. is_enabled s1 st' \<longleftrightarrow> is_enabled ?s st' \<and> (st' \<noteq> st \<or> st = nullptr))"
    using si disable_state_ok [OF si st q(1)] by (cases "st = nullptr") auto
  then obtain s1 where s1: "(if st \<noteq> nullptr then disable_state (chan w) st q ?s else Some ?s) = Some s1"
    "sched_inv (chan w) s1" "same_setup ?s s1" "effects s1 = effects ?s" "ready_states s1 \<subseteq> ready_states ?s"
    "dom (state_queues s1) = dom (state_queues ?s)" "\<forall>st'. is_enabled s1 st' \<longleftrightarrow> is_enabled ?s st' \<and> (st' \<noteq> st \<or> st = nullptr)" by blast
  let ?w0 = "w\<lparr>sched := s1\<rparr>"
  have inv0: "pipeline_inv ?w0" using inv s1(2,3) by (simp add: pipeline_inv_def same_setup_def)
  have x0: "x \<in> set (channels (sched ?w0))" using x(1) s1(3) by (simp add: same_setup_def)
  have old: "\<forall>y\<in>queued_set (chan ?w0 x). packet_time (chan ?w0 x) y \<le> t" using past x(1) by (auto simp: past_def)
  from PopNext_ok [OF inv0 x0, of False t] old ne obtain p w' where
    p: "PopNext t x False ?w0 = Some (p, w')" "heap_front (queued_packets (chan w x)) = Some p"
    "pipeline_inv w'" "same_config s1 (sched w')" "announced s1 (sched w')"
    "\<forall>y. y \<noteq> x \<longrightarrow> chan w' y = chan w y" "same_static (chan w' x) (chan w x)"
    "free_packets (chan w' x) = free_packets (chan w x)" "queued_set (chan w' x) = queued_set (chan w x) - {p}"
    "packet_time (chan w' x) = packet_time (chan w x)"
    "\<forall>y. y \<noteq> p \<longrightarrow> op_time (chan w' x) y = op_time (chan w x) y" "op_time (chan w' x) p = t" by auto
  have pe: "p \<in> queued_set (chan w x)" using front_earliest [OF inv x(1) p(2)] by simp
  have key: "channel_key (chan w) x = packet_time (chan w x) p"
    using PeekNext_front [OF p(2)] by (rule channel_key_eq)
  have ci: "channel_inv (chan w x)" using inv x(1) by (simp add: pipeline_inv_def)
  then have "p \<in> slots (chan w x)" using pe by (auto simp: channel_inv_def)
  with ci have "p \<noteq> nullptr" by (rule slot_not_null)
  then have run: "pick_task t w = Some (Some (st, x, p), w')"
  proof -
    have "heap_set (channel_heap q) \<noteq> {}" using q(3) by (auto simp: heap_front_Some_iff heap_set_def)
    then have a: "heap_empty (state_queue ?s) = False" "assert_that (enabled q) = Some ()"
      "assert_that (\<not> heap_empty (channel_heap q)) = Some ()"
      "assert_that (single_thread_object (chan w x) = st) = Some ()" "assert_that (p \<noteq> nullptr) = Some ()"
      using ready sq(2) q(2) x(2) \<open>p \<noteq> nullptr\<close> by simp_all
    show ?thesis
      by (simp only: pick_task_def a st q(1,3) s1(1) p(1) Option.bind.simps if_False prod.case)
  qed
  have "earliest_job w x p"
    unfolding earliest_job_def
  proof (intro conjI ballI impI)
    fix y r assume y: "y \<in> set (channels ?s)" "r \<in> queued_set (chan w y)"
      "has_callback (chan w y) \<and> is_enabled ?s (single_thread_object (chan w y))"
    then have "has_job (chan w) y" by (auto simp: has_job_def)
    from least [OF y(1) this] y(3) key have "packet_time (chan w x) p \<le> channel_key (chan w) y" by simp
    also have "channel_inv (chan w y)" using inv y(1) by (simp add: pipeline_inv_def)
    then have "channel_key (chan w) y \<le> packet_time (chan w y) r"
      using PeekNext_least [of "chan w y", OF _ has_job_peek [OF \<open>has_job (chan w) y\<close>]] y(2) by simp
    finally show "packet_time (chan w x) p \<le> packet_time (chan w y) r" .
  qed (use x cb pe q in \<open>simp_all add: is_enabled_def\<close>)
  moreover have "same_setup ?s (sched w')" using s1(3) same_config_setup [OF p(4)] by (rule same_setup_trans)
  moreover have "wakes ?s (sched w')"
    using announced_wakes [OF p(5)] s1(4,5) unfolding wakes_def by fastforce
  moreover have "dom (state_queues (sched w')) = dom (state_queues ?s)" using dom_same_config [OF p(4)] s1(6) by simp
  ultimately show ?thesis
    using run p s1(7) same_config_enabled [OF p(4)] x(2)
    by (intro exI [of _ st] exI [of _ x] exI [of _ p] exI [of _ w']) simp
qed

end
