(* ===== verification/Worker_Loop.thy ===== *)
theory Worker_Loop
  imports Run_Tasks
begin

text \<open>
  The loop of \<^verbatim>\<open>SchedulerImpl::RunTasks\<close> for one worker: pick, execute, finish, until it would
  wait on the condition variable. The locale \<open>quiet_callback\<close> states what a callback that only
  consumes its packet promises; under it the loop executes every queued packet once, in the order of the
  timestamps. \<open>sink_callback\<close> is such a callback: the stub \<^verbatim>\<open>PacketToProcess\<close> that
  \<^verbatim>\<open>ScheduledChannel<T>::CallbackTranslator\<close> builds goes out of scope and releases the packet.
\<close>

subsection \<open>The loop\<close>

type_synonym callback = "time \<Rightarrow> addr \<Rightarrow> addr \<Rightarrow> pipeline \<Rightarrow> pipeline option"

text \<open>
  \<open>clk k\<close> is the clock when the k-th iteration starts. The bound \<open>n\<close> is fuel: the loop of the
  code runs until \<^verbatim>\<open>keep_running_\<close> is cleared; here it also ends where the worker would go to sleep.
\<close>

fun run_tasks :: "callback \<Rightarrow> (nat \<Rightarrow> time) \<Rightarrow> nat \<Rightarrow> nat \<Rightarrow> pipeline \<Rightarrow> ((addr \<times> addr) list \<times> pipeline) option" where
  "run_tasks cb clk 0 k w = None"
| "run_tasks cb clk (Suc n) k w =
     (if keep_running (sched w)
      then do {
        (job, w1) \<leftarrow> pick_task (clk k) w;
        (case job of
           None \<Rightarrow> Some ([], w1)
         | Some (st, x, p) \<Rightarrow> do {
             w2 \<leftarrow> Execute (cb (clk (Suc k))) (clk k) (clk (Suc k)) x p w1;
             w3 \<leftarrow> finish_task st w2;
             (js, w4) \<leftarrow> run_tasks cb clk n (Suc k) w3;
             Some ((x, p) # js, w4)
           })
      }
      else Some ([], w))"

text \<open>One iteration on its own, for a job there is.\<close>

definition iteration :: "callback \<Rightarrow> time \<Rightarrow> time \<Rightarrow> pipeline \<Rightarrow> ((addr \<times> addr) \<times> pipeline) option" where
  "iteration cb t t' w = do {
     (job, w1) \<leftarrow> pick_task t w;
     (st, x, p) \<leftarrow> job;
     w2 \<leftarrow> Execute (cb t') t t' x p w1;
     w3 \<leftarrow> finish_task st w2;
     Some ((x, p), w3)
   }"

text \<open>
  \<^verbatim>\<open>base\<close> is the \<^verbatim>\<open>Channel<T>\<close> in front of an implementation; \<open>impl\<close> gives the
  implementation it refers to.
\<close>

definition sink_callback :: "(addr \<Rightarrow> addr) \<Rightarrow> callback" where
  "sink_callback impl t base p w = ReleaseAt t (impl base) p False w"

subsection \<open>The work there is\<close>

definition jobs :: "pipeline \<Rightarrow> (addr \<times> addr) set" where
  "jobs w = {(x, p). x \<in> set (channels (sched w)) \<and> has_callback (chan w x) \<and> p \<in> queued_set (chan w x)}"

definition job_time :: "pipeline \<Rightarrow> addr \<times> addr \<Rightarrow> time" where
  "job_time w j = packet_time (chan w (fst j)) (snd j)"

lemma finite_jobs [simp]: "finite (jobs w)"
proof -
  have "jobs w \<subseteq> (\<Union>x\<in>set (channels (sched w)). (\<lambda>p. (x, p)) ` queued_set (chan w x))"
    by (auto simp: jobs_def)
  moreover have "finite (queued_set c)" for c by (simp add: queued_set_def)
  ultimately show ?thesis by (auto intro: finite_subset)
qed

text \<open>What holds between two iterations of the only busy worker.\<close>

definition idle :: "(addr \<Rightarrow> addr) \<Rightarrow> time \<Rightarrow> pipeline \<Rightarrow> bool" where
  "idle impl t w \<longleftrightarrow>
     pipeline_inv w \<and> past t w \<and> keep_running (sched w) \<and>
     (\<forall>x\<in>set (channels (sched w)).
        is_enabled (sched w) (single_thread_object (chan w x)) \<and>
        channel_base (chan w x) \<noteq> nullptr \<and> impl (channel_base (chan w x)) = x)"

lemma ready_jobs:
  assumes "idle impl t w"
  shows "ready_states (sched w) = {} \<longleftrightarrow> jobs w = {}"
proof
  assume r: "ready_states (sched w) = {}"
  show "jobs w = {}"
  proof (rule ccontr)
    assume "jobs w \<noteq> {}"
    then obtain x p where j: "x \<in> set (channels (sched w))" "has_callback (chan w x)" "p \<in> queued_set (chan w x)"
      by (auto simp: jobs_def)
    let ?st = "single_thread_object (chan w x)"
    from assms j(1) obtain q where q: "state_queues (sched w) ?st = Some q" "enabled q"
      by (auto simp: idle_def is_enabled_def)
    have "heap_set (channel_heap q) = jobs_of (chan w) (sched w) ?st"
      using assms q(1) by (simp add: idle_def pipeline_inv_def sched_inv_def heaps_inv_def)
    then have "x \<in> heap_set (channel_heap q)" using j by (auto simp: jobs_of_def has_job_def)
    with q r show False by (auto simp: ready_states_def)
  qed
next
  assume j: "jobs w = {}"
  show "ready_states (sched w) = {}"
  proof (rule ccontr)
    assume "ready_states (sched w) \<noteq> {}"
    then obtain st q x where q: "state_queues (sched w) st = Some q" "x \<in> heap_set (channel_heap q)"
      by (auto simp: ready_states_def)
    have "heap_set (channel_heap q) = jobs_of (chan w) (sched w) st"
      using assms q(1) by (simp add: idle_def pipeline_inv_def sched_inv_def heaps_inv_def)
    with q(2) obtain p where "(x, p) \<in> jobs w" by (auto simp: jobs_def jobs_of_def has_job_def)
    with j show False by simp
  qed
qed

subsection \<open>Callbacks that only consume\<close>

locale quiet_callback =
  fixes impl :: "addr \<Rightarrow> addr" and cb :: callback
  assumes quiet: "pipeline_inv w \<Longrightarrow> x \<in> set (channels (sched w)) \<Longrightarrow> impl (channel_base (chan w x)) = x \<Longrightarrow>
    in_transit w x p \<Longrightarrow> op_time (chan w x) p \<le> t \<Longrightarrow>
    \<exists>w'. cb t (channel_base (chan w x)) p w = Some w' \<and> pipeline_inv w' \<and> local_change x w w' \<and>
      queued_set (chan w' x) = queued_set (chan w x)"
begin

lemma Execute_ok:
  assumes inv: "pipeline_inv w" and x: "x \<in> set (channels (sched w))" and tr: "in_transit w x p"
    and base: "channel_base (chan w x) \<noteq> nullptr" "impl (channel_base (chan w x)) = x"
    and t: "op_time (chan w x) p \<le> t"
  shows "\<exists>w'. Execute (cb t) t1 t2 x p w = Some w' \<and> pipeline_inv w' \<and> local_change x w w' \<and>
    queued_set (chan w' x) = queued_set (chan w x)"
proof -
  from quiet [OF inv x base(2) tr t] obtain w1 where w1: "cb t (channel_base (chan w x)) p w = Some w1"
    "pipeline_inv w1" "local_change x w w1" "queued_set (chan w1 x) = queued_set (chan w x)" by blast
  let ?w2 = "set_channel x (Log (log_event EventExecuteTime (of_int (t2 - t1))) (chan w1 x)) w1"
  have ci: "channel_inv (chan w x)" using inv x by (simp add: pipeline_inv_def)
  then have "p \<noteq> nullptr" using tr slot_not_null by (auto simp: in_transit_def)
  then have "Execute (cb t) t1 t2 x p w = Some ?w2" using base(1) w1(1) by (simp add: Execute_def)
  moreover have ci1: "channel_inv (chan w1 x)"
    using w1(2) x local_change_registered [OF w1(3)] by (simp add: pipeline_inv_def)
  then have "pipeline_inv ?w2" using w1(2) by (intro pipeline_inv_set_channel) simp_all
  moreover have "local_change x w1 ?w2" by (intro local_change_set_channel) simp_all
  then have "local_change x w ?w2" using w1(3) local_change_trans by blast
  ultimately show ?thesis using w1(4) by simp
qed

text \<open>One iteration executes the earliest job and leaves a pipeline in which that job is gone.\<close>

lemma iteration_ok:
  assumes idle: "idle impl t w" and ne: "jobs w \<noteq> {}" and t': "t \<le> t'"
  shows "\<exists>j w'. iteration cb t t' w = Some (j, w') \<and> j \<in> jobs w \<and>
    (\<forall>i\<in>jobs w. job_time w j \<le> job_time w i) \<and>
    idle impl t' w' \<and> jobs w' = jobs w - {j} \<and> job_time w' = job_time w"
proof -
  let ?s = "sched w"
  have inv: "pipeline_inv w" and past: "past t w" using idle by (simp_all add: idle_def)
  have en: "is_enabled ?s (single_thread_object (chan w x)) \<and> channel_base (chan w x) \<noteq> nullptr \<and>
      impl (channel_base (chan w x)) = x" if "x \<in> set (channels ?s)" for x
    using idle that by (simp add: idle_def)
  have "ready_states ?s \<noteq> {}" using ready_jobs [OF idle] ne by simp
  from pick_task_ok [OF inv this past] obtain st x p w1 where
    pick: "pick_task t w = Some (Some (st, x, p), w1)" and ej: "earliest_job w x p"
    and st: "st = single_thread_object (chan w x)" and inv1: "pipeline_inv w1" and set1: "same_setup ?s (sched w1)"
    and en1: "\<forall>st'. is_enabled (sched w1) st' \<longleftrightarrow> is_enabled ?s st' \<and> (st' \<noteq> st \<or> st = nullptr)"
    and other1: "\<forall>y. y \<noteq> x \<longrightarrow> chan w1 y = chan w y" and static1: "same_static (chan w1 x) (chan w x)"
    and free1: "free_packets (chan w1 x) = free_packets (chan w x)"
    and queue1: "queued_set (chan w1 x) = queued_set (chan w x) - {p}"
    and time1: "packet_time (chan w1 x) = packet_time (chan w x)" and op1: "op_time (chan w1 x) p = t" by blast
  have x: "x \<in> set (channels ?s)" "p \<in> queued_set (chan w x)" "has_callback (chan w x)"
    using ej by (simp_all add: earliest_job_def)
  have chs1: "channels (sched w1) = channels ?s" using set1 by (simp add: same_setup_def)
  have "channel_inv (chan w x)" using inv x(1) by (simp add: pipeline_inv_def)
  then have tr: "in_transit w1 x p"
    using x(2) free1 queue1 same_staticD(3) [OF static1] by (auto simp: in_transit_def channel_inv_def)
  have base1: "channel_base (chan w1 x) = channel_base (chan w x)" using static1 by (simp add: same_static_def)
  from Execute_ok [OF inv1 _ tr, of t' t t'] chs1 x(1) base1 en [OF x(1)] op1 t' obtain w2 where
    exec: "Execute (cb t') t t' x p w1 = Some w2" and inv2: "pipeline_inv w2" and loc2: "local_change x w1 w2"
    and queue2: "queued_set (chan w2 x) = queued_set (chan w1 x)" by auto
  have sc2: "same_config (sched w1) (sched w2)" using loc2 by (simp add: local_change_def)
  note en2 = same_config_enabled [OF sc2]
  have obj2: "single_thread_object (chan w2 y) = single_thread_object (chan w y)" "has_callback (chan w2 y) = has_callback (chan w y)"
    "channel_base (chan w2 y) = channel_base (chan w y)" "packet_time (chan w2 y) = packet_time (chan w y)"
    "queued_set (chan w2 y) = (if y = x then queued_set (chan w x) - {p} else queued_set (chan w y))" for y
    using loc2 other1 static1 time1 queue1 queue2 by (cases "y = x"; simp add: local_change_def same_static_def)+
  have "\<exists>w3. finish_task st w2 = Some w3 \<and> pipeline_inv w3 \<and> same_setup (sched w2) (sched w3) \<and> chan w3 = chan w2 \<and>
      (\<forall>st'. is_enabled (sched w3) st' \<longleftrightarrow> is_enabled (sched w2) st' \<or> st' = st)"
  proof (cases "st = nullptr")
    case True
    have "is_enabled (sched w2) st" using en2 en1 en [OF x(1)] st True by simp
    with True inv2 show ?thesis by (auto simp: finish_task_def)
  next
    case False
    have hi: "heaps_inv (chan w2) (sched w2)" using inv2 by (simp add: pipeline_inv_def sched_inv_def)
    have "x \<in> set (channels (sched w2))" using chs1 local_change_registered [OF loc2] x(1) by simp
    with hi obtain q where q: "state_queues (sched w2) st = Some q"
      using st obj2(1) by (auto simp: heaps_inv_def)
    have "\<not> is_enabled (sched w2) st" using en2 en1 False by simp
    then have "\<not> enabled q" using q by (auto simp: is_enabled_def)
    from finish_task_ok [OF inv2 q this] False show ?thesis by auto
  qed
  then obtain w3 where w3: "finish_task st w2 = Some w3" "pipeline_inv w3" "same_setup (sched w2) (sched w3)"
    "chan w3 = chan w2" "\<And>st'. is_enabled (sched w3) st' \<longleftrightarrow> is_enabled (sched w2) st' \<or> st' = st" by blast
  have set3: "same_setup ?s (sched w3)"
    using set1 same_config_setup [OF sc2] w3(3) same_setup_trans by blast
  then have chs3: "channels (sched w3) = channels ?s" "keep_running (sched w3) = keep_running ?s"
    by (simp_all add: same_setup_def)
  have "iteration cb t t' w = Some ((x, p), w3)" using pick exec w3(1) by (simp add: iteration_def)
  moreover have "(x, p) \<in> jobs w" using x by (simp add: jobs_def)
  moreover have "\<forall>i\<in>jobs w. job_time w (x, p) \<le> job_time w i"
    using ej en by (auto simp: earliest_job_def jobs_def job_time_def)
  moreover have "jobs w3 = jobs w - {(x, p)}"
    using chs3 obj2 w3(4) by (auto simp: jobs_def split: if_splits)
  moreover have "job_time w3 = job_time w" using obj2(4) w3(4) by (simp add: job_time_def fun_eq_iff)
  moreover have "past t' w3"
    unfolding past_def
  proof (intro ballI)
    fix y r assume "y \<in> set (channels (sched w3))" "r \<in> queued_set (chan w3 y)"
    then have "y \<in> set (channels ?s)" "r \<in> queued_set (chan w y)"
      using chs3 obj2(5) w3(4) by (auto split: if_splits)
    from pastD [OF past this] t' show "packet_time (chan w3 y) r \<le> t'" using obj2(4) w3(4) by simp
  qed
  moreover have "\<forall>y\<in>set (channels (sched w3)).
        is_enabled (sched w3) (single_thread_object (chan w3 y)) \<and>
        channel_base (chan w3 y) \<noteq> nullptr \<and> impl (channel_base (chan w3 y)) = y"
    using chs3 obj2(1,3) w3(4,5) en en1 en2 by auto
  moreover have "keep_running (sched w3)" using chs3 idle by (simp add: idle_def)
  ultimately show ?thesis using w3(2) unfolding idle_def by blast
qed

lemma run_tasks_iteration:
  assumes "idle impl (clk k) w" and "jobs w \<noteq> {}" and "iteration cb (clk k) (clk (Suc k)) w = Some (j, w')"
  shows "run_tasks cb clk (Suc n) k w =
    do { (js, w4) \<leftarrow> run_tasks cb clk n (Suc k) w'; Some (j # js, w4) }"
proof -
  have "keep_running (sched w)" using assms(1) by (simp add: idle_def)
  with assms(3) show ?thesis
    by (auto simp: iteration_def bind_eq_Some_conv split: option.splits)
qed

lemma run_tasks_drains:
  assumes "idle impl (clk k) w" and "mono clk" and "card (jobs w) < n"
  shows "\<exists>js w'. run_tasks cb clk n k w = Some (js, w') \<and> set js = jobs w \<and> distinct js \<and>
    sorted (map (job_time w) js) \<and> jobs w' = {} \<and> pipeline_inv w'"
  using assms
proof (induction n arbitrary: k w)
  case 0
  then show ?case by simp
next
  case (Suc n)
  show ?case
  proof (cases "jobs w = {}")
    case True
    have inv: "pipeline_inv w" "keep_running (sched w)" using Suc.prems(1) by (simp_all add: idle_def)
    have "ready_states (sched w) = {}" using True ready_jobs [OF Suc.prems(1)] by simp
    from pick_none [OF this inv(1)] inv True show ?thesis by simp
  next
    case False
    have "clk k \<le> clk (Suc k)" using Suc.prems(2) by (simp add: monoD)
    from iteration_ok [OF Suc.prems(1) False this] obtain j w1 where
      j: "iteration cb (clk k) (clk (Suc k)) w = Some (j, w1)" "j \<in> jobs w"
      "\<forall>i\<in>jobs w. job_time w j \<le> job_time w i" "idle impl (clk (Suc k)) w1" "jobs w1 = jobs w - {j}"
      "job_time w1 = job_time w" by blast
    have "card (jobs w1) < card (jobs w)" unfolding j(5) by (rule card_Diff1_less) (use j(2) in simp_all)
    with Suc.prems(3) have "card (jobs w1) < n" by simp
    from Suc.IH [OF j(4) Suc.prems(2) this] obtain js w' where
      js: "run_tasks cb clk n (Suc k) w1 = Some (js, w')" "set js = jobs w1" "distinct js"
      "sorted (map (job_time w1) js)" "jobs w' = {}" "pipeline_inv w'" by blast
    have "run_tasks cb clk (Suc n) k w = Some (j # js, w')"
      using run_tasks_iteration [OF Suc.prems(1) False j(1)] js(1) by simp
    moreover have "sorted (map (job_time w) (j # js))" using js(2,4) j(3,5,6) by auto
    ultimately show ?thesis using js j(2,5) by (intro exI [of _ "j # js"] exI [of _ w']) auto
  qed
qed

end

interpretation sink: quiet_callback impl "sink_callback impl" for impl
proof unfold_locales
  fix w x p t
  assume inv: "pipeline_inv w" and x: "x \<in> set (channels (sched w))"
    and impl: "impl (channel_base (chan w x)) = x" and tr: "in_transit w x p" and t: "op_time (chan w x) p \<le> t"
  from ReleaseAt_ok [OF inv x tr, of False t] t obtain c where
    "ReleaseAt t x p False w = Some (set_channel x c w)" "pipeline_inv (set_channel x c w)"
    "same_static c (chan w x)" "queued_set c = queued_set (chan w x)" "packet_time c = packet_time (chan w x)" by auto
  then show "\<exists>w'. sink_callback impl t (channel_base (chan w x)) p w = Some w' \<and> pipeline_inv w' \<and>
      local_change x w w' \<and> queued_set (chan w' x) = queued_set (chan w x)"
    using impl by (simp add: sink_callback_def local_change_set_channel)
qed

end
