(* ===== verification/Concurrency.thy ===== *)
theory Concurrency
  imports Worker_Loop
begin

text \<open>
  The running system as a step relation: the workers of the scheduler and any number of user threads.
  Each rule is one section that the code runs under a mutex (or one that touches nothing shared), so
  the steps of different threads interleave freely. The condition variable is modelled by the program
  counters: a notification makes one waiting worker (if there is one) go for the mutex again, and a
  worker may also wake up for no reason.

  \<open>held\<close> says what the thread that has a packet out of the pool is doing with it. \<open>stopping\<close> is
  set while the thread in Stop has cleared the flag, under the mutex, and not yet called \<^verbatim>\<open>notify_all\<close>.
\<close>

subsection \<open>State\<close>

datatype worker_pc =
    Idle
  | Locking
  | Waiting
  | Executing (exec_state: addr) (exec_channel: addr) (exec_packet: addr)
  | Exited

datatype holder = Filling | Processing | Dropping

record world =
  pipe :: pipeline
  pcs :: "nat \<Rightarrow> worker_pc"
  held :: "addr \<Rightarrow> addr \<Rightarrow> holder option"
  now :: time
  stopping :: bool

definition hold :: "addr \<Rightarrow> addr \<Rightarrow> holder option \<Rightarrow> world \<Rightarrow> world" where
  "hold x p h W = W\<lparr>held := (held W)(x := (held W x)(p := h))\<rparr>"

definition worker_count :: "world \<Rightarrow> nat" where
  "worker_count W = workers (sched (pipe W))"

definition registered :: "world \<Rightarrow> addr set" where
  "registered W = set (channels (sched (pipe W)))"

inductive wake_one :: "nat \<Rightarrow> (nat \<Rightarrow> worker_pc) \<Rightarrow> (nat \<Rightarrow> worker_pc) \<Rightarrow> bool" where
  nobody: "(\<forall>i<n. pc i \<noteq> Waiting) \<Longrightarrow> wake_one n pc pc"
| someone: "i < n \<Longrightarrow> pc i = Waiting \<Longrightarrow> wake_one n pc (pc(i := Locking))"

text \<open>Delivery of what a section has sent to the condition variable.\<close>

definition delivered :: "nat \<Rightarrow> scheduler \<Rightarrow> scheduler \<Rightarrow> (nat \<Rightarrow> worker_pc) \<Rightarrow> (nat \<Rightarrow> worker_pc) \<Rightarrow> bool" where
  "delivered n s s' pc pc' \<longleftrightarrow> (if effects s' = effects s then pc' = pc else wake_one n pc pc')"

definition clear_keep_running :: "pipeline \<Rightarrow> pipeline" where
  "clear_keep_running w = w\<lparr>sched := (sched w)\<lparr>keep_running := False\<rparr>\<rparr>"

subsection \<open>Steps\<close>

inductive step :: "world \<Rightarrow> world \<Rightarrow> bool" where
  tick: "now W \<le> t \<Longrightarrow> t < kMaxTime \<Longrightarrow> step W (W\<lparr>now := t\<rparr>)"
| loop_check:
    "i < worker_count W \<Longrightarrow> pcs W i = Idle \<Longrightarrow>
     step W (W\<lparr>pcs := (pcs W)(i := if keep_running (sched (pipe W)) then Locking else Exited)\<rparr>)"
| sleep:
    "i < worker_count W \<Longrightarrow> pcs W i = Locking \<Longrightarrow> keep_running (sched (pipe W)) \<Longrightarrow>
     heap_empty (state_queue (sched (pipe W))) \<Longrightarrow> step W (W\<lparr>pcs := (pcs W)(i := Waiting)\<rparr>)"
| spurious:
    "i < worker_count W \<Longrightarrow> pcs W i = Waiting \<Longrightarrow> step W (W\<lparr>pcs := (pcs W)(i := Locking)\<rparr>)"
| pick_nothing:
    "i < worker_count W \<Longrightarrow> pcs W i = Locking \<Longrightarrow> \<not> keep_running (sched (pipe W)) \<Longrightarrow>
     pick_task (now W) (pipe W) = Some (None, w') \<Longrightarrow>
     step W (W\<lparr>pipe := w', pcs := (pcs W)(i := Idle)\<rparr>)"
| pick:
    "i < worker_count W \<Longrightarrow> pcs W i = Locking \<Longrightarrow>
     pick_task (now W) (pipe W) = Some (Some (st, x, p), w') \<Longrightarrow>
     delivered (worker_count W) (sched (pipe W)) (sched w') ((pcs W)(i := Executing st x p)) pc' \<Longrightarrow>
     step W (hold x p (Some Processing) (W\<lparr>pipe := w', pcs := pc'\<rparr>))"
| finish:
    "i < worker_count W \<Longrightarrow> pcs W i = Executing st x p \<Longrightarrow>
     finish_task st (set_channel x (Log (log_event EventExecuteTime d) (chan (pipe W) x)) (pipe W)) = Some w' \<Longrightarrow>
     step W (W\<lparr>pipe := w', pcs := (pcs W)(i := Idle)\<rparr>)"
| take:
    "x \<in> registered W \<Longrightarrow> take_free (chan (pipe W) x) = (Some p, c) \<Longrightarrow>
     step W (hold x p (Some Filling)
       (W\<lparr>pipe := set_channel x (construct_packet ts p (stamp_operation (now W) p c)) (pipe W)\<rparr>))"
| drop:
    "x \<in> registered W \<Longrightarrow> GetNext (now W) x True (pipe W) = Some (Some p, w') \<Longrightarrow>
     delivered (worker_count W) (sched (pipe W)) (sched w') (pcs W) pc' \<Longrightarrow>
     step W (hold x p (Some Dropping) (W\<lparr>pipe := w', pcs := pc'\<rparr>))"
| dropped:
    "x \<in> registered W \<Longrightarrow> held W x p = Some Dropping \<Longrightarrow>
     ReleaseAt (now W) x p True (pipe W) = Some w' \<Longrightarrow>
     step W (hold x p None (W\<lparr>pipe := w'\<rparr>))"
| push:
    "x \<in> registered W \<Longrightarrow> held W x p = Some Filling \<Longrightarrow>
     op_time (chan (pipe W) x) p \<le> t \<Longrightarrow> packet_time (chan (pipe W) x) p \<le> t \<Longrightarrow> t \<le> now W \<Longrightarrow>
     Push t x p (pipe W) = Some w' \<Longrightarrow>
     delivered (worker_count W) (sched (pipe W)) (sched w') (pcs W) pc' \<Longrightarrow>
     step W (hold x p None (W\<lparr>pipe := w', pcs := pc'\<rparr>))"
| poll:
    "x \<in> registered W \<Longrightarrow> GetNext (now W) x False (pipe W) = Some (Some p, w') \<Longrightarrow>
     delivered (worker_count W) (sched (pipe W)) (sched w') (pcs W) pc' \<Longrightarrow>
     step W (hold x p (Some Processing) (W\<lparr>pipe := w', pcs := pc'\<rparr>))"
| release:
    "x \<in> registered W \<Longrightarrow> held W x p = Some Processing \<Longrightarrow>
     op_time (chan (pipe W) x) p \<le> t \<Longrightarrow> t \<le> now W \<Longrightarrow>
     ReleaseAt t x p False (pipe W) = Some w' \<Longrightarrow>
     step W (hold x p None (W\<lparr>pipe := w'\<rparr>))"
| log:
    "x \<in> registered W \<Longrightarrow> step W (W\<lparr>pipe := set_channel x (Log e (chan (pipe W) x)) (pipe W)\<rparr>)"
| stop_request:
    "keep_running (sched (pipe W)) \<Longrightarrow> step W (W\<lparr>pipe := clear_keep_running (pipe W), stopping := True\<rparr>)"
| stop_notify:
    "stopping W \<Longrightarrow>
     step W (W\<lparr>pcs := (\<lambda>i. if pcs W i = Waiting then Locking else pcs W i), stopping := False\<rparr>)"

subsection \<open>The invariant\<close>

definition ownership :: "world \<Rightarrow> bool" where
  "ownership W \<longleftrightarrow> (\<forall>x\<in>registered W. \<forall>p. in_transit (pipe W) x p \<longleftrightarrow> held W x p \<noteq> None)"

definition clock_inv :: "world \<Rightarrow> bool" where
  "clock_inv W \<longleftrightarrow>
     past (now W) (pipe W) \<and> now W < kMaxTime \<and>
     (\<forall>x\<in>registered W. \<forall>p. held W x p \<in> {Some Filling, Some Processing} \<longrightarrow>
        op_time (chan (pipe W) x) p \<le> now W)"

text \<open>
  The system right after Start: no worker has done anything yet, every state may be serviced. User
  threads may already have packets in their hands.
\<close>

definition started :: "world \<Rightarrow> bool" where
  "started W \<longleftrightarrow>
     pipeline_inv (pipe W) \<and> keep_running (sched (pipe W)) \<and> 0 < worker_count W \<and>
     (\<forall>i. pcs W i = Idle) \<and> \<not> stopping W \<and> ownership W \<and> clock_inv W \<and>
     (\<forall>st q. state_queues (sched (pipe W)) st = Some q \<longrightarrow> enabled q)"

inductive reachable :: "world \<Rightarrow> bool" where
  start: "started W \<Longrightarrow> reachable W"
| step: "reachable W \<Longrightarrow> step W W' \<Longrightarrow> reachable W'"

text \<open>A state is disabled exactly while one worker services it; the null state never is.\<close>

definition servicing :: "world \<Rightarrow> nat \<Rightarrow> addr \<Rightarrow> bool" where
  "servicing W i st \<longleftrightarrow> i < worker_count W \<and> (\<exists>x p. pcs W i = Executing st x p)"

definition exclusion :: "world \<Rightarrow> bool" where
  "exclusion W \<longleftrightarrow>
     (\<forall>i j st. servicing W i st \<longrightarrow> servicing W j st \<longrightarrow> st \<noteq> nullptr \<longrightarrow> i = j) \<and>
     (\<forall>st\<in>dom (state_queues (sched (pipe W))).
        is_enabled (sched (pipe W)) st \<longleftrightarrow> st = nullptr \<or> (\<forall>i. \<not> servicing W i st))"

definition assignment :: "world \<Rightarrow> bool" where
  "assignment W \<longleftrightarrow>
     (\<forall>i<worker_count W. \<forall>st x p. pcs W i = Executing st x p \<longrightarrow>
        x \<in> registered W \<and> single_thread_object (chan (pipe W) x) = st)"

definition awake :: "worker_pc \<Rightarrow> bool" where
  "awake pc \<longleftrightarrow> pc \<noteq> Waiting \<and> pc \<noteq> Exited"

definition no_stall :: "world \<Rightarrow> bool" where
  "no_stall W \<longleftrightarrow>
     (if keep_running (sched (pipe W))
      then 0 < worker_count W \<and> (\<forall>i<worker_count W. pcs W i \<noteq> Exited) \<and>
           (ready_states (sched (pipe W)) \<noteq> {} \<longrightarrow> (\<exists>i<worker_count W. awake (pcs W i)))
      else stopping W \<or> (\<forall>i<worker_count W. pcs W i \<noteq> Waiting))"

definition world_inv :: "world \<Rightarrow> bool" where
  "world_inv W \<longleftrightarrow> pipeline_inv (pipe W) \<and> ownership W \<and> clock_inv W \<and> assignment W \<and> exclusion W \<and> no_stall W"

end
