(* ===== verification/Concurrency_Inv.thy ===== *)
theory Concurrency_Inv
  imports Concurrency
begin

text \<open>
  The invariant of the running system: every step of \<open>Concurrency\<close> keeps it, so every reachable
  state has it. The sections' own lemmas (\<open>Push_ok\<close>, \<open>pick_task_ok\<close>, ...) carry the proof;
  what is left is who holds which packet and which worker is awake.
\<close>

inductive_cases wake_oneE: "wake_one n pc pc'"
inductive_cases stepE: "step W W'"

inductive_simps wake_one_simps: "wake_one n pc pc'"

subsection \<open>Program counters\<close>

lemma delivered_pcs:
  assumes "delivered n s s' pc pc'"
  shows "pc' i = pc i \<or> pc i = Waiting \<and> pc' i = Locking"
proof (cases "effects s' = effects s")
  case True
  with assms show ?thesis by (simp add: delivered_def)
next
  case False
  with assms have "wake_one n pc pc'" by (simp add: delivered_def)
  then show ?thesis by (auto elim!: wake_oneE split: if_splits)
qed

lemma delivered_Executing: "delivered n s s' pc pc' \<Longrightarrow> pc' i = Executing st x p \<longleftrightarrow> pc i = Executing st x p"
  using delivered_pcs [of n s s' pc pc' i] by auto

lemma delivered_Exited: "delivered n s s' pc pc' \<Longrightarrow> pc' i = Exited \<longleftrightarrow> pc i = Exited"
  using delivered_pcs [of n s s' pc pc' i] by auto

lemma delivered_Waiting: "delivered n s s' pc pc' \<Longrightarrow> pc' i = Waiting \<Longrightarrow> pc i = Waiting"
  using delivered_pcs [of n s s' pc pc' i] by auto

lemma delivered_awake: "delivered n s s' pc pc' \<Longrightarrow> awake (pc i) \<Longrightarrow> awake (pc' i)"
  using delivered_pcs [of n s s' pc pc' i] by (auto simp: awake_def)

lemma wake_one_awake:
  assumes "wake_one n pc pc'" and "0 < n" and "\<forall>i<n. pc i \<noteq> Exited"
  shows "\<exists>i<n. awake (pc' i)"
  using assms(1)
proof cases
  case nobody
  with assms(2,3) show ?thesis by (auto simp: awake_def)
next
  case (someone i)
  then show ?thesis by (auto simp: awake_def)
qed

lemma wakes_cases:
  assumes "wakes s s'"
  obtains "effects s' = effects s" "ready_states s' \<subseteq> ready_states s" | "effects s' \<noteq> effects s"
  using assms by (auto simp: wakes_def)

lemma ready_awake:
  assumes "wakes s s'" and del: "delivered n s s' pc pc'" and "0 < n" and "\<forall>i<n. pc i \<noteq> Exited"
    and "ready_states s \<noteq> {} \<longrightarrow> (\<exists>i<n. awake (pc i))" and "ready_states s' \<noteq> {}"
  shows "\<exists>i<n. awake (pc' i)"
  using assms(1)
proof (cases rule: wakes_cases)
  case 1
  with assms(5,6) obtain i where "i < n" "awake (pc i)" by blast
  with delivered_awake [OF del] show ?thesis by blast
next
  case 2
  with del have "wake_one n pc pc'" by (simp add: delivered_def)
  then show ?thesis using assms(3,4) by (rule wake_one_awake)
qed

lemma hold_simps [simp]:
  "pipe (hold x p h W) = pipe W" "pcs (hold x p h W) = pcs W" "now (hold x p h W) = now W" "stopping (hold x p h W) = stopping W"
  "held (hold x p h W) y q = (if y = x \<and> q = p then h else held W y q)"
  by (simp_all add: hold_def)

lemma worker_count_hold [simp]: "worker_count (hold x p h W) = worker_count W"
  by (simp add: worker_count_def)

lemma no_stall_delivered:
  assumes ns: "no_stall W" and wk: "wakes (sched (pipe W)) (sched w')"
    and su: "same_setup (sched (pipe W)) (sched w')"
    and del: "delivered (worker_count W) (sched (pipe W)) (sched w') pc pc'"
    and pc: "\<And>i. i < worker_count W \<Longrightarrow> pc i \<noteq> pcs W i \<Longrightarrow> awake (pc i)"
  shows "no_stall (hold x p h (W\<lparr>pipe := w', pcs := pc'\<rparr>))"
proof -
  let ?n = "worker_count W" and ?s = "sched (pipe W)"
  have eq: "workers (sched w') = ?n" "keep_running (sched w') = keep_running ?s"
    using su by (simp_all add: same_setup_def worker_count_def)
  show ?thesis
  proof (cases "keep_running ?s")
    case True
    with ns have n: "0 < ?n" and old: "\<forall>i<?n. pcs W i \<noteq> Exited" "ready_states ?s \<noteq> {} \<longrightarrow> (\<exists>i<?n. awake (pcs W i))"
      by (simp_all add: no_stall_def)
    have ex: "\<forall>i<?n. pc i \<noteq> Exited" using old(1) pc by (force simp: awake_def)
    have "\<exists>i<?n. awake (pc i)" if "ready_states ?s \<noteq> {}" using that old(2) pc by metis
    then have "\<exists>i<?n. awake (pc' i)" if "ready_states (sched w') \<noteq> {}"
      using ready_awake [OF wk del n ex] that by blast
    moreover have "\<forall>i<?n. pc' i \<noteq> Exited" using ex delivered_Exited [OF del] by blast
    ultimately show ?thesis using True n eq by (simp add: no_stall_def worker_count_def)
  next
    case False
    with ns have "stopping W \<or> (\<forall>i<?n. pcs W i \<noteq> Waiting)" by (simp add: no_stall_def)
    then have "stopping W \<or> (\<forall>i<?n. pc i \<noteq> Waiting)" using pc by (force simp: awake_def)
    then have "stopping W \<or> (\<forall>i<?n. pc' i \<noteq> Waiting)" using delivered_Waiting [OF del] by blast
    with False eq show ?thesis by (simp add: no_stall_def worker_count_def)
  qed
qed

subsection \<open>Steps that change one channel\<close>

lemma exclusion_local:
  assumes ex: "exclusion W" and sc: "same_config (sched (pipe W)) (sched w')"
    and del: "delivered (worker_count W) (sched (pipe W)) (sched w') (pcs W) pc'"
  shows "exclusion (hold x p h (W\<lparr>pipe := w', pcs := pc'\<rparr>))"
proof -
  let ?W = "hold x p h (W\<lparr>pipe := w', pcs := pc'\<rparr>)"
  have "worker_count ?W = worker_count W" using sc by (simp add: worker_count_def same_config_def)
  then have "servicing ?W i st = servicing W i st" for i st
    using delivered_Executing [OF del] by (simp add: servicing_def)
  then show ?thesis
    using ex dom_same_config [OF sc] same_config_enabled [OF sc] by (simp add: exclusion_def)
qed

text \<open>
  A section that changes channel \<open>x\<close> and hands packet \<open>p\<close> from or to a thread.
\<close>

lemma world_inv_local:
  assumes inv: "world_inv W" and inv': "pipeline_inv w'"
    and sc: "same_config (sched (pipe W)) (sched w')" and wk: "wakes (sched (pipe W)) (sched w')"
    and other: "\<forall>y. y \<noteq> x \<longrightarrow> chan w' y = chan (pipe W) y"
    and st: "same_static (chan w' x) (chan (pipe W) x)"
    and del: "delivered (worker_count W) (sched (pipe W)) (sched w') (pcs W) pc'"
    and tr: "\<And>q. in_transit w' x q \<longleftrightarrow> (if q = p then h \<noteq> None else in_transit (pipe W) x q)"
    and past: "past (now W) w'"
    and op: "\<And>q. q \<noteq> p \<Longrightarrow> op_time (chan w' x) q = op_time (chan (pipe W) x) q"
      "h \<in> {Some Filling, Some Processing} \<Longrightarrow> op_time (chan w' x) p \<le> now W"
  shows "world_inv (hold x p h (W\<lparr>pipe := w', pcs := pc'\<rparr>))"
proof -
  let ?W = "hold x p h (W\<lparr>pipe := w', pcs := pc'\<rparr>)"
  have reg: "registered ?W = registered W" using sc by (simp add: registered_def same_config_def)
  have tr': "in_transit w' y q = in_transit (pipe W) y q" if "y \<noteq> x" for y q
    using other that by (simp add: in_transit_def)
  have "ownership ?W"
    unfolding ownership_def reg
  proof (intro ballI allI)
    fix y q assume "y \<in> registered W"
    with inv have "in_transit (pipe W) y q \<longleftrightarrow> held W y q \<noteq> None" by (simp add: world_inv_def ownership_def)
    then show "in_transit (pipe ?W) y q \<longleftrightarrow> held ?W y q \<noteq> None" using tr [of q] tr' [of y q] by (cases "y = x") auto
  qed
  moreover have "op_time (chan w' y) q \<le> now W" if "y \<in> registered W" "held ?W y q \<in> {Some Filling, Some Processing}" for y q
  proof (cases "y = x \<and> q = p")
    case True
    with that op(2) show ?thesis by simp
  next
    case False
    with that inv have "op_time (chan (pipe W) y) q \<le> now W" by (auto simp: world_inv_def clock_inv_def)
    then show ?thesis using False op(1) [of q] other by (cases "y = x") auto
  qed
  then have "clock_inv ?W"
    using inv past by (auto simp: world_inv_def clock_inv_def reg)
  moreover have "single_thread_object (chan w' y) = single_thread_object (chan (pipe W) y)" for y
    using other same_staticD(1) [OF st] by (cases "y = x") simp_all
  then have "assignment ?W"
    using inv delivered_Executing [OF del] sc
    by (auto simp: world_inv_def assignment_def reg worker_count_def same_config_def)
  moreover have "exclusion ?W" using inv sc del by (auto simp: world_inv_def intro: exclusion_local)
  moreover have "no_stall ?W"
    using no_stall_delivered [OF _ wk same_config_setup [OF sc] del] inv by (simp add: world_inv_def)
  ultimately show ?thesis using inv' by (simp add: world_inv_def)
qed

lemma delivered_same: "delivered n s s pc pc" by (simp add: delivered_def)

lemma past_local:
  assumes "past t w" "x \<in> set (channels (sched w))" "channels (sched w') = channels (sched w)"
    and "\<forall>y. y \<noteq> x \<longrightarrow> chan w' y = chan w y"
    and "\<And>q. q \<in> queued_set (chan w' x) \<Longrightarrow> packet_time (chan w' x) q \<le> t"
  shows "past t w'"
  unfolding past_def
proof (intro ballI)
  fix y q assume "y \<in> set (channels (sched w'))" "q \<in> queued_set (chan w' y)"
  with assms show "packet_time (chan w' y) q \<le> t" by (cases "y = x") (auto simp: past_def)
qed

lemma world_invD:
  assumes "world_inv W"
  shows "pipeline_inv (pipe W)" "past (now W) (pipe W)" "now W < kMaxTime"
    "x \<in> registered W \<Longrightarrow> in_transit (pipe W) x p \<longleftrightarrow> held W x p \<noteq> None"
    "x \<in> registered W \<Longrightarrow> held W x p \<in> {Some Filling, Some Processing} \<Longrightarrow> op_time (chan (pipe W) x) p \<le> now W"
  using assms by (auto simp: world_inv_def ownership_def clock_inv_def)

lemma registered_inv: "world_inv W \<Longrightarrow> x \<in> registered W \<Longrightarrow> channel_inv (chan (pipe W) x)"
  by (simp add: world_inv_def pipeline_inv_def registered_def)


lemma step_take:
  assumes inv: "world_inv W" and x: "x \<in> registered W" and take: "take_free (chan (pipe W) x) = (Some p, c)"
  shows "world_inv (hold x p (Some Filling)
       (W\<lparr>pipe := set_channel x (construct_packet ts p (stamp_operation (now W) p c)) (pipe W)\<rparr>))"
proof -
  let ?w = "pipe W"
  have pinv: "pipeline_inv ?w" and xs: "x \<in> set (channels (sched ?w))"
    using inv x by (simp_all add: world_inv_def registered_def)
  from take have ne: "free_packets (chan ?w x) \<noteq> []" by (auto simp: take_free_def split: if_splits)
  then obtain fs f where free: "free_packets (chan ?w x) = fs @ [f]" by (metis append_butlast_last_id)
  with take have c: "f = p" "c = (chan ?w x)\<lparr>free_packets := fs\<rparr>" by (auto simp: take_free_def)
  note t1 = take_free_ok [OF pinv xs free]
  let ?c = "construct_packet ts p (stamp_operation (now W) p c)"
  have st: "same_static c (chan ?w x)" by (simp add: c same_static_def)
  then have st': "same_static ?c (chan ?w x)" by (meson construct_frame(3) stamp_frame(4) same_static_trans)
  have ci: "channel_inv c" using t1(2) xs by (force simp: pipeline_inv_def c(2))
  have old: "channel_inv (chan ?w x)" using pinv xs by (simp add: pipeline_inv_def)
  have qs: "queued_set c = queued_set (chan ?w x)" by (simp add: c queued_set_def)
  have pn: "p \<notin> queued_set c" using old free c by (auto simp: channel_inv_def queued_set_def)
  have pk: "PeekNext ?c = PeekNext (chan ?w x)"
    using ci pn by (simp add: PeekNext_construct) (simp add: c PeekNext_def)
  have new: "pipeline_inv (set_channel x ?c ?w)"
    using pinv ci pn st' pk by (intro pipeline_inv_set_channel) (simp_all add: channel_inv_construct)
  have "world_inv (hold x p (Some Filling) (W\<lparr>pipe := set_channel x ?c ?w, pcs := pcs W\<rparr>))"
  proof (rule world_inv_local [OF inv new])
    show "delivered (worker_count W) (sched ?w) (sched (set_channel x ?c ?w)) (pcs W) (pcs W)"
      by (simp add: delivered_same)
    have sl: "slots ?c = slots (chan ?w x)" using same_staticD(3) [OF st'] .
    have pf: "p \<in> slots (chan ?w x)" "p \<notin> set fs" using old free c(1) by (auto simp: channel_inv_def)
    show "in_transit (set_channel x ?c ?w) x q \<longleftrightarrow> (if q = p then Some Filling \<noteq> None else in_transit ?w x q)" for q
      using pf pn free c(1) sl qs by (auto simp: in_transit_def c(2) simp del: construct_frame(4) stamp_frame(7))
    show "past (now W) (set_channel x ?c ?w)"
    proof (rule past_local [OF world_invD(2) [OF inv] xs])
      fix q assume q: "q \<in> queued_set (chan (set_channel x ?c ?w) x)"
      then have "q \<noteq> p" "q \<in> queued_set (chan ?w x)" using pn qs by auto
      then show "packet_time (chan (set_channel x ?c ?w) x) q \<le> now W"
        using pastD [OF world_invD(2) [OF inv] xs] by (simp add: construct_packet_def c(2))
    qed simp_all
  qed (simp_all add: c(2) stamp_operation_def, use st' c(2) in \<open>simp add: stamp_operation_def\<close>)
  then show ?thesis by simp
qed

lemma step_GetNext:
  assumes inv: "world_inv W" and x: "x \<in> registered W" and h: "dropping \<longleftrightarrow> h = Dropping"
    and get: "GetNext (now W) x dropping (pipe W) = Some (Some p, w')"
    and del: "delivered (worker_count W) (sched (pipe W)) (sched w') (pcs W) pc'"
  shows "world_inv (hold x p (Some h) (W\<lparr>pipe := w', pcs := pc'\<rparr>))"
proof -
  let ?w = "pipe W"
  have pinv: "pipeline_inv ?w" and xs: "x \<in> set (channels (sched ?w))" and pst: "past (now W) ?w"
    using inv x by (simp_all add: world_inv_def registered_def clock_inv_def)
  have ne: "queued_set (chan ?w x) \<noteq> {}" using get by (auto simp: GetNext_def queued_set_def split: if_splits)
  have old: "dropping \<or> (\<forall>y\<in>queued_set (chan ?w x). packet_time (chan ?w x) y \<le> now W)"
    using pst xs by (auto simp: past_def)
  from PopNext_ok [OF pinv xs ne old] get obtain q where
    w': "heap_front (queued_packets (chan ?w x)) = Some q" "q = p" "pipeline_inv w'"
    "same_config (sched ?w) (sched w')" "announced (sched ?w) (sched w')"
    "\<forall>y. y \<noteq> x \<longrightarrow> chan w' y = chan ?w y" "same_static (chan w' x) (chan ?w x)"
    "free_packets (chan w' x) = free_packets (chan ?w x)" "queued_set (chan w' x) = queued_set (chan ?w x) - {p}"
    "packet_time (chan w' x) = packet_time (chan ?w x)"
    "\<forall>y. y \<noteq> p \<longrightarrow> op_time (chan w' x) y = op_time (chan ?w x) y"
    "if dropping then op_time (chan w' x) p = op_time (chan ?w x) p else op_time (chan w' x) p = now W"
    by (auto simp: GetNext_PopNext [OF ne])
  have ci: "channel_inv (chan ?w x)" using pinv xs by (simp add: pipeline_inv_def)
  have pq: "p \<in> queued_set (chan ?w x)" using front_earliest [OF pinv xs w'(1)] w'(2) by simp
  show ?thesis
  proof (rule world_inv_local [OF inv w'(3,4) announced_wakes [OF w'(5)] w'(6,7) del])
    have sl: "slots (chan w' x) = slots (chan ?w x)" using same_staticD(3) [OF w'(7)] .
    show "in_transit w' x q \<longleftrightarrow> (if q = p then Some h \<noteq> None else in_transit ?w x q)" for q
      using ci pq by (auto simp: in_transit_def sl w'(8,9) channel_inv_def)
    show "past (now W) w'"
      using w'(4,9,10) pastD [OF pst xs] by (intro past_local [OF pst xs _ w'(6)]) (auto simp: same_config_def)
  qed (use w'(11,12) h in auto)
qed


lemma step_ReleaseAt:
  assumes inv: "world_inv W" and x: "x \<in> registered W"
    and h: "held W x p \<noteq> None" "dropping \<or> op_time (chan (pipe W) x) p \<le> t"
    and rel: "ReleaseAt t x p dropping (pipe W) = Some w'"
  shows "world_inv (hold x p None (W\<lparr>pipe := w'\<rparr>))"
proof -
  let ?w = "pipe W"
  have pinv: "pipeline_inv ?w" and xs: "x \<in> set (channels (sched ?w))" and pst: "past (now W) ?w"
    using inv x by (simp_all add: world_inv_def registered_def clock_inv_def)
  have tr: "in_transit ?w x p" using world_invD(4) [OF inv x] h(1) by simp
  from ReleaseAt_ok [OF pinv xs tr h(2)] rel obtain c where
    c: "w' = set_channel x c ?w" "pipeline_inv w'" "same_static c (chan ?w x)"
    "free_packets c = free_packets (chan ?w x) @ [p]" "queued_set c = queued_set (chan ?w x)"
    "packet_time c = packet_time (chan ?w x)" "op_time c = op_time (chan ?w x)" by auto
  have "world_inv (hold x p None (W\<lparr>pipe := w', pcs := pcs W\<rparr>))"
  proof (rule world_inv_local [OF inv c(2)])
    show "in_transit w' x q \<longleftrightarrow> (if q = p then None \<noteq> (None :: holder option) else in_transit ?w x q)" for q
      using tr same_staticD(3) [OF c(3)] by (auto simp: in_transit_def c(1,4,5))
    show "past (now W) w'"
      using pastD [OF pst xs] c(5,6) by (intro past_local [OF pst xs]) (simp_all add: c(1))
  qed (simp_all add: c(1,3,7) delivered_same)
  then show ?thesis by simp
qed

lemma step_log:
  assumes inv: "world_inv W" and x: "x \<in> registered W"
  shows "world_inv (W\<lparr>pipe := set_channel x (Log e (chan (pipe W) x)) (pipe W)\<rparr>)"
proof -
  let ?w = "pipe W" and ?c = "Log e (chan (pipe W) x)"
  have pinv: "pipeline_inv ?w" and xs: "x \<in> set (channels (sched ?w))" and pst: "past (now W) ?w"
    using inv x by (simp_all add: world_inv_def registered_def clock_inv_def)
  have "channel_inv (chan ?w x)" using pinv xs by (simp add: pipeline_inv_def)
  then have inv': "pipeline_inv (set_channel x ?c ?w)" using pinv by (intro pipeline_inv_set_channel) simp_all
  have "world_inv (hold x p (held W x p) (W\<lparr>pipe := set_channel x ?c ?w, pcs := pcs W\<rparr>))" for p
  proof (rule world_inv_local [OF inv inv'])
    show "in_transit (set_channel x ?c ?w) x q \<longleftrightarrow> (if q = p then held W x p \<noteq> None else in_transit ?w x q)" for q
      using world_invD(4) [OF inv x] by (simp add: in_transit_def)
    show "past (now W) (set_channel x ?c ?w)"
      using pastD [OF pst xs] by (intro past_local [OF pst xs]) simp_all
  qed (use world_invD(5) [OF inv x] in \<open>simp_all add: delivered_same\<close>)
  moreover have "hold x p (held W x p) V = V" if "held V = held W" for p V
    using that by (simp add: hold_def fun_upd_idem)
  ultimately show ?thesis by (metis (no_types, lifting) select_convs(3) surjective update_convs(1,2))
qed

lemma step_Push:
  assumes inv: "world_inv W" and x: "x \<in> registered W" and h: "held W x p = Some Filling"
    and t: "op_time (chan (pipe W) x) p \<le> t" "packet_time (chan (pipe W) x) p \<le> t" "t \<le> now W"
    and push: "Push t x p (pipe W) = Some w'"
    and del: "delivered (worker_count W) (sched (pipe W)) (sched w') (pcs W) pc'"
  shows "world_inv (hold x p None (W\<lparr>pipe := w', pcs := pc'\<rparr>))"
proof -
  let ?w = "pipe W"
  have pinv: "pipeline_inv ?w" and xs: "x \<in> set (channels (sched ?w))" and pst: "past (now W) ?w"
    and tk: "t < kMaxTime"
    using inv x t(3) by (simp_all add: world_inv_def registered_def clock_inv_def)
  have tr: "in_transit ?w x p" using world_invD(4) [OF inv x] h by simp
  from Push_ok [OF pinv xs tr t(2,1) tk] push have
    w': "pipeline_inv w'" "same_config (sched ?w) (sched w')" "announced (sched ?w) (sched w')"
    "\<forall>y. y \<noteq> x \<longrightarrow> chan w' y = chan ?w y" "same_static (chan w' x) (chan ?w x)"
    "free_packets (chan w' x) = free_packets (chan ?w x)"
    "queued_set (chan w' x) = insert p (queued_set (chan ?w x))"
    "packet_time (chan w' x) = packet_time (chan ?w x)" "op_time (chan w' x) = op_time (chan ?w x)" by auto
  show ?thesis
  proof (rule world_inv_local [OF inv w'(1,2) announced_wakes [OF w'(3)] w'(4,5) del])
    show "in_transit w' x q \<longleftrightarrow> (if q = p then None \<noteq> (None :: holder option) else in_transit ?w x q)" for q
      using tr same_staticD(3) [OF w'(5)] by (auto simp: in_transit_def w'(6,7))
    show "past (now W) w'"
      using w'(2,7,8) t(2,3) pastD [OF pst xs]
      by (intro past_local [OF pst xs _ w'(4)]) (auto simp: same_config_def)
  qed (simp_all add: w'(9))
qed

subsection \<open>Steps of the workers\<close>

text \<open>A worker changes its program counter, and nothing else happens.\<close>

lemma world_inv_pcs:
  assumes inv: "world_inv W"
    and exec: "\<And>i st x p. i < worker_count W \<Longrightarrow> pc' i = Executing st x p \<longleftrightarrow> pcs W i = Executing st x p"
    and ns: "no_stall (W\<lparr>pcs := pc'\<rparr>)"
  shows "world_inv (W\<lparr>pcs := pc'\<rparr>)"
proof -
  let ?W = "W\<lparr>pcs := pc'\<rparr>"
  have "worker_count ?W = worker_count W" "registered ?W = registered W"
    by (simp_all add: worker_count_def registered_def)
  moreover from this exec have "servicing ?W i st = servicing W i st" for i st
    by (auto simp: servicing_def)
  ultimately show ?thesis using inv ns
    by (simp add: world_inv_def ownership_def clock_inv_def exclusion_def assignment_def exec)
qed

lemma no_stall_pcs:
  assumes "no_stall W" "i < worker_count W" "pc \<noteq> Exited \<or> \<not> keep_running (sched (pipe W))"
    "pc = Waiting \<Longrightarrow> keep_running (sched (pipe W)) \<and> ready_states (sched (pipe W)) = {}"
  shows "no_stall (W\<lparr>pcs := (pcs W)(i := pc)\<rparr>)"
  using assms by (auto simp: no_stall_def worker_count_def awake_def)

lemma step_finish:
  assumes inv: "world_inv W" and i: "i < worker_count W" and pc: "pcs W i = Executing st x p"
    and fin: "finish_task st (set_channel x (Log e (chan (pipe W) x)) (pipe W)) = Some w'"
  shows "world_inv (W\<lparr>pipe := w', pcs := (pcs W)(i := Idle)\<rparr>)"
proof -
  let ?w = "pipe W"
  let ?s = "sched ?w"
  let ?w1 = "set_channel x (Log e (chan ?w x)) ?w"
  let ?W = "W\<lparr>pipe := w', pcs := (pcs W)(i := Idle)\<rparr>"
  have as: "x \<in> registered W" "single_thread_object (chan ?w x) = st"
    using inv i pc by (simp_all add: world_inv_def assignment_def)
  have ex: "exclusion W" using inv by (simp add: world_inv_def)
  have sv: "servicing W i st" using i pc by (simp add: servicing_def)
  have pinv: "pipeline_inv ?w" and xs: "x \<in> set (channels ?s)"
    using inv as by (simp_all add: world_inv_def registered_def)
  have inv1: "pipeline_inv ?w1"
    using pinv registered_inv [OF inv as(1)] by (intro pipeline_inv_set_channel) simp_all
  have hi: "heaps_inv (chan ?w) ?s" using pinv by (simp add: pipeline_inv_def sched_inv_def)
  then obtain q where q: "state_queues ?s st = Some q" using xs as(2) by (auto simp: heaps_inv_def)
  have en: "is_enabled ?s st \<longleftrightarrow> st = nullptr" using ex sv q by (auto simp: exclusion_def)
  have "pipeline_inv w' \<and> same_setup ?s (sched w') \<and> chan w' = chan ?w1 \<and> effects (sched w') = effects ?s \<and>
      dom (state_queues (sched w')) = dom (state_queues ?s) \<and>
      (\<forall>st'. is_enabled (sched w') st' \<longleftrightarrow> is_enabled ?s st' \<or> st' = st)"
  proof (cases "st = nullptr")
    case True
    with fin en inv1 show ?thesis by (auto simp: finish_task_def)
  next
    case False
    with en q have "\<not> enabled q" by (auto simp: is_enabled_def)
    from q have q1: "state_queues (sched ?w1) st = Some q" by simp
    from finish_task_ok [OF inv1 q1 \<open>\<not> enabled q\<close>] fin False show ?thesis by (simp del: fun_upd_apply)
  qed
  then have w': "pipeline_inv w'" "same_setup ?s (sched w')" "chan w' = chan ?w1"
    "dom (state_queues (sched w')) = dom (state_queues ?s)"
    "\<And>st'. is_enabled (sched w') st' \<longleftrightarrow> is_enabled ?s st' \<or> st' = st" by blast+
  have eq: "worker_count ?W = worker_count W" "registered ?W = registered W"
    "keep_running (sched w') = keep_running ?s" "workers (sched w') = workers ?s" "channels (sched w') = channels ?s"
    using w'(2) by (simp_all add: worker_count_def registered_def same_setup_def)
  have sv': "servicing ?W j st' \<longleftrightarrow> servicing W j st' \<and> j \<noteq> i" for j st'
    using eq(1) by (auto simp: servicing_def)
  have ch: "single_thread_object (chan w' y) = single_thread_object (chan ?w y)" "op_time (chan w' y) = op_time (chan ?w y)"
    "packet_time (chan w' y) = packet_time (chan ?w y)" "queued_set (chan w' y) = queued_set (chan ?w y)"
    "free_packets (chan w' y) = free_packets (chan ?w y)" "slots (chan w' y) = slots (chan ?w y)" for y
    by (cases "y = x"; simp add: w'(3))+
  have "ownership ?W" using inv eq(2) ch by (simp add: world_inv_def ownership_def in_transit_def)
  moreover have "clock_inv ?W" using inv eq ch by (simp add: world_inv_def clock_inv_def past_def)
  moreover have "assignment ?W" using inv eq ch by (simp add: world_inv_def assignment_def)
  moreover have "exclusion ?W"
    unfolding exclusion_def
  proof (intro conjI allI impI ballI)
    fix j k st' assume "servicing ?W j st'" "servicing ?W k st'" "st' \<noteq> nullptr"
    with ex sv' show "j = k" by (auto simp: exclusion_def)
  next
    fix st' assume d: "st' \<in> dom (state_queues (sched (pipe ?W)))"
    have e: "is_enabled ?s st' \<longleftrightarrow> st' = nullptr \<or> (\<forall>j. \<not> servicing W j st')"
      using ex d w'(4) by (simp add: exclusion_def)
    have new: "is_enabled (sched (pipe ?W)) st' \<longleftrightarrow> is_enabled ?s st' \<or> st' = st" by (simp add: w'(5))
    show "is_enabled (sched (pipe ?W)) st' \<longleftrightarrow> st' = nullptr \<or> (\<forall>j. \<not> servicing ?W j st')"
    proof (cases "st' = st")
      case True
      have "st = nullptr \<or> (\<forall>j. servicing W j st \<longrightarrow> j = i)" using ex sv unfolding exclusion_def by blast
      with True new sv' show ?thesis by blast
    next
      case False
      have "\<not> servicing W i st'" using False pc by (simp add: servicing_def)
      with False new e sv' show ?thesis by blast
    qed
  qed
  moreover have "no_stall ?W"
    using inv i eq by (auto simp: world_inv_def no_stall_def awake_def worker_count_def)
  ultimately show ?thesis using w'(1) by (simp add: world_inv_def)
qed


lemma step_pick:
  assumes inv: "world_inv W" and i: "i < worker_count W" and pc: "pcs W i = Locking"
    and pick: "pick_task (now W) (pipe W) = Some (Some (st, x, p), w')"
    and del: "delivered (worker_count W) (sched (pipe W)) (sched w') ((pcs W)(i := Executing st x p)) pc'"
  shows "world_inv (hold x p (Some Processing) (W\<lparr>pipe := w', pcs := pc'\<rparr>))"
proof -
  let ?w = "pipe W"
  let ?s = "sched ?w"
  let ?W = "hold x p (Some Processing) (W\<lparr>pipe := w', pcs := pc'\<rparr>)"
  have pinv: "pipeline_inv ?w" and pst: "past (now W) ?w" and ex: "exclusion W"
    using inv by (simp_all add: world_inv_def clock_inv_def)
  have "ready_states ?s \<noteq> {}" using pick pick_none [OF _ pinv] by fastforce
  from pick_task_ok [OF pinv this pst] pick have
    ej: "earliest_job ?w x p" and st: "st = single_thread_object (chan ?w x)" and inv': "pipeline_inv w'"
    and su: "same_setup ?s (sched w')" and dm: "dom (state_queues (sched w')) = dom (state_queues ?s)"
    and en: "\<And>st'. is_enabled (sched w') st' \<longleftrightarrow> is_enabled ?s st' \<and> (st' \<noteq> st \<or> st = nullptr)"
    and wk: "wakes ?s (sched w')" and other: "\<forall>y. y \<noteq> x \<longrightarrow> chan w' y = chan ?w y"
    and static: "same_static (chan w' x) (chan ?w x)" and free: "free_packets (chan w' x) = free_packets (chan ?w x)"
    and queue: "queued_set (chan w' x) = queued_set (chan ?w x) - {p}"
    and times: "packet_time (chan w' x) = packet_time (chan ?w x)"
    and ops: "\<And>y. y \<noteq> p \<Longrightarrow> op_time (chan w' x) y = op_time (chan ?w x) y" "op_time (chan w' x) p = now W"
    by auto
  have xs: "x \<in> set (channels ?s)" "p \<in> queued_set (chan ?w x)" "is_enabled ?s st"
    using ej st by (simp_all add: earliest_job_def)
  have ci: "channel_inv (chan ?w x)" using pinv xs(1) by (simp add: pipeline_inv_def)
  have eq: "worker_count ?W = worker_count W" "registered ?W = registered W" "channels (sched w') = channels ?s"
    using su by (simp_all add: worker_count_def registered_def same_setup_def)
  have exec: "pc' j = Executing a y r \<longleftrightarrow> (if j = i then a = st \<and> y = x \<and> r = p else pcs W j = Executing a y r)" for j a y r
    using delivered_Executing [OF del] by auto
  have sv: "servicing ?W j a \<longleftrightarrow> (if j = i then a = st else servicing W j a)" for j a
    using exec eq(1) i by (auto simp: servicing_def)
  have none: "\<not> servicing W i a" for a using pc by (simp add: servicing_def)
  have tr: "in_transit w' y q \<longleftrightarrow> (y = x \<and> q = p) \<or> in_transit ?w y q" for y q
    using other ci xs(2) same_staticD(3) [OF static] free queue
    by (cases "y = x") (auto simp: in_transit_def channel_inv_def)
  have obj: "single_thread_object (chan w' y) = single_thread_object (chan ?w y)" for y
    using other same_staticD(1) [OF static] by (cases "y = x") simp_all
  have std: "st \<in> dom (state_queues ?s)" using xs(3) by (auto simp: is_enabled_def)
  have free_st: "\<not> servicing W j st" if "st \<noteq> nullptr" for j
    using ex xs(3) std that by (auto simp: exclusion_def)
  have "ownership ?W" using inv tr eq(2) by (auto simp: world_inv_def ownership_def)
  moreover have "clock_inv ?W"
  proof -
    have "past (now W) w'"
      using pastD [OF pst xs(1)] queue times by (intro past_local [OF pst xs(1) eq(3) other]) auto
    moreover have "op_time (chan w' y) q \<le> now W"
      if "y \<in> registered W" "held ?W y q \<in> {Some Filling, Some Processing}" for y q
    proof (cases "y = x \<and> q = p")
      case True
      with ops(2) show ?thesis by simp
    next
      case False
      with that have "op_time (chan ?w y) q \<le> now W" using world_invD(5) [OF inv that(1)] by auto
      then show ?thesis using False ops(1) [of q] other by (cases "y = x") auto
    qed
    ultimately show ?thesis using inv eq(2) by (auto simp: world_inv_def clock_inv_def)
  qed
  moreover have "assignment ?W"
    using inv exec eq obj st xs(1) by (auto simp: world_inv_def assignment_def registered_def split: if_splits)
  moreover have "exclusion ?W"
    unfolding exclusion_def
  proof (intro conjI allI impI ballI)
    fix j k a assume "servicing ?W j a" "servicing ?W k a" "a \<noteq> nullptr"
    with ex sv free_st show "j = k" by (auto simp: exclusion_def split: if_splits)
  next
    fix a assume "a \<in> dom (state_queues (sched (pipe ?W)))"
    with ex dm have "is_enabled ?s a \<longleftrightarrow> a = nullptr \<or> (\<forall>j. \<not> servicing W j a)" by (simp add: exclusion_def)
    then show "is_enabled (sched (pipe ?W)) a \<longleftrightarrow> a = nullptr \<or> (\<forall>j. \<not> servicing ?W j a)"
      using en [of a] sv none by auto
  qed
  moreover have "no_stall ?W"
  proof (rule no_stall_delivered [OF _ wk su del])
    show "no_stall W" using inv by (simp add: world_inv_def)
    fix j assume "((pcs W)(i := Executing st x p)) j \<noteq> pcs W j"
    then show "awake (((pcs W)(i := Executing st x p)) j)" by (cases "j = i") (simp_all add: awake_def)
  qed
  ultimately show ?thesis using inv' by (simp add: world_inv_def)
qed

lemma step_stop:
  assumes inv: "world_inv W"
  shows "world_inv (W\<lparr>pipe := clear_keep_running (pipe W), stopping := True\<rparr>)" (is "world_inv ?W")
proof -
  have eq: "chan (clear_keep_running w) = chan w" "state_queues (sched (clear_keep_running w)) = state_queues (sched w)"
    "state_queue (sched (clear_keep_running w)) = state_queue (sched w)" "\<not> keep_running (sched (clear_keep_running w))"
    "channels (sched (clear_keep_running w)) = channels (sched w)" "workers (sched (clear_keep_running w)) = workers (sched w)" for w
    by (simp_all add: clear_keep_running_def)
  have cnt: "worker_count ?W = worker_count W" "registered ?W = registered W"
    by (simp_all add: worker_count_def registered_def eq)
  have "pipeline_inv (clear_keep_running (pipe W))"
    using inv by (simp add: world_inv_def pipeline_inv_def sched_inv_def heaps_inv_def states_inv_def jobs_of_def
        ready_states_def eq)
  moreover have sv: "servicing ?W j a = servicing W j a" for j a
    using cnt by (auto simp: servicing_def)
  moreover have "is_enabled (sched (pipe ?W)) a = is_enabled (sched (pipe W)) a" for a
    by (simp add: is_enabled_def eq)
  then have "exclusion ?W" using inv sv by (simp add: world_inv_def exclusion_def eq)
  moreover have "assignment ?W" using inv by (auto simp: world_inv_def assignment_def cnt eq split: if_splits)
  moreover have "ownership ?W" using inv cnt by (simp add: world_inv_def ownership_def in_transit_def eq)
  moreover have "clock_inv ?W" using inv cnt by (simp add: world_inv_def clock_inv_def past_def eq)
  moreover have "no_stall ?W" using inv cnt by (simp add: world_inv_def no_stall_def worker_count_def eq)
  ultimately show ?thesis by (simp add: world_inv_def)
qed

lemma world_inv_notified:
  assumes inv: "world_inv W" and pc: "\<And>i. pcs W i \<noteq> Waiting"
  shows "world_inv (W\<lparr>stopping := False\<rparr>)"
proof -
  let ?W = "W\<lparr>stopping := False\<rparr>"
  have eq: "worker_count ?W = worker_count W" "registered ?W = registered W" "servicing ?W i st = servicing W i st" for i st
    by (simp_all add: worker_count_def registered_def servicing_def)
  show ?thesis
    using inv pc unfolding world_inv_def exclusion_def eq
    by (simp add: ownership_def clock_inv_def assignment_def no_stall_def eq del: split_paired_All)
qed

subsection \<open>Every reachable state\<close>

lemma world_inv_step: "world_inv W \<Longrightarrow> step W W' \<Longrightarrow> world_inv W'"
proof -
  assume inv: "world_inv W" and "step W W'"
  have ns: "no_stall W" using inv by (simp add: world_inv_def)
  have sq: "heap_set (state_queue (sched (pipe W))) = ready_states (sched (pipe W))"
    using inv by (simp add: world_inv_def pipeline_inv_def sched_inv_def states_inv_def)
  show "world_inv W'"
    using \<open>step W W'\<close>
  proof cases
    case (tick t)
    have "past t (pipe W)" using world_invD(2) [OF inv] tick(2) by (fastforce simp: past_def)
    moreover have "worker_count W' = worker_count W" "registered W' = registered W"
      using tick(1) by (simp_all add: worker_count_def registered_def)
    moreover have "op_time (chan (pipe W) x) p \<le> t"
      if "x \<in> registered W" "held W x p \<in> {Some Filling, Some Processing}" for x p
      using world_invD(5) [OF inv that] tick(2) by simp
    moreover have "servicing W' i st = servicing W i st" for i st using tick(1) by (simp add: servicing_def worker_count_def)
    ultimately show ?thesis
      using inv tick unfolding world_inv_def exclusion_def
      by (simp add: ownership_def clock_inv_def assignment_def no_stall_def del: split_paired_All)
  next
    case (loop_check i)
    show ?thesis unfolding loop_check(1)
      by (rule world_inv_pcs [OF inv]) (use loop_check in \<open>auto intro!: no_stall_pcs ns\<close>)
  next
    case (sleep i)
    show ?thesis unfolding sleep(1)
      by (rule world_inv_pcs [OF inv]) (use sleep sq in \<open>auto intro!: no_stall_pcs ns\<close>)
  next
    case (spurious i)
    show ?thesis unfolding spurious(1)
      by (rule world_inv_pcs [OF inv]) (use spurious in \<open>auto intro!: no_stall_pcs ns\<close>)
  next
    case (pick_nothing i w')
    have "w' = pipe W" using pick_nothing(5)
      by (auto simp: pick_task_def bind_eq_Some_conv split: if_splits)
    then have eq: "W' = W\<lparr>pcs := (pcs W)(i := Idle)\<rparr>" using pick_nothing(1) by simp
    show ?thesis unfolding eq
      by (rule world_inv_pcs [OF inv]) (use pick_nothing in \<open>auto intro!: no_stall_pcs ns\<close>)
  next
    case (pick i st x p w' pc')
    show ?thesis unfolding pick(1) using inv pick(2-) by (rule step_pick)
  next
    case (finish i st x p d w')
    show ?thesis unfolding finish(1) using inv finish(2-) by (rule step_finish)
  next
    case (take x p c ts)
    show ?thesis unfolding take(1) using inv take(2-) by (rule step_take)
  next
    case (drop x p w' pc')
    show ?thesis unfolding drop(1) using inv drop(2) _ drop(3-) by (rule step_GetNext) simp
  next
    case (dropped x p w')
    show ?thesis unfolding dropped(1)
      using inv dropped(2) _ _ dropped(4) by (rule step_ReleaseAt) (simp_all add: dropped(3))
  next
    case (push x p t w' pc')
    show ?thesis unfolding push(1) using inv push(2-) by (rule step_Push)
  next
    case (poll x p w' pc')
    show ?thesis unfolding poll(1) using inv poll(2) _ poll(3-) by (rule step_GetNext) simp
  next
    case (release x p t w')
    show ?thesis unfolding release(1)
      using inv release(2) _ _ release(6) by (rule step_ReleaseAt) (simp_all add: release(3,4))
  next
    case (log x e)
    show ?thesis unfolding log(1) using inv log(2) by (rule step_log)
  next
    case stop_request
    show ?thesis unfolding stop_request(1) using inv by (rule step_stop)
  next
    case stop_notify
    let ?pc = "\<lambda>i. if pcs W i = Waiting then Locking else pcs W i"
    have "no_stall (W\<lparr>pcs := ?pc\<rparr>)" using ns by (auto simp: no_stall_def worker_count_def awake_def)
    then have "world_inv (W\<lparr>pcs := ?pc\<rparr>)" by (intro world_inv_pcs [OF inv]) auto
    then have "world_inv ((W\<lparr>pcs := ?pc\<rparr>)\<lparr>stopping := False\<rparr>)" by (rule world_inv_notified) simp
    then show ?thesis unfolding stop_notify(1) by simp
  qed
qed

lemma world_inv_started: "started W \<Longrightarrow> world_inv W"
proof -
  assume s: "started W"
  have none: "\<not> servicing W i st" for i st using s by (simp add: started_def servicing_def)
  have "exclusion W"
    using s none by (auto simp: exclusion_def is_enabled_def started_def)
  moreover have "no_stall W" using s by (auto simp: started_def no_stall_def awake_def)
  ultimately show ?thesis
    using s by (simp add: world_inv_def started_def ownership_def clock_inv_def assignment_def)
qed

lemma world_inv_reachable: "reachable W \<Longrightarrow> world_inv W"
  by (induction rule: reachable.induct) (auto intro: world_inv_started world_inv_step)

subsection \<open>Consequences\<close>

text \<open>The slots of a channel's pool are shared out between the free stack, the queue and the threads.\<close>

definition held_packets :: "world \<Rightarrow> addr \<Rightarrow> addr set" where
  "held_packets W x = {p. held W x p \<noteq> None}"

lemma slots_partition:
  assumes inv: "world_inv W" and x: "x \<in> registered W"
  shows "slots (chan (pipe W) x) =
      set (free_packets (chan (pipe W) x)) \<union> queued_set (chan (pipe W) x) \<union> held_packets W x"
    and "set (free_packets (chan (pipe W) x)) \<inter> queued_set (chan (pipe W) x) = {}"
    and "set (free_packets (chan (pipe W) x)) \<inter> held_packets W x = {}"
    and "queued_set (chan (pipe W) x) \<inter> held_packets W x = {}"
proof -
  have ci: "channel_inv (chan (pipe W) x)" using inv x by (rule registered_inv)
  have tr: "p \<in> held_packets W x \<longleftrightarrow> in_transit (pipe W) x p" for p
    using world_invD(4) [OF inv x] by (simp add: held_packets_def)
  show "set (free_packets (chan (pipe W) x)) \<inter> queued_set (chan (pipe W) x) = {}"
    using ci by (simp add: channel_inv_def)
  show "slots (chan (pipe W) x) =
      set (free_packets (chan (pipe W) x)) \<union> queued_set (chan (pipe W) x) \<union> held_packets W x"
    using ci tr by (auto simp: channel_inv_def in_transit_def)
  show "set (free_packets (chan (pipe W) x)) \<inter> held_packets W x = {}"
    "queued_set (chan (pipe W) x) \<inter> held_packets W x = {}"
    using tr by (auto simp: in_transit_def)
qed

lemma slots_count:
  assumes inv: "world_inv W" and x: "x \<in> registered W"
  shows "length (free_packets (chan (pipe W) x)) + heap_size (queued_packets (chan (pipe W) x)) +
    card (held_packets W x) = channel_capacity (chan (pipe W) x)"
proof -
  let ?c = "chan (pipe W) x"
  note part = slots_partition [OF inv x]
  have ci: "channel_inv ?c" using inv x by (rule registered_inv)
  have "held_packets W x \<subseteq> slots ?c" using part(1) by blast
  then have "finite (held_packets W x)" by (rule finite_subset) simp
  then have "card (slots ?c) = card (set (free_packets ?c) \<union> queued_set ?c) + card (held_packets W x)"
    unfolding part(1) using part(3,4) by (intro card_Un_disjoint) (auto simp: queued_set_def)
  also have "card (set (free_packets ?c) \<union> queued_set ?c) = card (set (free_packets ?c)) + card (queued_set ?c)"
    using part(2) by (intro card_Un_disjoint) (auto simp: queued_set_def)
  finally show ?thesis
    using ci card_slots [of ?c] heap_size_card [of "packet_time ?c" "queued_packets ?c"]
    by (simp add: channel_inv_def distinct_card queued_set_def)
qed

text \<open>A pipeline in which all states are enabled has work exactly if the state queue has an entry.\<close>

lemma no_ready_no_job:
  assumes inv: "pipeline_inv w" and ready: "ready_states (sched w) = {}" and x: "x \<in> set (channels (sched w))"
    and en: "is_enabled (sched w) (single_thread_object (chan w x))" and cb: "has_callback (chan w x)"
  shows "queued_set (chan w x) = {}"
proof (rule ccontr)
  assume ne: "queued_set (chan w x) \<noteq> {}"
  have hi: "heaps_inv (chan w) (sched w)" using inv by (simp add: pipeline_inv_def sched_inv_def)
  from heaps_inv_queue [OF hi x] obtain q where q: "state_queues (sched w) (single_thread_object (chan w x)) = Some q"
    "heap_set (channel_heap q) = jobs_of (chan w) (sched w) (single_thread_object (chan w x))" .
  have "x \<in> heap_set (channel_heap q)" using q(2) x cb ne by (simp add: jobs_of_def has_job_def)
  with q en ready show False by (auto simp: ready_states_def is_enabled_def)
qed

lemma no_job_no_ready:
  assumes inv: "pipeline_inv w" and empty: "\<forall>x\<in>set (channels (sched w)). has_callback (chan w x) \<longrightarrow> queued_set (chan w x) = {}"
  shows "ready_states (sched w) = {}"
proof (rule ccontr)
  assume "ready_states (sched w) \<noteq> {}"
  then obtain st q x where q: "state_queues (sched w) st = Some q" "x \<in> heap_set (channel_heap q)"
    by (auto simp: ready_states_def)
  have "heap_set (channel_heap q) = jobs_of (chan w) (sched w) st"
    using inv q(1) by (simp add: pipeline_inv_def sched_inv_def heaps_inv_def)
  with q(2) empty show False by (auto simp: jobs_of_def has_job_def)
qed

lemma asleep_no_job:
  assumes inv: "world_inv W" and run: "keep_running (sched (pipe W))"
    and asleep: "\<forall>i<worker_count W. pcs W i = Waiting" and x: "x \<in> registered W" "has_callback (chan (pipe W) x)"
  shows "queued_set (chan (pipe W) x) = {}"
proof (rule no_ready_no_job)
  let ?w = "pipe W"
  show "pipeline_inv ?w" using inv by (simp add: world_inv_def)
  show "ready_states (sched ?w) = {}" using inv run asleep by (auto simp: world_inv_def no_stall_def awake_def)
  show xs: "x \<in> set (channels (sched ?w))" using x(1) by (simp add: registered_def)
  have "single_thread_object (chan ?w x) \<in> dom (state_queues (sched ?w))"
    using inv xs by (auto simp: world_inv_def pipeline_inv_def sched_inv_def heaps_inv_def)
  moreover have "\<not> servicing W i st" for i st using asleep by (auto simp: servicing_def)
  ultimately show "is_enabled (sched ?w) (single_thread_object (chan ?w x))"
    using inv by (simp add: world_inv_def exclusion_def)
qed (rule x(2))

text \<open>No section that a thread may enter fails an assertion.\<close>

lemma pick_succeeds: "world_inv W \<Longrightarrow> pick_task (now W) (pipe W) \<noteq> None"
proof (cases "ready_states (sched (pipe W)) = {}")
  case True
  assume "world_inv W"
  with True show ?thesis using pick_none world_invD(1) by fastforce
next
  case False
  assume "world_inv W"
  then show ?thesis using pick_task_ok [OF world_invD(1) False world_invD(2)] by auto
qed

lemma finish_succeeds:
  assumes inv: "world_inv W" and i: "i < worker_count W" and pc: "pcs W i = Executing st x p"
  shows "finish_task st (set_channel x (Log e (chan (pipe W) x)) (pipe W)) \<noteq> None"
proof (cases "st = nullptr")
  case True
  then show ?thesis by (simp add: finish_task_def)
next
  case False
  let ?w1 = "set_channel x (Log e (chan (pipe W) x)) (pipe W)"
  have as: "x \<in> registered W" "single_thread_object (chan (pipe W) x) = st"
    using inv i pc by (simp_all add: world_inv_def assignment_def)
  have pinv: "pipeline_inv (pipe W)" using inv by (simp add: world_inv_def)
  then have inv1: "pipeline_inv ?w1"
    using registered_inv [OF inv as(1)] by (intro pipeline_inv_set_channel) simp_all
  have d: "st \<in> dom (state_queues (sched (pipe W)))"
    using pinv as by (auto simp: pipeline_inv_def sched_inv_def heaps_inv_def registered_def)
  then obtain q where q: "state_queues (sched ?w1) st = Some q" by auto
  have "servicing W i st" using i pc by (simp add: servicing_def)
  then have "\<not> is_enabled (sched (pipe W)) st" using inv d False by (auto simp: world_inv_def exclusion_def)
  then have "\<not> enabled q" using q by (simp add: is_enabled_def)
  from finish_task_ok [OF inv1 q this] show ?thesis by auto
qed

lemma GetNext_succeeds:
  assumes inv: "world_inv W" and x: "x \<in> registered W"
  shows "GetNext (now W) x dropping (pipe W) \<noteq> None"
proof (cases "queued_set (chan (pipe W) x) = {}")
  case True
  then show ?thesis by (simp add: GetNext_empty)
next
  case False
  have xs: "x \<in> set (channels (sched (pipe W)))" using x by (simp add: registered_def)
  have "\<forall>y\<in>queued_set (chan (pipe W) x). packet_time (chan (pipe W) x) y \<le> now W"
    using world_invD(2) [OF inv] xs by (simp add: past_def)
  then show ?thesis
    using PopNext_ok [OF world_invD(1) [OF inv] xs False, of dropping "now W"] by (auto simp: GetNext_PopNext [OF False])
qed

lemma Push_succeeds:
  assumes inv: "world_inv W" and x: "x \<in> registered W" and h: "held W x p = Some Filling"
    and t: "packet_time (chan (pipe W) x) p \<le> t" "op_time (chan (pipe W) x) p \<le> t" "t \<le> now W"
  shows "Push t x p (pipe W) \<noteq> None"
proof -
  have "in_transit (pipe W) x p" using world_invD(4) [OF inv x] h by simp
  moreover have "t < kMaxTime" using world_invD(3) [OF inv] t(3) by simp
  ultimately show ?thesis using Push_ok [OF world_invD(1) [OF inv], of x p t] x t by (auto simp: registered_def)
qed

lemma ReleaseAt_succeeds:
  assumes inv: "world_inv W" and x: "x \<in> registered W" and h: "held W x p \<noteq> None"
    and t: "dropping \<or> op_time (chan (pipe W) x) p \<le> t"
  shows "ReleaseAt t x p dropping (pipe W) \<noteq> None"
proof -
  have "in_transit (pipe W) x p" using world_invD(4) [OF inv x] h by simp
  then show ?thesis using ReleaseAt_ok [OF world_invD(1) [OF inv] _ _ t] x by (auto simp: registered_def)
qed

end
