(* ===== verification/Life_Cycle.thy ===== *)
theory Life_Cycle
  imports Concurrency_Inv
begin

text \<open>
  The life of a pipeline outside the running phase: construction of channels (which registers them),
  Start, Stop, destruction. A constructed pipeline is in order; Start takes it to a world from which
  \<open>Concurrency_Inv\<close> goes on; after Stop every state may be serviced again.
\<close>

subsection \<open>Reserving\<close>

lemma heap_reserve_frame [simp, pipert_frame]:
  "heap_set (heap_reserve n h) = heap_set h" "queue_inv k (heap_reserve n h) = queue_inv k h"
  "heap_front (heap_reserve n h) = heap_front h" "heap_items (heap_reserve n h) = heap_items h"
  "heap_capacity (heap_reserve n h) = max (heap_capacity h) n"
  by (simp_all add: heap_reserve_def heap_set_def queue_inv_def heap_front_def)

subsection \<open>Construction of a channel\<close>

lemma channel_new_ok:
  assumes "cap * psize < 2 ^ 31" and "base \<noteq> nullptr" and "0 < psize"
  shows "\<exists>c. channel_new name cap psize obj cb base = Some c \<and> channel_inv c \<and>
    set (free_packets c) = slots c \<and> free_packets c = init_free_packets base cap psize \<and> queued_set c = {} \<and>
    op_time c = (\<lambda>_. 0) \<and> profile_data c = nullptr \<and> single_thread_object c = obj \<and> has_callback c = cb \<and> packet_size c = psize \<and> channel_capacity c = cap"
proof -
  have len: "length (init_free_packets base cap psize) = cap" by (simp add: init_free_packets_def)
  have dist: "distinct (init_free_packets base cap psize)"
    using assms(3) by (simp add: init_free_packets_def distinct_map inj_on_def)
  have set: "set (init_free_packets base cap psize) = (\<lambda>i. base + psize * i) ` {..<cap}"
    by (auto simp: init_free_packets_def)
  have size: "heap_size (heap_reserve cap (steady_heap_new :: addr steady_heap)) = 0"
    "cap \<le> heap_capacity (heap_reserve cap (steady_heap_new :: addr steady_heap))"
    by (simp_all add: heap_size_def steady_heap_new_def)
  show ?thesis
    using assms len dist set size
    by (simp add: channel_new_def Let_def channel_inv_def slots_def queued_set_def)
qed

text \<open>The first packet that will be handed out is the first of the pool.\<close>

lemma channel_new_first:
  "channel_new name cap psize obj cb base = Some c \<Longrightarrow> 0 < cap \<Longrightarrow> last (free_packets c) = base"
  by (auto simp: channel_new_def Let_def bind_eq_Some_conv init_free_packets_def last_map rev_nth last_rev)

lemma jobs_of_no_job:
  "\<not> has_job ch x \<Longrightarrow> channels s' = channels s @ [x] \<Longrightarrow> jobs_of ch s' st = jobs_of ch s st"
  by (auto simp: jobs_of_def)

definition all_enabled :: "scheduler \<Rightarrow> bool" where
  "all_enabled s \<longleftrightarrow> (\<forall>st q. state_queues s st = Some q \<longrightarrow> enabled q)"

lemma RegisterChannel_ok:
  assumes inv: "sched_inv ch s" and run: "\<not> running s" and job: "\<not> has_job ch x"
  shows "\<exists>ch' s'. RegisterChannel pd x ch s = Some (ch', s') \<and> sched_inv ch s' \<and>
    channels s' = channels s @ [x] \<and> \<not> running s' \<and> keep_running s' = keep_running s \<and>
    workers s' = workers s \<and> workers_number s' = workers_number s \<and> valid_state s' = valid_state s \<and>
    has_profiler s' = has_profiler s \<and> (all_enabled s \<longrightarrow> all_enabled s') \<and>
    ch' = (if has_profiler s then ch(x := SetProfileData pd (ch x)) else ch)"
proof -
  let ?st = "single_thread_object (ch x)"
  have hi: "heaps_inv ch s" and si: "states_inv ch s" using inv by (simp_all add: sched_inv_def)
  define s1 where "s1 = s\<lparr>channels := channels s @ [x]\<rparr>"
  define s2 where "s2 = (case state_queues s1 ?st of
                 Some q \<Rightarrow>
                   set_queue ?st (q\<lparr>channel_heap :=
                     heap_reserve (heap_capacity (channel_heap q) + 1) (channel_heap q)\<rparr>) s1
               | None \<Rightarrow>
                   set_queue ?st (enabled_heap_new\<lparr>channel_heap :=
                     heap_reserve 1 (channel_heap enabled_heap_new)\<rparr>)
                     (s1\<lparr>state_queue :=
                        heap_reserve (heap_capacity (state_queue s1) + 1) (state_queue s1)\<rparr>))"
  define s3 where "s3 = (if has_profiler s2 then emit (AddProfileData pd) s2 else s2)"
  have frame: "channels s2 = channels s @ [x]" "running s2 = running s" "keep_running s2 = keep_running s"
    "workers s2 = workers s" "workers_number s2 = workers_number s" "valid_state s2 = valid_state s"
    "has_profiler s2 = has_profiler s" "heap_set (state_queue s2) = heap_set (state_queue s)"
    "queue_inv k (state_queue s2) = queue_inv k (state_queue s)" for k
    by (simp_all add: s2_def s1_def set_queue_def split: option.splits)
  have jobs: "jobs_of ch s2 st = jobs_of ch s st" for st using jobs_of_no_job [OF job frame(1)] .
  have nojob: "jobs_of ch s ?st = {}" if "state_queues s ?st = None"
    using hi that by (auto simp: heaps_inv_def jobs_of_def)
  have lookup: "state_queues s2 st =
      (if st = ?st
       then Some (case state_queues s ?st of
              Some q \<Rightarrow> q\<lparr>channel_heap := heap_reserve (heap_capacity (channel_heap q) + 1) (channel_heap q)\<rparr>
            | None \<Rightarrow> enabled_heap_new\<lparr>channel_heap := heap_reserve 1 steady_heap_new\<rparr>)
       else state_queues s st)" for st
    by (auto simp: s2_def s1_def enabled_heap_new_def split: option.splits)
  have "heaps_inv ch s2"
    using hi nojob unfolding heaps_inv_def jobs
    by (auto simp: lookup frame(1) split: option.splits if_splits)
  moreover have "ready_states s2 = ready_states s"
    by (auto simp: ready_states_def lookup enabled_heap_new_def split: option.splits if_splits)
  moreover have "state_key ch (state_queues s2) st = state_key ch (state_queues s) st" for st
    by (auto simp: state_key_def lookup enabled_heap_new_def split: option.splits) (auto simp: steady_heap_new_def heap_front_def)?
  then have "state_key ch (state_queues s2) = state_key ch (state_queues s)" by (rule ext)
  ultimately have "sched_inv ch s2" using si frame by (simp add: sched_inv_def states_inv_def)
  then have "sched_inv ch s3" by (simp add: s3_def sched_inv_def)
  moreover have "all_enabled s \<longrightarrow> all_enabled s3"
    by (auto simp: all_enabled_def s3_def emit_def lookup enabled_heap_new_def split: option.splits if_splits)
  moreover have "RegisterChannel pd x ch s =
      Some (if has_profiler s then ch(x := SetProfileData pd (ch x)) else ch, s3)"
    using run frame(7) by (simp add: RegisterChannel_def Let_def s1_def [symmetric] s2_def [symmetric] s3_def)
  ultimately show ?thesis using frame run by (auto simp: s3_def emit_def)
qed


text \<open>The scheduler does not look at a channel that is not registered.\<close>

lemma sched_inv_unregistered:
  assumes si: "sched_inv ch s" and x: "x \<notin> set (channels s)"
  shows "sched_inv (ch(x := c)) s"
proof -
  let ?ch = "ch(x := c)"
  have same: "?ch y = ch y" if "y \<in> set (channels s)" for y using that x by auto
  have jobs: "jobs_of ?ch s st = jobs_of ch s st" for st
    using x by (auto simp: jobs_of_def has_job_def)
  have key: "channel_key ?ch y = channel_key ch y" if "y \<noteq> x" for y using that by (simp add: channel_key_def)
  have heap_no_x: "y \<noteq> x" if "state_queues s st = Some q" "y \<in> heap_set (channel_heap q)" for st q y
    using si that x by (auto simp: sched_inv_def heaps_inv_def jobs_of_def)
  have hi: "heaps_inv ?ch s"
    unfolding heaps_inv_def jobs
  proof (intro conjI allI impI ballI)
    fix st q assume q: "state_queues s st = Some q"
    with si have old: "queue_inv (channel_key ch) (channel_heap q)"
      "heap_set (channel_heap q) = jobs_of ch s st" by (simp_all add: sched_inv_def heaps_inv_def)
    show "heap_set (channel_heap q) = jobs_of ch s st" by (rule old)
    show "queue_inv (channel_key ?ch) (channel_heap q)"
      using old(1) by (rule hq.cong) (use key heap_no_x [OF q] in blast)
  next
    fix y assume "y \<in> set (channels s)"
    with si same show "single_thread_object (?ch y) \<in> dom (state_queues s)"
      by (simp add: sched_inv_def heaps_inv_def)
  qed
  have "state_key ?ch (state_queues s) st = state_key ch (state_queues s) st" for st
  proof (cases "state_queues s st")
    case (Some q)
    show ?thesis
    proof (cases "heap_front (channel_heap q)")
      case (Some y)
      have "queue_inv (channel_key ch) (channel_heap q)"
        using si \<open>state_queues s st = Some q\<close> by (simp add: sched_inv_def heaps_inv_def)
      from hq.front_min [OF this Some] have "y \<in> heap_set (channel_heap q)" ..
      with heap_no_x \<open>state_queues s st = Some q\<close> Some show ?thesis by (simp add: state_key_def key)
    qed (use Some in \<open>simp add: state_key_def del: heap_front_None_iff\<close>)
  qed (simp add: state_key_def)
  then have "state_key ?ch (state_queues s) = state_key ch (state_queues s)" by (rule ext)
  with hi si show ?thesis by (simp add: sched_inv_def states_inv_def)
qed

lemma ChannelImpl_new_ok:
  assumes inv: "pipeline_inv w" and run: "\<not> running (sched w)" and x: "x \<notin> set (channels (sched w))"
    and ok: "cap * psize < 2 ^ 31" "base \<noteq> nullptr" "0 < psize"
  shows "\<exists>w'. ChannelImpl_new name cap psize obj cb base pd x w = Some w' \<and> pipeline_inv w' \<and>
    \<not> running (sched w') \<and> channels (sched w') = channels (sched w) @ [x] \<and>
    (\<forall>y. y \<noteq> x \<longrightarrow> chan w' y = chan w y) \<and>
    set (free_packets (chan w' x)) = slots (chan w' x) \<and> queued_set (chan w' x) = {} \<and>
    free_packets (chan w' x) = init_free_packets base cap psize \<and> has_callback (chan w' x) = cb \<and>
    op_time (chan w' x) = (\<lambda>_. 0) \<and> channel_capacity (chan w' x) = cap \<and> single_thread_object (chan w' x) = obj \<and>
    (all_enabled (sched w) \<longrightarrow> all_enabled (sched w')) \<and> workers_number (sched w') = workers_number (sched w) \<and>
    workers (sched w') = workers (sched w) \<and> valid_state (sched w') = valid_state (sched w) \<and>
    has_profiler (sched w') = has_profiler (sched w)"
proof -
  from channel_new_ok [OF ok, of name obj cb] obtain c where
    c: "channel_new name cap psize obj cb base = Some c" "channel_inv c" "set (free_packets c) = slots c"
    "queued_set c = {}" "channel_capacity c = cap" "single_thread_object c = obj"
    "free_packets c = init_free_packets base cap psize" "has_callback c = cb" "op_time c = (\<lambda>_. 0)" by blast
  let ?ch = "(chan w)(x := c)"
  have si: "sched_inv (chan w) (sched w)" and ci: "\<And>y. y \<in> set (channels (sched w)) \<Longrightarrow> channel_inv (chan w y)"
    and d: "distinct (channels (sched w))" using inv by (simp_all add: pipeline_inv_def)
  have si1: "sched_inv ?ch (sched w)" using si x by (rule sched_inv_unregistered)
  have "\<not> has_job ?ch x" using c(4) by (simp add: has_job_def)
  from RegisterChannel_ok [OF si1 run this, of pd] obtain ch' s' where
    r: "RegisterChannel pd x ?ch (sched w) = Some (ch', s')" "sched_inv ?ch s'" "channels s' = channels (sched w) @ [x]"
    "\<not> running s'" "all_enabled (sched w) \<longrightarrow> all_enabled s'" "workers_number s' = workers_number (sched w)"
    "workers s' = workers (sched w)" "valid_state s' = valid_state (sched w)" "has_profiler s' = has_profiler (sched w)"
    "ch' = (if has_profiler (sched w) then ?ch(x := SetProfileData pd (?ch x)) else ?ch)" by blast
  define c' where "c' = (if has_profiler (sched w) then SetProfileData pd c else c)"
  have ch': "ch' = (chan w)(x := c')" using r(10) by (simp add: c'_def)
  have c'f: "channel_inv c'" "set (free_packets c') = slots c'" "queued_set c' = {}" "channel_capacity c' = cap"
    "single_thread_object c' = obj" "has_callback c' = cb" "PeekNext c' = PeekNext c" "free_packets c' = init_free_packets base cap psize"
    "op_time c' = (\<lambda>_. 0)"
    using c by (simp_all add: c'_def SetProfileData_def channel_inv_def slots_def queued_set_def PeekNext_def)
  have "updated ?ch x ch'" using c(6,8) c'f by (simp add: updated_def ch')
  then have "sched_inv ch' s'"
    by (rule sched_inv_unseen [OF r(2)]) (use c(4) c'f in \<open>simp_all add: has_job_def ch' channel_key_def\<close>)
  moreover have "\<forall>y\<in>set (channels s'). channel_inv (ch' y)" using r(3) ci c'f(1) x by (auto simp: ch')
  ultimately have "pipeline_inv \<lparr>chan = ch', sched = s'\<rparr>" using r(3) d x by (simp add: pipeline_inv_def)
  moreover have "ChannelImpl_new name cap psize obj cb base pd x w = Some \<lparr>chan = ch', sched = s'\<rparr>"
    using c(1) r(1) by (simp add: ChannelImpl_new_def)
  ultimately show ?thesis using r(3-9) c'f unfolding ch' by simp
qed

lemma scheduler_new_ok:
  "0 < n \<Longrightarrow> \<exists>s. scheduler_new n prof = Some s \<and> pipeline_inv \<lparr>chan = ch, sched = s\<rparr> \<and> \<not> running s \<and>
     all_enabled s \<and> valid_state s \<and> workers_number s = n \<and> workers s = 0 \<and> channels s = [] \<and>
     has_profiler s = prof"
  by (simp add: scheduler_new_def pipeline_inv_def sched_inv_def heaps_inv_def states_inv_def jobs_of_def
      ready_states_def all_enabled_def)

subsection \<open>Start\<close>

lemma spawn_workers_eq:
  "spawn_workers n s = s\<lparr>workers := workers s + n, effects := effects s @ replicate n SpawnWorker\<rparr>"
  by (induction n arbitrary: s) (simp_all add: emit_def replicate_append_same [symmetric])

text \<open>An operation of the life cycle leaves everything the invariant speaks of alone.\<close>

lemma pipeline_inv_life:
  assumes "pipeline_inv w" and "channels s = channels (sched w)" and "state_queue s = state_queue (sched w)"
    and "state_queues s = state_queues (sched w)"
  shows "pipeline_inv (w\<lparr>sched := s\<rparr>)"
  using assms
  by (simp add: pipeline_inv_def sched_inv_def heaps_inv_def states_inv_def jobs_of_def ready_states_def)

lemma Start_eq:
  assumes "\<not> running s" and "valid_state s"
  shows "Start dbg s = Some (s\<lparr>running := True, keep_running := True, workers := workers s + workers_number s,
    effects := effects s @ replicate (workers_number s) SpawnWorker @
      (if has_profiler s then [ProfilerStart] else []) @ map ReceiverStart (receivers s)\<rparr>)"
  using assms by (simp add: Start_def check_def Let_def spawn_workers_eq emit_all_def emit_def)

lemma Start_invalid: "\<not> valid_state s \<Longrightarrow> Start dbg s = (if dbg then None else Some s)"
  by (simp add: Start_def check_def)

lemma Start_started:
  assumes inv: "pipeline_inv (pipe W)" and run: "\<not> running (sched (pipe W))" "valid_state (sched (pipe W))"
    and n: "0 < workers_number (sched (pipe W))" and en: "all_enabled (sched (pipe W))"
    and own: "ownership W" "clock_inv W" "\<not> stopping W"
  shows "\<exists>s'. Start dbg (sched (pipe W)) = Some s' \<and>
    started (W\<lparr>pipe := (pipe W)\<lparr>sched := s'\<rparr>, pcs := (\<lambda>_. Idle)\<rparr>)"
proof -
  let ?s = "sched (pipe W)"
  define s' where "s' = ?s\<lparr>running := True, keep_running := True, workers := workers ?s + workers_number ?s,
    effects := effects ?s @ replicate (workers_number ?s) SpawnWorker @
      (if has_profiler ?s then [ProfilerStart] else []) @ map ReceiverStart (receivers ?s)\<rparr>"
  have "pipeline_inv ((pipe W)\<lparr>sched := s'\<rparr>)" using inv by (rule pipeline_inv_life) (simp_all add: s'_def)
  then have "started (W\<lparr>pipe := (pipe W)\<lparr>sched := s'\<rparr>, pcs := (\<lambda>_. Idle)\<rparr>)"
    using n own en
    by (simp add: started_def worker_count_def ownership_def clock_inv_def registered_def in_transit_def past_def
        all_enabled_def s'_def)
  then show ?thesis using Start_eq [OF run] by (simp add: s'_def)
qed

subsection \<open>Stop\<close>

lemma Stop_eq:
  "running s \<Longrightarrow> Stop dbg s = Some (s\<lparr>keep_running := False, running := False, workers := 0,
     effects := effects s @ NotifyAll # replicate (workers s) JoinWorker @
       (if has_profiler s then [ProfilerStop] else []) @ map ReceiverStop (receivers s)\<rparr>)"
  by (simp add: Stop_def check_def Let_def emit_def emit_all_def)

text \<open>When every worker has left its loop, no state is left disabled: the pipeline may be started again.\<close>

lemma exited_all_enabled:
  assumes "world_inv W" and "\<forall>i<worker_count W. pcs W i = Exited"
  shows "all_enabled (sched (pipe W))"
proof -
  have "\<not> servicing W i st" for i st using assms(2) by (auto simp: servicing_def)
  then have "is_enabled (sched (pipe W)) st" if "st \<in> dom (state_queues (sched (pipe W)))" for st
    using assms(1) that by (simp add: world_inv_def exclusion_def)
  then show ?thesis by (force simp: all_enabled_def is_enabled_def)
qed

subsection \<open>Destruction\<close>

lemma set_swap_remove:
  assumes "distinct xs" and "find_index x xs = Some i"
  shows "set (swap_remove i xs) = set xs - {x}" and "distinct (swap_remove i xs)"
proof -
  from find_index_Some [OF assms(2)] have i: "i < length xs" "xs ! i = x" by simp_all
  from mset_swap_remove [OF i(1)] i(2) have m: "mset (swap_remove i xs) = mset (remove1 x xs)" by simp
  from mset_eq_setD [OF m] assms(1) show "set (swap_remove i xs) = set xs - {x}" by simp
  from mset_eq_imp_distinct_iff [OF m] assms(1) show "distinct (swap_remove i xs)" by simp
qed

lemma UnregisterChannel_ok:
  assumes d: "distinct (channels s)" and x: "x \<in> set (channels s)" and run: "\<not> running s"
    and prof: "has_profiler s \<Longrightarrow> profile_data (ch x) \<noteq> nullptr"
  shows "\<exists>s'. UnregisterChannel x ch s =
      Some (if has_profiler s then ch(x := SetProfileData nullptr (ch x)) else ch, s') \<and>
    set (channels s') = set (channels s) - {x} \<and> distinct (channels s') \<and>
    state_queue s' = state_queue s \<and> state_queues s' = state_queues s"
proof -
  from find_index_ex [OF x] obtain i where i: "find_index x (channels s) = Some i" ..
  let ?s = "(if has_profiler s then emit (RemoveProfileData (profile_data (ch x))) s else s)\<lparr>channels :=
    swap_remove i (channels s)\<rparr>"
  have "UnregisterChannel x ch s = Some (if has_profiler s then ch(x := SetProfileData nullptr (ch x)) else ch, ?s)"
    using run i prof by (simp add: UnregisterChannel_def emit_def)
  then show ?thesis using set_swap_remove [OF d i] by (simp add: emit_def)
qed

text \<open>A channel may be destroyed unless it is scheduled and has queued packets.\<close>

lemma sched_inv_unregister:
  assumes inv: "sched_inv ch s" and job: "\<not> has_job ch x"
    and s': "set (channels s') = set (channels s) - {x}" "state_queue s' = state_queue s" "state_queues s' = state_queues s"
  shows "sched_inv ch s'"
proof -
  have "jobs_of ch s' st = jobs_of ch s st" for st using job s'(1) by (auto simp: jobs_of_def)
  then show ?thesis using inv s'
    by (auto simp: sched_inv_def heaps_inv_def states_inv_def ready_states_def)
qed


lemma ChannelImpl_destroy_ok:
  assumes inv: "pipeline_inv w" and x: "x \<in> set (channels (sched w))" and run: "\<not> running (sched w)"
    and prof: "has_profiler (sched w) \<Longrightarrow> profile_data (chan w x) \<noteq> nullptr" and idle: "\<not> has_job (chan w) x"
  shows "\<exists>w'. ChannelImpl_destroy x w = Some w' \<and> pipeline_inv w' \<and>
    set (channels (sched w')) = set (channels (sched w)) - {x} \<and> (\<forall>y. y \<noteq> x \<longrightarrow> chan w' y = chan w y)"
proof -
  have d: "distinct (channels (sched w))" and si: "sched_inv (chan w) (sched w)" and ci: "channel_inv (chan w x)"
    using inv x by (simp_all add: pipeline_inv_def)
  from UnregisterChannel_ok [where ch = "chan w", OF d x run prof] obtain s' where
    s': "UnregisterChannel x (chan w) (sched w) =
      Some (if has_profiler (sched w) then (chan w)(x := SetProfileData nullptr (chan w x)) else chan w, s')"
    "set (channels s') = set (channels (sched w)) - {x}" "distinct (channels s')"
    "state_queue s' = state_queue (sched w)" "state_queues s' = state_queues (sched w)" by blast
  define c' where "c' = (if has_profiler (sched w) then SetProfileData nullptr (chan w x) else chan w x)\<lparr>pool := nullptr\<rparr>"
  let ?w = "\<lparr>chan = (chan w)(x := c'), sched = s'\<rparr>"
  have "pool (chan w x) \<noteq> nullptr" using ci by (simp add: channel_inv_def)
  then have "ChannelImpl_destroy x w = Some ?w"
    using s'(1) by (simp add: ChannelImpl_destroy_def c'_def SetProfileData_def)
  moreover have "sched_inv (chan w) s'"
    using si idle s'(2,4,5) by (rule sched_inv_unregister)
  then have "sched_inv ((chan w)(x := c')) s'" by (rule sched_inv_unregistered) (simp add: s'(2))
  then have "pipeline_inv ?w" using inv s'(2,3) by (simp add: pipeline_inv_def)
  ultimately show ?thesis using s'(2) by simp
qed

text \<open>
  UnregisterChannel does not look at the heaps. A scheduled channel that is destroyed with packets in
  its queue stays where the workers find it, with its pool deleted.
\<close>

lemma ChannelImpl_destroy_dangling:
  assumes inv: "pipeline_inv w" and x: "x \<in> set (channels (sched w))" and run: "\<not> running (sched w)"
    and prof: "has_profiler (sched w) \<Longrightarrow> profile_data (chan w x) \<noteq> nullptr" and job: "has_job (chan w) x"
  shows "\<exists>w' q. ChannelImpl_destroy x w = Some w' \<and> x \<notin> set (channels (sched w')) \<and>
    pool (chan w' x) = nullptr \<and>
    state_queues (sched w') (single_thread_object (chan w x)) = Some q \<and> x \<in> heap_set (channel_heap q)"
proof -
  have d: "distinct (channels (sched w))" and ci: "channel_inv (chan w x)"
    and hi: "heaps_inv (chan w) (sched w)" using inv x by (simp_all add: pipeline_inv_def sched_inv_def)
  from UnregisterChannel_ok [where ch = "chan w", OF d x run prof] obtain s' where
    s': "UnregisterChannel x (chan w) (sched w) =
      Some (if has_profiler (sched w) then (chan w)(x := SetProfileData nullptr (chan w x)) else chan w, s')"
    "set (channels s') = set (channels (sched w)) - {x}" "state_queues s' = state_queues (sched w)" by blast
  from heaps_inv_queue [OF hi x] obtain q where
    "state_queues (sched w) (single_thread_object (chan w x)) = Some q"
    "heap_set (channel_heap q) = jobs_of (chan w) (sched w) (single_thread_object (chan w x))" .
  with s' ci x job show ?thesis
    by (simp add: ChannelImpl_destroy_def channel_inv_def jobs_of_def SetProfileData_def)
qed

end
