(* ===== verification/Example_Pipelines.thy ===== *)
theory Example_Pipelines
  imports Life_Cycle
begin

text \<open>
  Concrete pipelines, built by the operations themselves, at which the properties are instantiated: a
  scheduler with two workers and three channels: 21 and 22 belong to the node 7 and are scheduled, 23 is polled.
\<close>

definition ex_blank :: channel where
  "ex_blank = \<lparr>single_thread_object = 0, has_callback = False, pool = 0, free_packets = [],
     queued_packets = steady_heap_new, channel_name = 0, channel_capacity = 0, packet_size = 1, channel_base = 0,
     profile_data = 0, packet_time = (\<lambda>_. 0), op_time = (\<lambda>_. 0), profile_log = []\<rparr>"

definition ex_new :: pipeline where
  "ex_new = \<lparr>chan = (\<lambda>_. ex_blank), sched = the (scheduler_new 2 False)\<rparr>"

definition ex_one :: pipeline where
  "ex_one = the (ChannelImpl_new 11 2 8 7 True 1000 0 21 ex_new)"

definition ex_two :: pipeline where
  "ex_two = the (ChannelImpl_new 12 1 8 7 True 2000 0 22 ex_one)"

definition ex_built :: pipeline where
  "ex_built = the (ChannelImpl_new 13 1 16 nullptr False 3000 0 23 ex_two)"

lemma ex_new_inv:
  "pipeline_inv ex_new" "\<not> running (sched ex_new)" "all_enabled (sched ex_new)" "channels (sched ex_new) = []"
  "workers_number (sched ex_new) = 2" "workers (sched ex_new) = 0" "valid_state (sched ex_new)"
  using scheduler_new_ok [of 2 False "\<lambda>_. ex_blank"] by (auto simp: ex_new_def)

lemma ex_one_inv:
  "ChannelImpl_new 11 2 8 7 True 1000 0 21 ex_new = Some ex_one" "pipeline_inv ex_one" "\<not> running (sched ex_one)"
  "all_enabled (sched ex_one)" "channels (sched ex_one) = [21]" "workers_number (sched ex_one) = 2"
  "workers (sched ex_one) = 0" "valid_state (sched ex_one)"
  using ChannelImpl_new_ok [OF ex_new_inv(1,2), of 21 2 8 1000 11 7 True 0] ex_new_inv
  by (auto simp: ex_one_def nullptr_def)

lemma ex_two_inv:
  "ChannelImpl_new 12 1 8 7 True 2000 0 22 ex_one = Some ex_two" "pipeline_inv ex_two" "\<not> running (sched ex_two)"
  "all_enabled (sched ex_two)" "channels (sched ex_two) = [21, 22]" "workers_number (sched ex_two) = 2"
  "workers (sched ex_two) = 0" "valid_state (sched ex_two)"
  using ChannelImpl_new_ok [OF ex_one_inv(2,3), of 22 1 8 2000 12 7 True 0] ex_one_inv
  by (auto simp: ex_two_def nullptr_def)

lemma ex_built_inv:
  "ChannelImpl_new 13 1 16 nullptr False 3000 0 23 ex_two = Some ex_built" "pipeline_inv ex_built" "\<not> running (sched ex_built)"
  "all_enabled (sched ex_built)" "channels (sched ex_built) = [21, 22, 23]" "workers_number (sched ex_built) = 2"
  "workers (sched ex_built) = 0" "valid_state (sched ex_built)"
  using ChannelImpl_new_ok [OF ex_two_inv(2,3), of 23 1 16 3000 13 nullptr False 0] ex_two_inv
  by (auto simp: ex_built_def nullptr_def)

lemma ex_built_no_profiler: "\<not> has_profiler (sched ex_built)"
proof -
  have "\<not> has_profiler (sched ex_new)" using scheduler_new_ok [of 2 False "\<lambda>_. ex_blank"] by (auto simp: ex_new_def)
  then have "\<not> has_profiler (sched ex_one)"
    using ChannelImpl_new_ok [OF ex_new_inv(1,2), of 21 2 8 1000 11 7 True 0] ex_one_inv(1) ex_new_inv(4)
    by (auto simp: nullptr_def)
  then have "\<not> has_profiler (sched ex_two)"
    using ChannelImpl_new_ok [OF ex_one_inv(2,3), of 22 1 8 2000 12 7 True 0] ex_two_inv(1) ex_one_inv(5)
    by (auto simp: nullptr_def)
  then show ?thesis
    using ChannelImpl_new_ok [OF ex_two_inv(2,3), of 23 1 16 3000 13 nullptr False 0] ex_built_inv(1) ex_two_inv(5)
    by (auto simp: nullptr_def)
qed

lemma ex_init: "init_free_packets 1000 2 8 = [1008, 1000]" "init_free_packets b 1 n = [b]" "init_free_packets b (Suc 0) n = [b]"
  by (simp_all add: init_free_packets_def numeral_2_eq_2)

lemma ex_one_chan:
  "free_packets (chan ex_one 21) = [1008, 1000]" "queued_set (chan ex_one 21) = {}" "op_time (chan ex_one 21) = (\<lambda>_. 0)"
  "has_callback (chan ex_one 21)" "single_thread_object (chan ex_one 21) = 7"
  "set (free_packets (chan ex_one 21)) = slots (chan ex_one 21)"
  using ChannelImpl_new_ok [OF ex_new_inv(1,2), of 21 2 8 1000 11 7 True 0] ex_new_inv
  by (auto simp: ex_one_def nullptr_def ex_init)

lemma ex_two_chan:
  "chan ex_two 21 = chan ex_one 21" "free_packets (chan ex_two 22) = [2000]" "queued_set (chan ex_two 22) = {}"
  "op_time (chan ex_two 22) = (\<lambda>_. 0)" "has_callback (chan ex_two 22)" "single_thread_object (chan ex_two 22) = 7"
  "set (free_packets (chan ex_two 22)) = slots (chan ex_two 22)"
  using ChannelImpl_new_ok [OF ex_one_inv(2,3), of 22 1 8 2000 12 7 True 0] ex_one_inv
  by (auto simp: ex_two_def nullptr_def ex_init)

lemma ex_built_chan:
  "chan ex_built 21 = chan ex_one 21" "chan ex_built 22 = chan ex_two 22" "free_packets (chan ex_built 23) = [3000]"
  "queued_set (chan ex_built 23) = {}" "\<not> has_callback (chan ex_built 23)"
  "set (free_packets (chan ex_built 23)) = slots (chan ex_built 23)"
  using ChannelImpl_new_ok [OF ex_two_inv(2,3), of 23 1 16 3000 13 nullptr False 0] ex_two_inv ex_two_chan(1)
  by (auto simp: ex_built_def nullptr_def ex_init)

text \<open>
  A user thread has acquired the first packet of channel 1 and filled it with data recorded at time 3;
  then it pushed it.
\<close>

definition ex_acquired :: pipeline where
  "ex_acquired = snd (the (Acquire 4 21 ex_built))"

definition ex_filling :: pipeline where
  "ex_filling = set_channel 21 (construct_packet 3 1000 (chan ex_acquired 21)) ex_acquired"

definition ex_queued :: pipeline where
  "ex_queued = the (Push 5 21 1000 ex_filling)"

lemma ex_acquired_facts:
  "Acquire 4 21 ex_built = Some (Some 1000, ex_acquired)" "pipeline_inv ex_acquired" "local_change 21 ex_built ex_acquired"
  "in_transit ex_acquired 21 1000" "free_packets (chan ex_acquired 21) = [1008]" "queued_set (chan ex_acquired 21) = {}"
  "op_time (chan ex_acquired 21) 1000 = 4"
  using Acquire_free [OF ex_built_inv(2), of 21 "[1008]" 1000 4] ex_built_inv ex_built_chan ex_one_chan
  by (auto simp: ex_acquired_def)

lemma ex_filling_facts:
  "pipeline_inv ex_filling" "in_transit ex_filling 21 1000" "queued_set (chan ex_filling 21) = {}"
  "free_packets (chan ex_filling 21) = [1008]" "op_time (chan ex_filling 21) 1000 = 4"
  "packet_time (chan ex_filling 21) 1000 = 3" "channels (sched ex_filling) = [21, 22, 23]"
  "local_change 21 ex_built ex_acquired \<Longrightarrow> sched ex_filling = sched ex_acquired"
  using construct_ok [OF ex_acquired_facts(2,4)] ex_acquired_facts local_change_registered [of 21 ex_built ex_acquired]
    ex_built_inv
  by (simp_all add: ex_filling_def)

lemma ex_queued_facts:
  "Push 5 21 1000 ex_filling = Some ex_queued" "pipeline_inv ex_queued" "channels (sched ex_queued) = [21, 22, 23]"
  "queued_set (chan ex_queued 21) = {1000}" "free_packets (chan ex_queued 21) = [1008]"
  "packet_time (chan ex_queued 21) 1000 = 3" "same_static (chan ex_queued 21) (chan ex_filling 21)"
  "op_time (chan ex_queued 21) 1000 = 4"
proof -
  have x: "21 \<in> set (channels (sched ex_filling))" by (simp add: ex_filling_facts(7))
  have t: "packet_time (chan ex_filling 21) 1000 \<le> 5" "op_time (chan ex_filling 21) 1000 \<le> 5" "5 < kMaxTime"
    by (simp_all add: ex_filling_facts(5,6) kMaxTime_def)
  note push = Push_ok [OF ex_filling_facts(1) x ex_filling_facts(2) t]
  then obtain w' where w': "Push 5 21 1000 ex_filling = Some w'" by blast
  then have eq: "w' = ex_queued" by (simp add: ex_queued_def)
  show "Push 5 21 1000 ex_filling = Some ex_queued" using w' eq by simp
  from push w' eq show "pipeline_inv ex_queued" "channels (sched ex_queued) = [21, 22, 23]"
    "queued_set (chan ex_queued 21) = {1000}" "free_packets (chan ex_queued 21) = [1008]"
    "packet_time (chan ex_queued 21) 1000 = 3" "same_static (chan ex_queued 21) (chan ex_filling 21)"
    "op_time (chan ex_queued 21) 1000 = 4"
    using ex_filling_facts(3-7) by (simp_all add: same_config_def)
qed


lemma ex_frames:
  "same_config (sched ex_built) (sched ex_queued)" "chan ex_queued 22 = chan ex_two 22" "chan ex_queued 23 = chan ex_built 23"
  "same_static (chan ex_queued 21) (chan ex_one 21)"
proof -
  have "21 \<in> set (channels (sched ex_acquired))"
    using local_change_registered [OF ex_acquired_facts(3)] ex_built_inv(5) by simp
  note c = construct_ok [OF ex_acquired_facts(2,4) this, where ts = 3, folded ex_filling_def]
  have x: "21 \<in> set (channels (sched ex_filling))" by (simp add: ex_filling_facts(7))
  have t: "packet_time (chan ex_filling 21) 1000 \<le> 5" "op_time (chan ex_filling 21) 1000 \<le> 5" "5 < kMaxTime"
    by (simp_all add: ex_filling_facts(5,6) kMaxTime_def)
  note push = Push_ok [OF ex_filling_facts(1) x ex_filling_facts(2) t] ex_queued_facts(1)
  have l: "same_config (sched ex_built) (sched ex_acquired)" "\<forall>y. y \<noteq> 21 \<longrightarrow> chan ex_acquired y = chan ex_built y"
    "same_static (chan ex_acquired 21) (chan ex_built 21)"
    using ex_acquired_facts(3) by (simp_all add: local_change_def)
  have "same_config (sched ex_filling) (sched ex_queued)" using push by auto
  then show "same_config (sched ex_built) (sched ex_queued)" using l(1) c(3) same_config_trans by metis
  have "chan ex_queued y = chan ex_built y" if "y \<noteq> 21" for y using push c(8) [OF that] l(2) that by auto
  then show "chan ex_queued 22 = chan ex_two 22" "chan ex_queued 23 = chan ex_built 23" using ex_built_chan by simp_all
  have "same_static (chan ex_queued 21) (chan ex_filling 21)" by (rule ex_queued_facts)
  then show "same_static (chan ex_queued 21) (chan ex_one 21)"
    using c(9) l(3) ex_built_chan(1) same_static_trans by metis
qed

lemma ex_slots: "slots (chan ex_one 21) = {1000, 1008}" "slots (chan ex_two 22) = {2000}" "slots (chan ex_built 23) = {3000}"
  using ex_one_chan(1,6) ex_two_chan(2,7) ex_built_chan(3,6) by (simp_all add: insert_commute)

lemma same_config_all_enabled: "same_config s s' \<Longrightarrow> all_enabled s \<Longrightarrow> all_enabled s'"
proof -
  assume s: "same_config s s'" "all_enabled s"
  show "all_enabled s'"
    unfolding all_enabled_def
  proof (intro allI impI)
    fix st q assume q: "state_queues s' st = Some q"
    from s(1) have "map_option enabled (state_queues s' st) = map_option enabled (state_queues s st)"
      by (simp add: same_config_def)
    with q have "map_option enabled (state_queues s st) = Some (enabled q)" by simp
    then obtain r where "state_queues s st = Some r" "enabled r = enabled q" by (cases "state_queues s st") auto
    with s(2) show "enabled q" by (auto simp: all_enabled_def)
  qed
qed

subsection \<open>Running worlds\<close>

definition ex_before :: "pipeline \<Rightarrow> world" where
  "ex_before w = \<lparr>pipe = w, pcs = (\<lambda>_. Idle), held = (\<lambda>_ _. None), now = 6, stopping = False\<rparr>"

definition ex_start :: "pipeline \<Rightarrow> world" where
  "ex_start w = ex_before (w\<lparr>sched := the (Start True (sched w))\<rparr>)"

lemma ex_not_in_transit:
  "x \<in> {21, 22, 23} \<Longrightarrow> \<not> in_transit ex_built x p" "x \<in> {21, 22, 23} \<Longrightarrow> \<not> in_transit ex_queued x p"
proof -
  have s: "slots (chan ex_queued 21) = {1000, 1008}" using same_staticD(3) [OF ex_frames(4)] ex_slots(1) by simp
  show "x \<in> {21, 22, 23} \<Longrightarrow> \<not> in_transit ex_built x p"
    using ex_slots ex_built_chan ex_two_chan(2,3) ex_one_chan(1) by (auto simp: in_transit_def)
  show "x \<in> {21, 22, 23} \<Longrightarrow> \<not> in_transit ex_queued x p"
    using s ex_slots ex_built_chan ex_two_chan(2,3) ex_queued_facts(4,5) ex_frames(2,3) by (auto simp: in_transit_def)
qed

lemma ex_start_started:
  assumes w: "pipeline_inv w" "same_config (sched ex_built) (sched w)" "past 6 w"
    and tr: "\<And>x p. x \<in> {21, 22, 23} \<Longrightarrow> \<not> in_transit w x p"
  shows "reachable (ex_start w)" "pipe (ex_start w) = w\<lparr>sched := the (Start True (sched w))\<rparr>"
    "worker_count (ex_start w) = 2" "keep_running (sched (pipe (ex_start w)))"
    "state_queue (sched (pipe (ex_start w))) = state_queue (sched w)"
    "state_queues (sched (pipe (ex_start w))) = state_queues (sched w)" "channels (sched (pipe (ex_start w))) = [21, 22, 23]"
    "chan (pipe (ex_start w)) = chan w"
proof -
  let ?s = "sched w"
  have s: "\<not> running ?s" "valid_state ?s" "workers_number ?s = 2" "workers ?s = 0" "channels ?s = [21, 22, 23]"
    using w(2) ex_built_inv by (simp_all add: same_config_def)
  have "all_enabled ?s" using w(2) ex_built_inv(4) by (rule same_config_all_enabled)
  moreover have "ownership (ex_before w)" using tr s(5) by (simp add: ex_before_def ownership_def registered_def)
  moreover have "clock_inv (ex_before w)" using w(3) by (simp add: ex_before_def clock_inv_def kMaxTime_def)
  ultimately have "\<exists>s'. Start True ?s = Some s' \<and>
      started ((ex_before w)\<lparr>pipe := (pipe (ex_before w))\<lparr>sched := s'\<rparr>, pcs := (\<lambda>_. Idle)\<rparr>)"
    using Start_started [of "ex_before w" True] w(1) s by (simp add: ex_before_def)
  then have "started (ex_start w)" by (auto simp: ex_start_def ex_before_def)
  then show "reachable (ex_start w)" by (rule reachable.start)
  show "pipe (ex_start w) = w\<lparr>sched := the (Start True (sched w))\<rparr>" by (simp add: ex_start_def ex_before_def)
  note e = Start_eq [OF s(1,2), of True]
  show "worker_count (ex_start w) = 2" using e s by (simp add: ex_start_def ex_before_def worker_count_def)
  show "keep_running (sched (pipe (ex_start w)))" "state_queue (sched (pipe (ex_start w))) = state_queue (sched w)"
    "state_queues (sched (pipe (ex_start w))) = state_queues (sched w)" "channels (sched (pipe (ex_start w))) = [21, 22, 23]"
    "chan (pipe (ex_start w)) = chan w"
    using e s by (simp_all add: ex_start_def ex_before_def)
qed


definition ex_world :: world where
  "ex_world = ex_start ex_queued"

definition ex_locking :: world where
  "ex_locking = ex_world\<lparr>pcs := (pcs ex_world)(0 := Locking)\<rparr>"

definition ex_servicing :: world where
  "ex_servicing = hold 21 1000 (Some Processing)
     (ex_locking\<lparr>pipe := snd (the (pick_task 6 (pipe ex_locking))), pcs := (pcs ex_locking)(0 := Executing 7 21 1000)\<rparr>)"

lemma ex_queued_jobs: "x \<in> {21, 22, 23} \<Longrightarrow> p \<in> queued_set (chan ex_queued x) \<longleftrightarrow> x = 21 \<and> p = 1000"
  using ex_queued_facts(4) ex_frames(2,3) ex_two_chan(3) ex_built_chan(4) by auto

lemma ex_queued_past: "past 6 ex_queued"
  using ex_queued_jobs ex_queued_facts(3,6) by (auto simp: past_def)

lemmas ex_world_facts = ex_start_started [OF ex_queued_facts(2) ex_frames(1) ex_queued_past ex_not_in_transit(2), folded ex_world_def]

lemma ex_locking_facts:
  "reachable ex_locking" "pipe ex_locking = pipe ex_world" "pcs ex_locking 0 = Locking" "now ex_locking = 6"
  "worker_count ex_locking = 2" "held ex_locking = (\<lambda>_ _. None)"
proof -
  have "step ex_world (ex_world\<lparr>pcs := (pcs ex_world)(0 := if keep_running (sched (pipe ex_world)) then Locking else Exited)\<rparr>)"
    by (rule step.loop_check) (use ex_world_facts in \<open>simp_all add: ex_world_def ex_start_def ex_before_def\<close>)
  then have "step ex_world ex_locking" using ex_world_facts(4) by (simp add: ex_locking_def)
  with ex_world_facts(1) show "reachable ex_locking" by (rule reachable.step)
  show "worker_count ex_locking = 2" using ex_world_facts(3) by (simp add: ex_locking_def worker_count_def)
qed (simp_all add: ex_locking_def ex_world_def ex_start_def ex_before_def)

lemma ex_ready: "ready_states (sched (pipe ex_locking)) \<noteq> {}"
proof
  assume r: "ready_states (sched (pipe ex_locking)) = {}"
  have inv: "world_inv ex_locking" using ex_locking_facts(1) by (rule world_inv_reachable)
  have eq: "chan (pipe ex_locking) = chan ex_queued" using ex_locking_facts(2) ex_world_facts(8) by simp
  have x: "21 \<in> set (channels (sched (pipe ex_locking)))" using ex_locking_facts(2) ex_world_facts(7) by simp
  have "\<not> servicing ex_locking i st" for i st
    by (simp add: servicing_def ex_locking_def ex_world_def ex_start_def ex_before_def)
  moreover have "single_thread_object (chan (pipe ex_locking) 21) \<in> dom (state_queues (sched (pipe ex_locking)))"
    using inv x by (auto simp: world_inv_def pipeline_inv_def sched_inv_def heaps_inv_def)
  ultimately have "is_enabled (sched (pipe ex_locking)) (single_thread_object (chan (pipe ex_locking) 21))"
    using inv by (simp add: world_inv_def exclusion_def)
  from no_ready_no_job [OF world_invD(1) [OF inv] r x this] show False
    using eq ex_queued_facts(4) same_staticD(2) [OF ex_frames(4)] ex_one_chan(4) by simp
qed

lemma ex_servicing_facts:
  "reachable ex_servicing" "servicing ex_servicing 0 7" "21 \<in> registered ex_servicing"
  "held ex_servicing 21 1000 = Some Processing" "now ex_servicing = 6"
  "pick_task 6 (pipe ex_locking) = Some (Some (7, 21, 1000), pipe ex_servicing)" "step ex_locking ex_servicing"
proof -
  have inv: "world_inv ex_locking" using ex_locking_facts(1) by (rule world_inv_reachable)
  have eq: "chan (pipe ex_locking) = chan ex_queued" using ex_locking_facts(2) ex_world_facts(8) by simp
  have chs: "channels (sched (pipe ex_locking)) = [21, 22, 23]" using ex_locking_facts(2) ex_world_facts(7) by simp
  have past: "past 6 (pipe ex_locking)" using world_invD(2) [OF inv] ex_locking_facts(4) by simp
  from pick_task_ok [OF world_invD(1) [OF inv] ex_ready past] obtain st x p w' where pick: "pick_task 6 (pipe ex_locking) = Some (Some (st, x, p), w')"
    "earliest_job (pipe ex_locking) x p" "st = single_thread_object (chan (pipe ex_locking) x)"
    "same_setup (sched (pipe ex_locking)) (sched w')" "wakes (sched (pipe ex_locking)) (sched w')"
    by (elim exE conjE) (rule that)
  have "x \<in> {21, 22, 23}" "p \<in> queued_set (chan ex_queued x)" using pick(2) chs eq by (auto simp: earliest_job_def)
  then have xp: "x = 21" "p = 1000" using ex_queued_jobs by simp_all
  then have st: "st = 7" using pick(3) eq same_staticD(1) [OF ex_frames(4)] ex_one_chan(5) by simp
  show p: "pick_task 6 (pipe ex_locking) = Some (Some (7, 21, 1000), pipe ex_servicing)"
    using pick(1) xp st by (simp add: ex_servicing_def)
  have pc: "((pcs ex_locking)(0 := Executing 7 21 1000)) i \<noteq> Waiting" for i
    by (simp add: ex_locking_def ex_world_def ex_start_def ex_before_def)
  then have del: "delivered (worker_count ex_locking) (sched (pipe ex_locking)) (sched (pipe ex_servicing))
      ((pcs ex_locking)(0 := Executing 7 21 1000)) ((pcs ex_locking)(0 := Executing 7 21 1000))"
    unfolding delivered_def by (simp add: wake_one.nobody pc)
  have eqW: "ex_servicing = hold 21 1000 (Some Processing)
      (ex_locking\<lparr>pipe := pipe ex_servicing, pcs := (pcs ex_locking)(0 := Executing 7 21 1000)\<rparr>)"
    unfolding ex_servicing_def by simp
  have "step ex_locking (hold 21 1000 (Some Processing)
      (ex_locking\<lparr>pipe := pipe ex_servicing, pcs := (pcs ex_locking)(0 := Executing 7 21 1000)\<rparr>))"
    by (rule step.pick [OF _ ex_locking_facts(3) _ del]) (simp_all only: ex_locking_facts(4,5) p zero_less_numeral)
  then show st1: "step ex_locking ex_servicing" by (simp only: eqW [symmetric])
  from ex_locking_facts(1) st1 show "reachable ex_servicing" by (rule reachable.step)
  have w': "pipe ex_servicing = w'" using pick(1) by (simp add: ex_servicing_def)
  have "pcs ex_servicing 0 = Executing 7 21 1000" by (simp add: ex_servicing_def)
  moreover have "worker_count ex_servicing = 2"
    using pick(4) w' ex_locking_facts(5) by (simp add: worker_count_def same_setup_def)
  ultimately show "servicing ex_servicing 0 7" by (simp add: servicing_def)
  show "21 \<in> registered ex_servicing" using pick(4) w' chs by (simp add: registered_def same_setup_def)
qed (simp_all add: ex_servicing_def ex_locking_facts(4))

text \<open>Both workers have gone to sleep over the pipeline without packets.\<close>

definition ex_asleep :: world where
  "ex_asleep = (ex_start ex_built)\<lparr>pcs := (\<lambda>_. Idle)(0 := Waiting, 1 := Waiting)\<rparr>"

lemma ex_built_past: "past 6 ex_built"
  using ex_built_inv(5) ex_built_chan ex_two_chan ex_one_chan by (simp add: past_def)

lemma same_config_self: "same_config (sched ex_built) (sched ex_built)" by simp

lemmas ex_quiet_facts = ex_start_started [OF ex_built_inv(2) same_config_self ex_built_past ex_not_in_transit(1)]

lemma ex_go_to_sleep:
  assumes r: "reachable W" and W: "pipe W = pipe (ex_start ex_built)" and i: "i < 2" "pcs W i = Idle"
  shows "reachable (W\<lparr>pcs := (pcs W)(i := Waiting)\<rparr>)"
proof -
  let ?W1 = "W\<lparr>pcs := (pcs W)(i := Locking)\<rparr>"
  have kr: "keep_running (sched (pipe W))" "worker_count W = 2"
    using W ex_quiet_facts(3,4) by (simp_all add: worker_count_def)
  have "step W ?W1" using step.loop_check [of i W] i kr by simp
  with r have r1: "reachable ?W1" by (rule reachable.step)
  have "pipeline_inv (pipe W)" using world_invD(1) [OF world_inv_reachable [OF r]] .
  then have "ready_states (sched (pipe W)) = {}"
    by (rule no_job_no_ready) (use W ex_quiet_facts(7,8) ex_built_chan ex_two_chan ex_one_chan in auto)
  then have "heap_empty (state_queue (sched (pipe W)))"
    using \<open>pipeline_inv (pipe W)\<close> by (simp add: pipeline_inv_def sched_inv_def states_inv_def)
  then have "step ?W1 (?W1\<lparr>pcs := (pcs ?W1)(i := Waiting)\<rparr>)"
    using i kr by (intro step.sleep) (simp_all add: worker_count_def)
  with r1 have "reachable (?W1\<lparr>pcs := (pcs ?W1)(i := Waiting)\<rparr>)" by (rule reachable.step)
  then show ?thesis by simp
qed

lemma ex_asleep_facts:
  "reachable ex_asleep" "keep_running (sched (pipe ex_asleep))" "\<forall>i<worker_count ex_asleep. pcs ex_asleep i = Waiting"
  "21 \<in> registered ex_asleep" "has_callback (chan (pipe ex_asleep) 21)"
proof -
  let ?W0 = "ex_start ex_built"
  let ?W1 = "?W0\<lparr>pcs := (pcs ?W0)(0 := Waiting)\<rparr>"
  have idle: "pcs ?W0 = (\<lambda>_. Idle)" by (simp add: ex_start_def ex_before_def)
  have r1: "reachable ?W1" using ex_quiet_facts(1) by (rule ex_go_to_sleep) (simp_all add: idle)
  have "reachable (?W1\<lparr>pcs := (pcs ?W1)(1 := Waiting)\<rparr>)" using r1 by (rule ex_go_to_sleep) (simp_all add: idle)
  then show "reachable ex_asleep" by (simp add: ex_asleep_def idle)
  have "worker_count ex_asleep = 2" using ex_quiet_facts(3) by (simp add: ex_asleep_def worker_count_def)
  then show "\<forall>i<worker_count ex_asleep. pcs ex_asleep i = Waiting" by (auto simp: ex_asleep_def less_Suc_eq numeral_2_eq_2)
  show "keep_running (sched (pipe ex_asleep))" "21 \<in> registered ex_asleep" "has_callback (chan (pipe ex_asleep) 21)"
    using ex_quiet_facts(4,7,8) ex_built_chan(1) ex_one_chan(4) by (simp_all add: ex_asleep_def registered_def)
qed


text \<open>The pipeline with the queued packet, its channels connected to their fronts, and started.\<close>

definition ex_impl :: "addr \<Rightarrow> addr" where
  "ex_impl b = b - 500"

definition ex_idle :: pipeline where
  "ex_idle = (let f = \<lambda>x w. set_channel x (SetBase (500 + x) (chan w x)) w in f 23 (f 22 (f 21 (pipe ex_world))))"

lemma ex_idle_sched: "sched ex_idle = sched (pipe ex_world)"
  by (simp add: ex_idle_def Let_def)

lemma ex_idle_chan: "x \<in> {21, 22, 23} \<Longrightarrow> chan ex_idle x = SetBase (500 + x) (chan ex_queued x)"
  using ex_world_facts(8) by (auto simp: ex_idle_def Let_def)

lemma ex_idle_queue: "x \<in> {21, 22, 23} \<Longrightarrow> queued_set (chan ex_idle x) = queued_set (chan ex_queued x)"
  by (simp add: ex_idle_chan SetBase_def queued_set_def)

lemma ex_idle_ok: "idle ex_impl 6 ex_idle"
proof -
  have inv: "world_inv ex_world" using ex_world_facts(1) by (rule world_inv_reachable)
  have chs: "channels (sched ex_idle) = [21, 22, 23]" using ex_world_facts(7) ex_idle_sched by simp
  have w: "set (channels (sched (pipe ex_world))) = {21, 22, 23}" using ex_world_facts(7) by simp
  have pinv: "pipeline_inv ex_idle"
    unfolding ex_idle_def Let_def using world_invD(1) [OF inv] w by (intro SetBase_ok) simp_all
  have "past 6 ex_idle"
    unfolding past_def chs
  proof (intro ballI)
    fix x p assume x: "x \<in> set [21, 22, 23 :: nat]" and p: "p \<in> queued_set (chan ex_idle x)"
    then have "x = 21" "p = 1000" using ex_idle_queue [of x] ex_queued_jobs [of x p] by auto
    then show "packet_time (chan ex_idle x) p \<le> 6" using ex_idle_chan [of 21] ex_queued_facts(6) by (simp add: SetBase_def)
  qed
  moreover have "keep_running (sched ex_idle)" using ex_world_facts(4) ex_idle_sched by simp
  moreover have "is_enabled (sched ex_idle) (single_thread_object (chan ex_idle x)) \<and>
      channel_base (chan ex_idle x) \<noteq> nullptr \<and> ex_impl (channel_base (chan ex_idle x)) = x"
    if x: "x \<in> set (channels (sched ex_idle))" for x
  proof -
    have "single_thread_object (chan ex_idle x) \<in> dom (state_queues (sched ex_idle))"
      using pinv x by (simp add: pipeline_inv_def sched_inv_def heaps_inv_def)
    moreover have "\<not> servicing ex_world i st" for i st
      by (simp add: servicing_def ex_world_def ex_start_def ex_before_def)
    ultimately have "is_enabled (sched ex_idle) (single_thread_object (chan ex_idle x))"
      using inv ex_idle_sched by (simp add: world_inv_def exclusion_def)
    moreover have "channel_base (chan ex_idle x) = 500 + x" using x chs ex_idle_chan by (auto simp: SetBase_def)
    ultimately show ?thesis by (simp add: ex_impl_def nullptr_def)
  qed
  ultimately show ?thesis using pinv by (simp add: idle_def)
qed

lemma ex_idle_jobs: "jobs ex_idle = {(21, 1000)}"
proof -
  have "channels (sched ex_idle) = [21, 22, 23]" using ex_world_facts(7) ex_idle_sched by simp
  moreover have "has_callback (chan ex_idle 21)"
    using ex_idle_chan [of 21] same_staticD(2) [OF ex_frames(4)] ex_one_chan(4) by (simp add: SetBase_def)
  ultimately show ?thesis
    using ex_idle_queue ex_queued_jobs by (auto simp: jobs_def)
qed


lemma ex_updated:
  "updated (chan ex_filling) 21 (chan ex_queued)" "updated (chan ex_queued) 21 (chan ex_filling)"
proof -
  have x: "21 \<in> set (channels (sched ex_filling))" by (simp add: ex_filling_facts(7))
  have t: "packet_time (chan ex_filling 21) 1000 \<le> 5" "op_time (chan ex_filling 21) 1000 \<le> 5" "5 < kMaxTime"
    by (simp_all add: ex_filling_facts(5,6) kMaxTime_def)
  from Push_ok [OF ex_filling_facts(1) x ex_filling_facts(2) t] ex_queued_facts(1)
  have "\<forall>y. y \<noteq> 21 \<longrightarrow> chan ex_queued y = chan ex_filling y" by auto
  then show "updated (chan ex_filling) 21 (chan ex_queued)" "updated (chan ex_queued) 21 (chan ex_filling)"
    using same_staticD(1,2) [OF ex_queued_facts(7)] by (simp_all add: updated_def)
qed

lemma ex_has_job: "has_job (chan ex_queued) 21" "\<not> has_job (chan ex_filling) 21"
  using ex_queued_facts(4) ex_filling_facts(3) same_staticD(2) [OF ex_frames(4)] ex_one_chan(4)
  by (simp_all add: has_job_def)

lemma ex_sched_inv:
  "sched_inv (chan ex_filling) (sched ex_filling)" "sched_inv (chan ex_queued) (sched ex_queued)"
  using ex_filling_facts(1) ex_queued_facts(2) by (simp_all add: pipeline_inv_def)

lemma ex_times: "times_ok (chan ex_queued) (sched ex_filling)"
  using pipeline_inv_times [OF ex_queued_facts(2)] ex_queued_facts(3) ex_filling_facts(7) by (simp add: times_ok_def)

end
