(* ===== verification/Byte_Order.thy ===== *)
theory Byte_Order
  imports Pipert_Prelude "HOL-Library.Word"
begin

unbundle bit_operations_syntax

text \<open>
  Model of \<^verbatim>\<open>src/Endianness.h\<close> and \<^verbatim>\<open>src/Endianness.cpp\<close>. The conversions look at the
  object representation of an integer, so the byte order of the host is an argument: \<open>big\<close> is true on a
  big-endian machine. An integer type of n bytes is a word of 8n bits; a \<^verbatim>\<open>float\<close> or
  \<^verbatim>\<open>double\<close> is its bit pattern, which is what the unions in the code access. Signed types
  differ from unsigned ones only in the bits that the cast to \<^verbatim>\<open>uint8_t\<close> cuts off.
\<close>

type_synonym byte = "8 word"

subsection \<open>Object representation\<close>

definition size_of :: "'a::len word \<Rightarrow> nat" where
  "size_of (v :: 'a word) = LENGTH('a) div 8"

definition store_le :: "'a::len word \<Rightarrow> byte list" where
  "store_le v = map (\<lambda>i. ucast (drop_bit (8 * i) v)) [0..<size_of v]"

fun load_le :: "byte list \<Rightarrow> 'a::len word" where
  "load_le [] = 0"
| "load_le (b # bs) = ucast b OR push_bit 8 (load_le bs)"

definition store :: "bool \<Rightarrow> 'a::len word \<Rightarrow> byte list" where
  "store big v = (if big then rev (store_le v) else store_le v)"

definition load :: "bool \<Rightarrow> byte list \<Rightarrow> 'a::len word" where
  "load big bs = (if big then load_le (rev bs) else load_le bs)"

subsection \<open>The conversions\<close>

text \<open>The loop writes the most significant byte of what is left and shifts it out.\<close>

fun h2n_bytes :: "nat \<Rightarrow> 'a::len word \<Rightarrow> byte list" where
  "h2n_bytes 0 val = []"
| "h2n_bytes (Suc n) val = ucast (drop_bit (LENGTH('a) - 8) val) # h2n_bytes n (push_bit 8 val)"

definition ConvertHostToNetworkByteOrder :: "bool \<Rightarrow> 'a::len word \<Rightarrow> 'a word" where
  "ConvertHostToNetworkByteOrder big val = load big (h2n_bytes (size_of val) val)"

fun n2h_loop :: "byte list \<Rightarrow> 'a::len word \<Rightarrow> 'a word" where
  "n2h_loop [] ret = ret"
| "n2h_loop (b # bs) ret = n2h_loop bs (push_bit 8 ret OR ucast b)"

definition ConvertNetworkToHostByteOrder :: "bool \<Rightarrow> 'a::len word \<Rightarrow> 'a word" where
  "ConvertNetworkToHostByteOrder big val = n2h_loop (store big val) 0"

text \<open>The specialisations for floating point (on bit patterns) and for types of one byte.\<close>

definition h2n_float :: "bool \<Rightarrow> 32 word \<Rightarrow> 32 word" where
  "h2n_float big f = ConvertHostToNetworkByteOrder big f"

definition h2n_double :: "bool \<Rightarrow> 64 word \<Rightarrow> 64 word" where
  "h2n_double big d = ConvertHostToNetworkByteOrder big d"

definition h2n_char :: "byte \<Rightarrow> byte" where
  "h2n_char c = c"

definition n2h_float :: "bool \<Rightarrow> 32 word \<Rightarrow> 32 word" where
  "n2h_float big f = ConvertNetworkToHostByteOrder big f"

definition n2h_double :: "bool \<Rightarrow> 64 word \<Rightarrow> 64 word" where
  "n2h_double big d = ConvertNetworkToHostByteOrder big d"

definition n2h_char :: "byte \<Rightarrow> byte" where
  "n2h_char c = c"

subsection \<open>Loading and storing\<close>

lemma bit_load_le:
  "bit (load_le bs :: 'a::len word) j \<longleftrightarrow> j < LENGTH('a) \<and> j < 8 * length bs \<and> bit (bs ! (j div 8)) (j mod 8)"
proof (induction bs arbitrary: j)
  case Nil
  show ?case by simp
next
  case (Cons b bs)
  show ?case
  proof (cases "j < 8")
    case True
    then show ?thesis by (auto simp: bit_simps)
  next
    case False
    then have "j div 8 = Suc ((j - 8) div 8)" "j mod 8 = (j - 8) mod 8" by (simp_all add: le_div_geq le_mod_geq)
    with False show ?thesis by (auto simp: bit_simps Cons.IH dest: bit_imp_le_length)
  qed
qed

lemma length_store_le [simp]: "length (store_le v) = size_of v"
  by (simp add: store_le_def)

lemma length_store [simp]: "length (store big v) = size_of v"
  by (simp add: store_def)

lemma load_store_le:
  fixes v :: "'a::len word"
  assumes "8 dvd LENGTH('a)"
  shows "load_le (store_le v) = v"
proof (rule bit_word_eqI)
  fix j assume j: "j < LENGTH('a)"
  have n: "LENGTH('a) = 8 * size_of v" using assms by (simp add: size_of_def)
  with j have "j div 8 < size_of v" by (simp add: less_mult_imp_div_less mult.commute)
  then have "bit (store_le v ! (j div 8)) (j mod 8) = bit v j"
    by (simp add: store_le_def bit_simps)
  with j n show "bit (load_le (store_le v) :: 'a word) j = bit v j" by (simp add: bit_load_le)
qed

lemma store_load_le:
  assumes "LENGTH('a) = 8 * length bs"
  shows "store_le (load_le bs :: 'a::len word) = bs"
proof (rule nth_equalityI)
  show len: "length (store_le (load_le bs :: 'a word)) = length bs" using assms by (simp add: size_of_def)
  fix i assume "i < length (store_le (load_le bs :: 'a word))"
  then have i: "i < length bs" by (simp only: len)
  have "bit (store_le (load_le bs :: 'a word) ! i) k = bit (bs ! i) k" if k: "k < 8" for k
  proof -
    have "8 * i + k < 8 * length bs" using i k by simp
    with i k assms show ?thesis by (simp add: store_le_def size_of_def bit_simps bit_load_le)
  qed
  then show "store_le (load_le bs :: 'a word) ! i = bs ! i" by (intro bit_word_eqI) simp
qed

lemma load_store:
  fixes v :: "'a::len word"
  shows "8 dvd LENGTH('a) \<Longrightarrow> load big (store big v) = v"
  by (simp add: load_def store_def load_store_le)

lemma store_load: "LENGTH('a) = 8 * length bs \<Longrightarrow> store big (load big bs :: 'a::len word) = bs"
  by (simp add: load_def store_def store_load_le)

lemma n2h_loop_eq: "n2h_loop bs ret = load_le (rev bs) OR push_bit (8 * length bs) ret"
proof (induction bs arbitrary: ret)
  case Nil
  show ?case by simp
next
  case (Cons b bs)
  have app: "load_le (cs @ [b]) = load_le cs OR push_bit (8 * length cs) (ucast b :: 'a word)" for cs
    by (induction cs) (simp_all add: push_bit_or or.assoc push_bit_push_bit add.commute)
  show ?case by (simp add: Cons.IH app push_bit_or push_bit_push_bit ac_simps)
qed

text \<open>The bytes the loop writes are the representation on a big-endian machine.\<close>

lemma length_h2n_bytes [simp]: "length (h2n_bytes n v) = n"
  by (induction n arbitrary: v) simp_all

lemma nth_h2n_bytes:
  "i < n \<Longrightarrow> h2n_bytes n (v :: 'a::len word) ! i = ucast (drop_bit (LENGTH('a) - 8) (push_bit (8 * i) v))"
proof (induction n arbitrary: v i)
  case 0
  then show ?case by simp
next
  case (Suc n)
  then show ?case by (cases i) (simp_all add: push_bit_push_bit add.commute)
qed

lemma h2n_bytes_big_endian:
  fixes v :: "'a::len word"
  assumes "8 dvd LENGTH('a)"
  shows "h2n_bytes (size_of v) v = rev (store_le v)"
proof (rule nth_equalityI)
  fix i assume "i < length (h2n_bytes (size_of v) v)"
  then have i: "i < size_of v" by simp
  have n: "LENGTH('a) = 8 * size_of v" using assms by (simp add: size_of_def)
  have "bit (h2n_bytes (size_of v) v ! i) k = bit (rev (store_le v) ! i) k" if k: "k < 8" for k
  proof -
    have "8 * i + 8 \<le> 8 * size_of v" using i by simp
    then have e: "8 * size_of v - 8 + k - 8 * i = 8 * (size_of v - Suc i) + k" "8 * i \<le> 8 * size_of v - 8 + k"
      "8 * size_of v + k - 8 < 8 * size_of v" using k by (simp_all add: diff_mult_distrib2)
    show ?thesis using i k e by (simp add: nth_h2n_bytes rev_nth store_le_def bit_simps n)
  qed
  then show "h2n_bytes (size_of v) v ! i = rev (store_le v) ! i" by (intro bit_word_eqI) simp
qed simp

text \<open>What is in memory after a conversion does not depend on the machine.\<close>

lemma store_h2n:
  fixes v :: "'a::len word"
  assumes "8 dvd LENGTH('a)"
  shows "store big (ConvertHostToNetworkByteOrder big v) = rev (store_le v)"
proof -
  have "LENGTH('a) = 8 * length (h2n_bytes (size_of v) v)" using assms by (simp add: size_of_def)
  from store_load [OF this, of big] show ?thesis
    using h2n_bytes_big_endian [OF assms, of v] by (simp add: ConvertHostToNetworkByteOrder_def)
qed

lemma n2h_store: "ConvertNetworkToHostByteOrder big v = load_le (rev (store big v))"
  by (simp add: ConvertNetworkToHostByteOrder_def n2h_loop_eq)

lemma n2h_h2n:
  fixes v :: "'a::len word"
  assumes "8 dvd LENGTH('a)"
  shows "ConvertNetworkToHostByteOrder big (ConvertHostToNetworkByteOrder big v) = v"
  by (simp add: n2h_store store_h2n [OF assms] load_store_le [OF assms])

lemma h2n_n2h:
  fixes v :: "'a::len word"
  assumes "8 dvd LENGTH('a)"
  shows "ConvertHostToNetworkByteOrder big (ConvertNetworkToHostByteOrder big v) = v"
proof -
  have "LENGTH('a) = 8 * length (rev (store big v))" using assms by (simp add: size_of_def)
  then have "store_le (ConvertNetworkToHostByteOrder big v) = rev (store big v)"
    by (simp add: n2h_store store_load_le)
  then have "h2n_bytes (size_of (ConvertNetworkToHostByteOrder big v)) (ConvertNetworkToHostByteOrder big v) = store big v"
    using h2n_bytes_big_endian [OF assms] by simp
  then show ?thesis using load_store [OF assms, of big v] by (simp add: ConvertHostToNetworkByteOrder_def size_of_def)
qed

subsection \<open>Properties\<close>

text \<open>
  C17: What the conversion leaves in memory does not depend on the byte order of the machine, and
  a machine of any byte order that loads those bytes and converts back gets the value.
\<close>

theorem byte_order_round_trip:
  fixes v :: "'a::len word"
  assumes "8 dvd LENGTH('a)"
  shows "store big (ConvertHostToNetworkByteOrder big v) = store big' (ConvertHostToNetworkByteOrder big' v) \<and>
    ConvertNetworkToHostByteOrder big' (load big' (store big (ConvertHostToNetworkByteOrder big v))) = v"
proof -
  have eq: "store big (ConvertHostToNetworkByteOrder big v) = store big' (ConvertHostToNetworkByteOrder big' v)"
    by (simp add: store_h2n [OF assms])
  then show ?thesis by (simp add: load_store [OF assms] n2h_h2n [OF assms])
qed

theorem byte_order_round_trip_witness:
  "ConvertNetworkToHostByteOrder True (load True (store False (ConvertHostToNetworkByteOrder False (0x01020304 :: 32 word)))) =
    (0x01020304 :: 32 word)"
proof -
  have "8 dvd LENGTH(32)" by simp
  from byte_order_round_trip [OF this, of False "0x01020304" True] show ?thesis by (rule conjunct2)
qed

end
