(* ===== verification/C_Strings.thy ===== *)
theory C_Strings
  imports Pipert_Prelude
begin

text \<open>
  The functions of the C library on strings that the code calls. A string is the list of its
  characters without the terminating zero, so \<^verbatim>\<open>strlen\<close> is the length.
\<close>

subsection \<open>Searching\<close>

definition starts_with :: "string \<Rightarrow> string \<Rightarrow> bool" where
  "starts_with s pat \<longleftrightarrow> take (length pat) s = pat"

text \<open>\<^verbatim>\<open>strstr(s, pat)\<close>: the position of the first occurrence.\<close>

fun strstr :: "string \<Rightarrow> string \<Rightarrow> nat option" where
  "strstr [] pat = (if pat = [] then Some 0 else None)"
| "strstr (c # s) pat = (if starts_with (c # s) pat then Some 0 else map_option Suc (strstr s pat))"

lemma strstr_zero: "strstr s pat = Some 0 \<longleftrightarrow> starts_with s pat"
  by (cases s) (auto simp: starts_with_def)

lemma starts_with_append [simp]: "starts_with (pat @ s) pat"
  by (simp add: starts_with_def)

lemma strstr_char: "c \<notin> set s \<Longrightarrow> strstr (s @ c # t) [c] = Some (length s)"
  by (induction s) (auto simp: starts_with_def)

lemma strstr_char_found:
  "strstr s [c] = Some n \<Longrightarrow> n < length s \<and> s ! n = c \<and> c \<notin> set (take n s)"
proof (induction s arbitrary: n)
  case (Cons d s)
  show ?case
  proof (cases "d = c")
    case True
    with Cons.prems show ?thesis by (simp add: starts_with_def)
  next
    case False
    with Cons show ?thesis by (auto simp: starts_with_def)
  qed
qed simp

subsection \<open>Decimal numbers\<close>

definition digit_char :: "nat \<Rightarrow> char" where
  "digit_char n = char_of (48 + n)"

definition is_digit :: "char \<Rightarrow> bool" where
  "is_digit c \<longleftrightarrow> 48 \<le> (of_char c :: nat) \<and> (of_char c :: nat) \<le> 57"

definition is_space :: "char \<Rightarrow> bool" where
  "is_space c \<longleftrightarrow> (of_char c :: nat) = 32 \<or> (9 \<le> (of_char c :: nat) \<and> (of_char c :: nat) \<le> 13)"

text \<open>\<^verbatim>\<open>printf("%d", n)\<close> for a number that is not negative.\<close>

fun decimal :: "nat \<Rightarrow> string" where
  "decimal n = (if n < 10 then [digit_char n] else decimal (n div 10) @ [digit_char (n mod 10)])"

declare decimal.simps [simp del]

fun digits_value :: "int \<Rightarrow> string \<Rightarrow> int" where
  "digits_value acc [] = acc"
| "digits_value acc (c # s) = (if is_digit c then digits_value (10 * acc + (of_char c - 48)) s else acc)"

definition atoi :: "string \<Rightarrow> int" where
  "atoi s = (case dropWhile is_space s of
     [] \<Rightarrow> 0
   | c # cs \<Rightarrow> if c = CHR ''-'' then - digits_value 0 cs
               else if c = CHR ''+'' then digits_value 0 cs
               else digits_value 0 (c # cs))"

lemma of_digit_char:
  assumes "n < 10"
  shows "(of_char (digit_char n) :: nat) = 48 + n" "(of_char (digit_char n) :: int) = 48 + int n"
proof -
  show nat: "(of_char (digit_char n) :: nat) = 48 + n" using assms by (simp add: digit_char_def)
  have "int (of_char (digit_char n)) = int (48 + n)" by (simp only: nat)
  then show "(of_char (digit_char n) :: int) = 48 + int n" by (simp add: of_nat_of_char)
qed

lemma is_digit_digit_char [simp]: "n < 10 \<Longrightarrow> is_digit (digit_char n)"
  by (simp add: is_digit_def of_digit_char)

lemma digits_value_snoc:
  "\<forall>c\<in>set s. is_digit c \<Longrightarrow> is_digit d \<Longrightarrow> digits_value acc (s @ [d]) = 10 * digits_value acc s + (of_char d - 48)"
  by (induction s arbitrary: acc) auto

lemma decimal_digits: "\<forall>c\<in>set (decimal n). is_digit c" "decimal n \<noteq> []"
proof (induction n rule: decimal.induct)
  case (1 n)
  {
    case 1
    then show ?case using "1.IH" by (cases "n < 10") (auto simp: decimal.simps [of n])
  next
    case 2
    then show ?case by (simp add: decimal.simps [of n])
  }
qed

lemma digits_value_decimal: "digits_value 0 (decimal n) = int n"
proof (induction n rule: decimal.induct)
  case (1 n)
  show ?case
  proof (cases "n < 10")
    case True
    then show ?thesis by (simp add: decimal.simps [of n] of_digit_char)
  next
    case False
    have "digits_value 0 (decimal (n div 10) @ [digit_char (n mod 10)]) = 10 * int (n div 10) + int (n mod 10)"
      using 1 [OF False] decimal_digits(1) [of "n div 10"] by (simp add: digits_value_snoc of_digit_char)
    moreover have "10 * int (n div 10) + int (n mod 10) = int n" by presburger
    ultimately show ?thesis using False by (simp add: decimal.simps [of n])
  qed
qed

lemma digits_value_stop:
  "\<forall>c\<in>set s. is_digit c \<Longrightarrow> \<not> is_digit d \<Longrightarrow> digits_value acc (s @ d # t) = digits_value acc s"
  by (induction s arbitrary: acc) auto

text \<open>Parsing undoes printing, whatever follows the number.\<close>

lemma atoi_decimal_rest: "\<not> is_digit d \<Longrightarrow> atoi (decimal n @ d # t) = int n"
proof -
  assume d: "\<not> is_digit d"
  obtain c cs where c: "decimal n = c # cs" using decimal_digits(2) [of n] by (cases "decimal n") auto
  then have "is_digit c" using decimal_digits(1) [of n] by simp
  then have "\<not> is_space c" "c \<noteq> CHR ''-''" "c \<noteq> CHR ''+''" by (auto simp: is_digit_def is_space_def)
  then have "atoi (decimal n @ d # t) = digits_value 0 (decimal n @ d # t)" by (simp add: atoi_def c)
  then show ?thesis using digits_value_stop [OF decimal_digits(1) [of n] d, of 0 t] digits_value_decimal [of n] by simp
qed

lemma atoi_decimal: "atoi (decimal n) = int n"
proof -
  obtain c cs where c: "decimal n = c # cs" using decimal_digits(2) [of n] by (cases "decimal n") auto
  then have d: "is_digit c" using decimal_digits(1) [of n] by simp
  then have "\<not> is_space c" "c \<noteq> CHR ''-''" "c \<noteq> CHR ''+''" by (auto simp: is_digit_def is_space_def)
  then show ?thesis using digits_value_decimal [of n] by (simp add: atoi_def c)
qed

lemma length_decimal: "n < 10 ^ k \<Longrightarrow> 0 < k \<Longrightarrow> length (decimal n) \<le> k"
proof (induction n arbitrary: k rule: decimal.induct)
  case (1 n)
  show ?case
  proof (cases "n < 10")
    case True
    with 1 show ?thesis by (simp add: decimal.simps [of n])
  next
    case False
    obtain j where j: "k = Suc j" using "1.prems"(2) by (cases k) auto
    with False "1.prems"(1) have "0 < j" by (cases j) auto
    moreover have "n div 10 < 10 ^ j" using "1.prems"(1) j by (simp add: less_mult_imp_div_less mult.commute)
    ultimately show ?thesis using "1.IH" [OF False, of j] False j by (simp add: decimal.simps [of n])
  qed
qed

end
