(* ===== verification/UDP_Connection.thy ===== *)
theory UDP_Connection
  imports Byte_Order C_Strings
begin

text \<open>
  Model of \<^verbatim>\<open>include/pipert/UDPConnection.h\<close> and \<^verbatim>\<open>src/UDPConnection.cpp\<close>.

  The operating system is not code of the repository: the results of its calls are arguments
  (\<open>fd\<close> of \<^verbatim>\<open>socket\<close>, \<open>aton\<close> of \<^verbatim>\<open>inet_aton\<close>, \<open>bound\<close> of \<^verbatim>\<open>bind\<close>, what \<^verbatim>\<open>poll\<close>
  returned, the datagram that \<^verbatim>\<open>recvfrom\<close> delivers, the exit status of a shell command), and
  what the code asks it to do is recorded in a \<open>net\<close>: which descriptors are open, their flags, and
  the datagrams handed over. \<open>raw\<close> is the memory of an object before its constructor runs.
\<close>

subsection \<open>State\<close>

record sock_addr =
  sin_port :: "16 word"
  sin_addr :: "32 word"

record udp_connection =
  socket_filedesc :: int
  max_packet_size :: int
  polling_timeout :: int
  local_address :: sock_addr
  remote_address :: sock_addr
  poll_fd :: int

record net =
  open_fds :: "int set"
  fd_flags :: "int \<Rightarrow> 32 word"
  mtu_discover :: "int set"
  datagrams :: "(sock_addr \<times> byte list) list"

definition O_NONBLOCK :: "32 word" where
  "O_NONBLOCK = 0x800"

definition htons :: "bool \<Rightarrow> int \<Rightarrow> 16 word" where
  "htons big port = ConvertHostToNetworkByteOrder big (word_of_int port)"

subsection \<open>Construction and destruction\<close>

text \<open>The end of both constructors.\<close>

definition finish_udp :: "bool \<Rightarrow> int \<Rightarrow> int \<Rightarrow> udp_connection \<Rightarrow> net \<Rightarrow> (udp_connection \<times> net) option" where
  "finish_udp dbg max_size timeout u n = do {
     let u1 = u\<lparr>max_packet_size := max_size, polling_timeout := timeout, poll_fd := socket_filedesc u\<rparr>;
     let n1 = (if socket_filedesc u \<in> open_fds n
               then n\<lparr>mtu_discover := insert (socket_filedesc u) (mtu_discover n)\<rparr> else n);
     check dbg (socket_filedesc u \<noteq> -1);
     Some (u1, n1)
   }"

definition open_socket :: "int \<Rightarrow> net \<Rightarrow> net" where
  "open_socket fd n = (if fd \<noteq> -1 then n\<lparr>open_fds := insert fd (open_fds n)\<rparr> else n)"

definition udp_connect ::
  "bool \<Rightarrow> bool \<Rightarrow> int \<Rightarrow> (string \<Rightarrow> 32 word option) \<Rightarrow> udp_connection \<Rightarrow> int \<Rightarrow> string \<Rightarrow> int \<Rightarrow> int \<Rightarrow> net \<Rightarrow>
     (udp_connection \<times> net) option" where
  "udp_connect dbg big fd aton raw remote_port remote max_size timeout n =
     (let u = raw\<lparr>socket_filedesc := fd\<rparr>; n1 = open_socket fd n in
      if fd \<noteq> -1
      then let u1 = u\<lparr>remote_address := \<lparr>sin_port = htons big remote_port, sin_addr = 0\<rparr>\<rparr> in
        (case aton remote of
           None \<Rightarrow> do { check dbg False; Some (u1\<lparr>socket_filedesc := -1\<rparr>, n1) }
         | Some a \<Rightarrow> finish_udp dbg max_size timeout (u1\<lparr>remote_address := (remote_address u1)\<lparr>sin_addr := a\<rparr>\<rparr>) n1)
      else finish_udp dbg max_size timeout u n1)"

definition INADDR_ANY :: "32 word" where
  "INADDR_ANY = 0"

definition udp_bind ::
  "bool \<Rightarrow> bool \<Rightarrow> int \<Rightarrow> int \<Rightarrow> udp_connection \<Rightarrow> int \<Rightarrow> int \<Rightarrow> int \<Rightarrow> net \<Rightarrow> (udp_connection \<times> net) option" where
  "udp_bind dbg big fd bound raw binding_port max_size timeout n =
     (let u = raw\<lparr>socket_filedesc := fd\<rparr>; n1 = open_socket fd n in
      if fd \<noteq> -1
      then let u1 = u\<lparr>remote_address := \<lparr>sin_port = 0, sin_addr = 0\<rparr>,
                      local_address := \<lparr>sin_port = htons big binding_port, sin_addr = INADDR_ANY\<rparr>\<rparr> in
        (if bound \<noteq> 0
         then do { check dbg (bound = 1); Some (u1\<lparr>socket_filedesc := -1\<rparr>, n1) }
         else finish_udp dbg max_size timeout u1 n1)
      else finish_udp dbg max_size timeout u n1)"

definition IsConnected :: "udp_connection \<Rightarrow> bool" where
  "IsConnected u \<longleftrightarrow> socket_filedesc u \<noteq> -1"

definition udp_destroy :: "udp_connection \<Rightarrow> net \<Rightarrow> net" where
  "udp_destroy u n = (if IsConnected u then n\<lparr>open_fds := open_fds n - {socket_filedesc u}\<rparr> else n)"

subsection \<open>Traffic\<close>

text \<open>\<^verbatim>\<open>fcntl\<close> returns -1, all bits set, for a descriptor that is not open.\<close>

definition get_flags :: "int \<Rightarrow> net \<Rightarrow> 32 word" where
  "get_flags fd n = (if fd \<in> open_fds n then fd_flags n fd else -1)"

definition set_flags :: "int \<Rightarrow> 32 word \<Rightarrow> net \<Rightarrow> int \<times> net" where
  "set_flags fd f n = (if fd \<in> open_fds n then (0, n\<lparr>fd_flags := (fd_flags n)(fd := f)\<rparr>) else (-1, n))"

definition SetBlockingMode :: "bool \<Rightarrow> udp_connection \<Rightarrow> net \<Rightarrow> int \<times> net" where
  "SetBlockingMode is_blocking u n =
     (let flags = get_flags (socket_filedesc u) n in
      if (flags AND O_NONBLOCK \<noteq> 0 \<and> \<not> is_blocking) \<or> (\<not> flags AND O_NONBLOCK \<noteq> 0 \<and> is_blocking)
      then (0, n)
      else set_flags (socket_filedesc u) (if is_blocking then flags XOR O_NONBLOCK else flags OR O_NONBLOCK) n)"

definition Send :: "bool \<Rightarrow> byte list \<Rightarrow> udp_connection \<Rightarrow> net \<Rightarrow> net option" where
  "Send dbg bs u n = do {
     check dbg (0 < int (length bs) \<and> int (length bs) \<le> max_packet_size u);
     Some (if IsConnected u then n\<lparr>datagrams := datagrams n @ [(remote_address u, bs)]\<rparr> else n)
   }"

text \<open>\<open>polled\<close> is the result of \<^verbatim>\<open>poll\<close>.\<close>

definition udp_Poll :: "int \<Rightarrow> udp_connection \<Rightarrow> int" where
  "udp_Poll polled u = (if IsConnected u then polled else -1)"

text \<open>
  \<open>delivered\<close> is the datagram that \<^verbatim>\<open>recvfrom\<close> finds, with its sender, if there is one: the part of it
  that fits is copied over the start of the buffer and the sender becomes the remote address. The result holds the
  return value, the buffer and the object.
\<close>

definition Receive ::
  "bool \<Rightarrow> (sock_addr \<times> byte list) option \<Rightarrow> byte list \<Rightarrow> udp_connection \<Rightarrow> (int \<times> byte list \<times> udp_connection) option" where
  "Receive dbg delivered buffer u = do {
     check dbg (0 < int (length buffer) \<and> int (length buffer) \<le> max_packet_size u);
     Some (if IsConnected u
           then (case delivered of
               None \<Rightarrow> (-1, buffer, u)
             | Some (sender, bs) \<Rightarrow>
                 (let got = take (length buffer) bs in
                  (int (length got), got @ drop (length got) buffer, u\<lparr>remote_address := sender\<rparr>)))
           else (-1, buffer, u))
   }"

subsection \<open>Detecting the packet size\<close>

text \<open>
  \<open>ntoa\<close> is \<^verbatim>\<open>inet_ntoa\<close>, \<open>shell\<close> the exit status of \<^verbatim>\<open>system\<close>. \<^verbatim>\<open>snprintf\<close> cuts its output to
  31 characters. Doubling the size past the largest \<^verbatim>\<open>int\<close> is undefined; the fuel bounds the number of
  pings.
\<close>

definition ping_prefix :: "(32 word \<Rightarrow> string) \<Rightarrow> udp_connection \<Rightarrow> string" where
  "ping_prefix ntoa u = ''ping '' @ ntoa (sin_addr (remote_address u)) @ '' -c3 -w3 -M do -s ''"

definition ping_postfix :: "int \<Rightarrow> string" where
  "ping_postfix bytes = take 31 (decimal (nat bytes) @ '' > /dev/null 2>&1'')"

definition ping_command :: "(32 word \<Rightarrow> string) \<Rightarrow> udp_connection \<Rightarrow> string" where
  "ping_command ntoa u = ping_prefix ntoa u @ ping_postfix (max_packet_size u)"

fun detect_loop :: "nat \<Rightarrow> (string \<Rightarrow> int) \<Rightarrow> (32 word \<Rightarrow> string) \<Rightarrow> udp_connection \<Rightarrow> udp_connection option" where
  "detect_loop 0 shell ntoa u = None"
| "detect_loop (Suc fuel) shell ntoa u =
     (if shell (ping_command ntoa u) = 0
      then do {
        assert_that (max_packet_size u * 2 < 2 ^ 31);
        detect_loop fuel shell ntoa (u\<lparr>max_packet_size := max_packet_size u * 2\<rparr>)
      }
      else Some u)"

definition DetectMaxPacketSize :: "nat \<Rightarrow> (string \<Rightarrow> int) \<Rightarrow> (32 word \<Rightarrow> string) \<Rightarrow> udp_connection \<Rightarrow> udp_connection option" where
  "DetectMaxPacketSize fuel shell ntoa u = detect_loop fuel shell ntoa (u\<lparr>max_packet_size := 512\<rparr>)"

subsection \<open>Lemmas\<close>

lemma O_NONBLOCK_bit: "f AND O_NONBLOCK \<noteq> 0 \<longleftrightarrow> bit f 11"
proof -
  have o: "O_NONBLOCK = 2 ^ 11" by (simp add: O_NONBLOCK_def)
  have "f AND O_NONBLOCK = 0 \<longleftrightarrow> \<not> bit f 11" unfolding o by (rule and_exp_eq_0_iff_not_bit)
  then show ?thesis by simp
qed

lemma bit_O_NONBLOCK: "bit O_NONBLOCK n \<longleftrightarrow> n = 11"
proof -
  have "O_NONBLOCK = 2 ^ 11" by (simp add: O_NONBLOCK_def)
  moreover have "bit (2 ^ 11 :: 32 word) n \<longleftrightarrow> n = 11" by (auto simp only: bit_exp_iff possible_bit_word) simp
  ultimately show ?thesis by (simp only:)
qed

lemma SetBlockingMode_ok:
  assumes "socket_filedesc u \<in> open_fds n"
  shows "\<exists>n'. SetBlockingMode b u n = (0, n') \<and> (get_flags (socket_filedesc u) n' AND O_NONBLOCK \<noteq> 0 \<longleftrightarrow> \<not> b) \<and>
    (\<forall>k. k \<noteq> 11 \<longrightarrow> bit (get_flags (socket_filedesc u) n') k = bit (get_flags (socket_filedesc u) n) k) \<and>
    (\<forall>fd. fd \<noteq> socket_filedesc u \<longrightarrow> fd_flags n' fd = fd_flags n fd) \<and> open_fds n' = open_fds n \<and>
    datagrams n' = datagrams n"
  using assms
  by (auto simp: SetBlockingMode_def set_flags_def get_flags_def O_NONBLOCK_bit bit_xor_iff bit_or_iff bit_O_NONBLOCK Let_def)

lemma detect_loop_ok:
  assumes "\<forall>s. 0 < s \<and> s < 2 ^ 31 \<longrightarrow> (shell (ping_command ntoa (u\<lparr>max_packet_size := s\<rparr>)) = 0 \<longleftrightarrow> s \<le> M)"
    and "M < 2 ^ 30" and "0 < s" and "M < s * 2 ^ fuel" and "s < 2 ^ 31"
  shows "\<exists>s'. detect_loop (Suc fuel) shell ntoa (u\<lparr>max_packet_size := s\<rparr>) = Some (u\<lparr>max_packet_size := s'\<rparr>) \<and>
    M < s' \<and> (s' \<le> 2 * M \<or> s' = s)"
  using assms(3-5)
proof (induction fuel arbitrary: s)
  case 0
  then have "\<not> s \<le> M" by simp
  with assms(1) 0(1,3) have "shell (ping_command ntoa (u\<lparr>max_packet_size := s\<rparr>)) \<noteq> 0" by blast
  with 0 show ?case by (intro exI [of _ s]) simp
next
  case (Suc fuel)
  show ?case
  proof (cases "s \<le> M")
    case True
    with assms(1) Suc.prems(1,3) have "shell (ping_command ntoa (u\<lparr>max_packet_size := s\<rparr>)) = 0" by simp
    then have step: "detect_loop (Suc (Suc fuel)) shell ntoa (u\<lparr>max_packet_size := s\<rparr>) =
        detect_loop (Suc fuel) shell ntoa (u\<lparr>max_packet_size := s * 2\<rparr>)"
      using True assms(2) by simp
    have "0 < s * 2" "M < s * 2 * 2 ^ fuel" "s * 2 < 2 ^ 31" using Suc.prems True assms(2) by simp_all
    from Suc.IH [OF this] True step show ?thesis by auto
  next
    case False
    with assms(1) Suc.prems(1,3) have "shell (ping_command ntoa (u\<lparr>max_packet_size := s\<rparr>)) \<noteq> 0" by simp
    with False show ?thesis by (intro exI [of _ s]) simp
  qed
qed

text \<open>
  A connection whose address cannot be parsed is refused by an assertion; without assertions the
  object reports that it is not connected, and its destructor leaves the descriptor that the constructor opened open.
\<close>

lemma failed_connect_leaks_descriptor:
  assumes "aton remote = None" and "fd \<noteq> -1"
  shows "udp_connect True big fd aton raw port remote max_size timeout n = None \<and>
    (\<exists>u n'. udp_connect False big fd aton raw port remote max_size timeout n = Some (u, n') \<and> \<not> IsConnected u \<and>
       fd \<in> open_fds (udp_destroy u n'))"
  using assms by (simp add: udp_connect_def open_socket_def check_def IsConnected_def udp_destroy_def Let_def)

subsection \<open>Properties\<close>

text \<open>
  The character arrays of DetectMaxPacketSize are large enough. For every address of at most 15
  characters and every positive size that is an int, the prefix with its terminating zero fits into 64 bytes, the postfix into
  32 without being cut off, and the command into 128.
\<close>

theorem ping_buffers_suffice:
  assumes "length (ntoa (sin_addr (remote_address u))) \<le> 15" and "0 < max_packet_size u" and "max_packet_size u < 2 ^ 31"
  shows "length (ping_prefix ntoa u) < 64 \<and> length (ping_postfix (max_packet_size u)) < 32 \<and>
    ping_postfix (max_packet_size u) = decimal (nat (max_packet_size u)) @ '' > /dev/null 2>&1'' \<and>
    length (ping_command ntoa u) < 128"
proof -
  have "nat (max_packet_size u) < 10 ^ 10" using assms(3) by simp
  then have "length (decimal (nat (max_packet_size u))) \<le> 10" by (rule length_decimal) simp
  with assms(1) show ?thesis by (simp add: ping_prefix_def ping_postfix_def ping_command_def)
qed

theorem ping_buffers_suffice_witness:
  "length (ping_command (\<lambda>_. ''127.0.0.1'')
     \<lparr>socket_filedesc = 3, max_packet_size = 512, polling_timeout = 1000, local_address = \<lparr>sin_port = 0, sin_addr = 0\<rparr>,
      remote_address = \<lparr>sin_port = 0, sin_addr = 0\<rparr>, poll_fd = 3\<rparr>) < 128"
  using ping_buffers_suffice [of "\<lambda>_. ''127.0.0.1''" "\<lparr>socket_filedesc = 3, max_packet_size = 512, polling_timeout = 1000,
      local_address = \<lparr>sin_port = 0, sin_addr = 0\<rparr>, remote_address = \<lparr>sin_port = 0, sin_addr = 0\<rparr>, poll_fd = 3\<rparr>"]
  by simp

text \<open>
  C27: The detection always ends, but with the wrong size. On a network that carries pings of up to M
  bytes, 22 pings are enough, and the size that is left in the connection is larger than M, so it is one that the last ping
  has just found to be refused.
\<close>

theorem detected_size_is_refused:
  assumes "\<forall>s. 0 < s \<and> s < 2 ^ 31 \<longrightarrow> (shell (ping_command ntoa (u\<lparr>max_packet_size := s\<rparr>)) = 0 \<longleftrightarrow> s \<le> M)" and "M < 2 ^ 30"
  shows "\<exists>u'. DetectMaxPacketSize 22 shell ntoa u = Some u' \<and> M < max_packet_size u' \<and>
    (512 \<le> M \<longrightarrow> max_packet_size u' \<le> 2 * M) \<and> shell (ping_command ntoa u') \<noteq> 0"
proof -
  have m: "M < 512 * 2 ^ 21" using assms(2) by simp
  have fuel: "DetectMaxPacketSize 22 shell ntoa u = detect_loop (Suc 21) shell ntoa (u\<lparr>max_packet_size := 512\<rparr>)"
    by (simp only: DetectMaxPacketSize_def) (simp only: numeral_eq_Suc pred_numeral_simps arith_simps)
  from detect_loop_ok [OF assms _ m] assms(2) obtain s' where
    s: "detect_loop (Suc 21) shell ntoa (u\<lparr>max_packet_size := 512\<rparr>) = Some (u\<lparr>max_packet_size := s'\<rparr>)"
    "M < s'" "s' \<le> 2 * M \<or> s' = 512" by auto
  have "shell (ping_command ntoa (u\<lparr>max_packet_size := s'\<rparr>)) \<noteq> 0"
  proof (cases "0 < s'")
    case True
    moreover have "s' < 2 ^ 31" using s(3) assms(2) by auto
    ultimately show ?thesis using assms(1) s(2) by auto
  next
    case False
    with s(2,3) show ?thesis by simp
  qed
  with s show ?thesis unfolding fuel by auto
qed

definition ex_udp :: udp_connection where
  "ex_udp = \<lparr>socket_filedesc = 3, max_packet_size = 508, polling_timeout = 1000, local_address = \<lparr>sin_port = 0, sin_addr = 0\<rparr>,
     remote_address = \<lparr>sin_port = 0, sin_addr = 0\<rparr>, poll_fd = 3\<rparr>"

text \<open>A network that carries pings of up to 1472 bytes.\<close>

definition ex_shell :: "string \<Rightarrow> int" where
  "ex_shell cmd = (if atoi (drop 31 cmd) \<le> 1472 then 0 else 1)"

lemma ex_shell_ping:
  assumes "0 < s" and "s < 2 ^ 31"
  shows "ex_shell (ping_command (\<lambda>_. ''10.0.0.1'') (ex_udp\<lparr>max_packet_size := s\<rparr>)) = 0 \<longleftrightarrow> s \<le> 1472"
proof -
  have "nat s < 10 ^ 10" using assms(2) by simp
  then have "length (decimal (nat s)) \<le> 10" by (rule length_decimal) simp
  then have "drop 31 (ping_command (\<lambda>_. ''10.0.0.1'') (ex_udp\<lparr>max_packet_size := s\<rparr>)) = decimal (nat s) @ '' > /dev/null 2>&1''"
    by (simp add: ping_command_def ping_prefix_def ping_postfix_def)
  moreover have "atoi (decimal (nat s) @ '' > /dev/null 2>&1'') = s"
    using assms(1) atoi_decimal_rest [of "CHR '' ''" "nat s" "''> /dev/null 2>&1''"] by (simp add: is_digit_def)
  ultimately show ?thesis by (simp add: ex_shell_def)
qed

theorem detected_size_is_refused_witness:
  "\<exists>u'. DetectMaxPacketSize 22 ex_shell (\<lambda>_. ''10.0.0.1'') ex_udp = Some u' \<and> 1472 < max_packet_size u' \<and>
    ex_shell (ping_command (\<lambda>_. ''10.0.0.1'') u') \<noteq> 0"
  using detected_size_is_refused [of ex_shell "\<lambda>_. ''10.0.0.1''" ex_udp 1472] ex_shell_ping by auto

end
