(* ===== verification/Handshake_Protocol.thy ===== *)
theory Handshake_Protocol
  imports UDP_Connection
begin

text \<open>
  Model of \<^verbatim>\<open>include/pipert/Protocol.h\<close> and of the form in which
  \<^verbatim>\<open>NetworkPacket.h\<close> and \<^verbatim>\<open>SenderChannel.h\<close> put packets on the wire.

  A \<^verbatim>\<open>size_t\<close> is a word of 64 bits on both computers, so the record has 64 bytes; what the \<^verbatim>\<open>sizeof\<close> and
  \<^verbatim>\<open>alignof\<close> operators give on a computer is an argument. What is sent is the memory of the object, so the byte order of
  the machine matters; \<open>big\<close> is the sender's or the receiver's. \<open>junk\<close> is what an uninitialised
  buffer or object holds.
\<close>

subsection \<open>The compatibility record\<close>

record compat =
  sizeof_int :: "64 word"
  sizeof_intptr :: "64 word"
  sizeof_bool :: "64 word"
  sizeof_t :: "64 word"
  alignof_int :: "64 word"
  alignof_intptr :: "64 word"
  alignof_bool :: "64 word"
  alignof_t :: "64 word"

text \<open>\<open>host\<close> holds the values of the \<^verbatim>\<open>sizeof\<close> and \<^verbatim>\<open>alignof\<close> operators of a computer.\<close>

definition compat_Init :: "compat \<Rightarrow> compat \<Rightarrow> compat" where
  "compat_Init host c = c
     \<lparr>sizeof_int := sizeof_int host, sizeof_intptr := sizeof_intptr host, sizeof_bool := sizeof_bool host,
      sizeof_t := sizeof_t host, alignof_int := alignof_int host, alignof_intptr := alignof_intptr host,
      alignof_bool := alignof_bool host, alignof_t := alignof_t host\<rparr>"

definition compat_eq :: "compat \<Rightarrow> compat \<Rightarrow> bool" where
  "compat_eq a b \<longleftrightarrow>
     sizeof_int a = sizeof_int b \<and> sizeof_intptr a = sizeof_intptr b \<and> sizeof_bool a = sizeof_bool b \<and>
     sizeof_t a = sizeof_t b \<and> alignof_int a = alignof_int b \<and> alignof_intptr a = alignof_intptr b \<and>
     alignof_bool a = alignof_bool b \<and> alignof_t a = alignof_t b"

text \<open>The object in memory, written and read.\<close>

definition compat_bytes :: "bool \<Rightarrow> compat \<Rightarrow> byte list" where
  "compat_bytes big c =
     store big (sizeof_int c) @ store big (sizeof_intptr c) @ store big (sizeof_bool c) @ store big (sizeof_t c) @
     store big (alignof_int c) @ store big (alignof_intptr c) @ store big (alignof_bool c) @ store big (alignof_t c)"

definition read_64 :: "bool \<Rightarrow> byte list \<Rightarrow> nat \<Rightarrow> 64 word" where
  "read_64 big bs i = load big (take 8 (drop (8 * i) bs))"

definition compat_of_bytes :: "bool \<Rightarrow> byte list \<Rightarrow> compat" where
  "compat_of_bytes big bs =
     \<lparr>sizeof_int = read_64 big bs 0, sizeof_intptr = read_64 big bs 1, sizeof_bool = read_64 big bs 2,
      sizeof_t = read_64 big bs 3, alignof_int = read_64 big bs 4, alignof_intptr = read_64 big bs 5,
      alignof_bool = read_64 big bs 6, alignof_t = read_64 big bs 7\<rparr>"

subsection \<open>The handshake\<close>

definition c_bytes :: "string \<Rightarrow> byte list" where
  "c_bytes s = map of_char s @ [0]"

definition kHandshakeSuccessMsg :: string where
  "kHandshakeSuccessMsg = ''CONN_EST''"

definition kHandshakeErrorMsg :: string where
  "kHandshakeErrorMsg = ''CONN_ERR''"

text \<open>\<^verbatim>\<open>!strcmp(buffer, s)\<close>: the comparison stops at the first difference or at the terminator of \<open>s\<close>.\<close>

definition same_string :: "byte list \<Rightarrow> string \<Rightarrow> bool" where
  "same_string buffer s \<longleftrightarrow> take (length s + 1) buffer = c_bytes s"

text \<open>\<open>answer\<close> is the datagram that the call of \<open>Receive\<close> finds, if there is one.\<close>

definition SenderSideHandshake ::
  "bool \<Rightarrow> bool \<Rightarrow> compat \<Rightarrow> compat \<Rightarrow> byte list \<Rightarrow> (sock_addr \<times> byte list) option \<Rightarrow> udp_connection \<Rightarrow> net \<Rightarrow>
     (bool \<times> udp_connection \<times> net) option" where
  "SenderSideHandshake dbg big host raw junk answer u n = do {
     let local_properties = compat_Init host raw;
     n1 \<leftarrow> Send dbg (compat_bytes big local_properties) u n;
     (r, buffer, u1) \<leftarrow> Receive dbg answer junk u;
     Some (if same_string buffer kHandshakeErrorMsg then False else True, u1, n1)
   }"

definition ReceiverSideHandshake ::
  "bool \<Rightarrow> bool \<Rightarrow> compat \<Rightarrow> compat \<Rightarrow> byte list \<Rightarrow> (sock_addr \<times> byte list) option \<Rightarrow> udp_connection \<Rightarrow> net \<Rightarrow>
     (bool \<times> udp_connection \<times> net) option" where
  "ReceiverSideHandshake dbg big host raw junk request u n = do {
     let local_properties = compat_Init host raw;
     (r, buffer, u1) \<leftarrow> Receive dbg request junk u;
     let remote_properties = compat_of_bytes big buffer;
     if compat_eq local_properties remote_properties
     then do { n1 \<leftarrow> Send dbg (c_bytes kHandshakeSuccessMsg) u1 n; Some (True, u1, n1) }
     else do { n1 \<leftarrow> Send dbg (c_bytes kHandshakeErrorMsg) u1 n; Some (False, u1, n1) }
   }"

subsection \<open>Packets on the wire\<close>

text \<open>
  A \<^verbatim>\<open>NetworkPacket<T>\<close> is a \<^verbatim>\<open>Packet<T>\<close>: the two timestamps of \<^verbatim>\<open>PacketBase\<close>, the second one not
  set by the constructor (\<open>op\<close>), and the data as it is in memory.
\<close>

definition network_packet_bytes :: "bool \<Rightarrow> 64 word \<Rightarrow> 64 word \<Rightarrow> byte list \<Rightarrow> byte list" where
  "network_packet_bytes big timestamp op data = store big timestamp @ store big op @ data"

definition network_packet_timestamp :: "bool \<Rightarrow> byte list \<Rightarrow> 64 word" where
  "network_packet_timestamp big bs = read_64 big bs 0"

definition network_packet_data :: "byte list \<Rightarrow> byte list" where
  "network_packet_data bs = drop 16 bs"

subsection \<open>Lemmas\<close>

lemma length_store_64' [simp]: "length (store big (v :: 64 word)) = 8"
  by (simp add: size_of_def)

lemma length_compat_bytes [simp]: "length (compat_bytes big c) = 64"
  by (simp add: compat_bytes_def del: length_store)

lemma compat_of_bytes_read:
  "compat_of_bytes big' (compat_bytes big c) =
     \<lparr>sizeof_int = load big' (store big (sizeof_int c)), sizeof_intptr = load big' (store big (sizeof_intptr c)),
      sizeof_bool = load big' (store big (sizeof_bool c)), sizeof_t = load big' (store big (sizeof_t c)),
      alignof_int = load big' (store big (alignof_int c)), alignof_intptr = load big' (store big (alignof_intptr c)),
      alignof_bool = load big' (store big (alignof_bool c)), alignof_t = load big' (store big (alignof_t c))\<rparr>"
  by (simp add: compat_of_bytes_def compat_bytes_def read_64_def del: length_store)

lemma load_store_64: "load big (store big (v :: 64 word)) = v"
  by (rule load_store) simp

lemma compat_round_trip: "compat_of_bytes big (compat_bytes big c) = c"
  by (simp add: compat_of_bytes_read load_store_64)

lemma compat_eq_iff: "compat_eq (compat_Init a r) (compat_Init b r') \<longleftrightarrow> compat_eq a b"
  by (simp add: compat_eq_def compat_Init_def)

lemma compat_eq_Init: "compat_eq (compat_Init a r) c \<longleftrightarrow> compat_eq a c" "compat_eq c (compat_Init a r) \<longleftrightarrow> compat_eq c a"
  by (simp_all add: compat_eq_def compat_Init_def)

lemma messages [simp]:
  "length (c_bytes kHandshakeSuccessMsg) = 9" "length (c_bytes kHandshakeErrorMsg) = 9"
  "same_string (c_bytes kHandshakeErrorMsg) kHandshakeErrorMsg"
  "\<not> same_string (c_bytes kHandshakeSuccessMsg) kHandshakeErrorMsg"
  by (simp_all add: c_bytes_def kHandshakeSuccessMsg_def kHandshakeErrorMsg_def same_string_def)

text \<open>An int of four bytes tells the byte orders apart.\<close>

lemma four_swapped:
  assumes "big \<noteq> big'"
  shows "load big' (store big (4 :: 64 word)) \<noteq> (4 :: 64 word)"
proof -
  have "store_le (4 :: 64 word) = [4, 0, 0, 0, 0, 0, 0, 0]"
    by (simp add: store_le_def size_of_def upt_rec)
  with assms show ?thesis by (cases big) (auto simp: load_def store_def)
qed

lemma Send_ok:
  assumes "IsConnected u" and "0 < length bs" and "int (length bs) \<le> max_packet_size u"
  shows "Send dbg bs u n = Some (n\<lparr>datagrams := datagrams n @ [(remote_address u, bs)]\<rparr>)"
  using assms by (simp add: Send_def check_def)

lemma Receive_ok:
  assumes "IsConnected u" and "0 < length buffer" and "int (length buffer) \<le> max_packet_size u"
  shows "Receive dbg None buffer u = Some (-1, buffer, u)"
    "length bs = length buffer \<Longrightarrow> Receive dbg (Some (a, bs)) buffer u = Some (int (length bs), bs, u\<lparr>remote_address := a\<rparr>)"
  using assms by (simp_all add: Receive_def check_def)

lemma receiver_compares:
  assumes "sizeof_int hs = 4" and "sizeof_int hr = 4"
  shows "compat_eq (compat_Init hr r) (compat_of_bytes big' (compat_bytes big (compat_Init hs s))) \<longleftrightarrow> big = big' \<and> compat_eq hr hs"
proof (cases "big = big'")
  case True
  then show ?thesis by (simp add: compat_round_trip compat_eq_iff)
next
  case False
  then have "load big' (store big (sizeof_int (compat_Init hs s))) \<noteq> sizeof_int (compat_Init hr r)"
    using four_swapped assms by (simp add: compat_Init_def)
  with False show ?thesis by (simp add: compat_eq_def compat_of_bytes_read)
qed

subsection \<open>Properties\<close>

text \<open>
  C28: When the network delivers both messages, the two sides of a handshake agree: it succeeds on both
  exactly if the computers have the same byte order and the same sizes and alignments. The byte order is not among the
  compared properties, but the memory image of the sizes gives it away. After a success the receiver reads from every
  packet the timestamp and the data that the sender put into it.
\<close>

theorem handshake_agreement:
  assumes "IsConnected us" and "IsConnected ur" and "64 \<le> max_packet_size us" and "64 \<le> max_packet_size ur"
    and "sizeof_int hs = 4" and "sizeof_int hr = 4" and "length junk_s = 9" and "length junk_r = 64"
    and request: "request = compat_bytes bigs (compat_Init hs raws)"
  shows "\<exists>ok reply us' ns' ur' nr'.
    ReceiverSideHandshake dbg bigr hr rawr junk_r (Some (a, request)) ur nr = Some (ok, ur', nr') \<and>
    datagrams nr' = datagrams nr @ [(a, reply)] \<and>
    SenderSideHandshake dbg bigs hs raws junk_s (Some (b, reply)) us ns = Some (ok, us', ns') \<and>
    datagrams ns' = datagrams ns @ [(remote_address us, request)] \<and>
    (ok \<longleftrightarrow> bigs = bigr \<and> compat_eq hr hs) \<and>
    (ok \<longrightarrow> network_packet_timestamp bigr (network_packet_bytes bigs t op data) = t \<and>
            network_packet_data (network_packet_bytes bigs t op data) = data)"
proof -
  define okb where "okb \<longleftrightarrow> bigs = bigr \<and> compat_eq hr hs"
  let ?reply = "c_bytes (if okb then kHandshakeSuccessMsg else kHandshakeErrorMsg)"
  have req: "length request = length junk_r" using assms(8) by (simp add: request)
  have len: "length ?reply = 9" by simp
  have rcv: "Receive dbg (Some (a, request)) junk_r ur = Some (64, request, ur\<lparr>remote_address := a\<rparr>)"
    using Receive_ok(2) [OF assms(2) _ _ req, of dbg a] assms(4,8) req by simp
  have c: "IsConnected (ur\<lparr>remote_address := a\<rparr>)" using assms(2) by (simp add: IsConnected_def)
  have send_r: "Send dbg ?reply (ur\<lparr>remote_address := a\<rparr>) nr = Some (nr\<lparr>datagrams := datagrams nr @ [(a, ?reply)]\<rparr>)"
    using Send_ok [OF c, of ?reply dbg nr] len assms(4) by simp
  have cmp: "compat_eq (compat_Init hr rawr) (compat_of_bytes bigr request) \<longleftrightarrow> okb"
    unfolding request okb_def by (rule receiver_compares [OF assms(5,6)])
  have r: "ReceiverSideHandshake dbg bigr hr rawr junk_r (Some (a, request)) ur nr =
      Some (okb, ur\<lparr>remote_address := a\<rparr>, nr\<lparr>datagrams := datagrams nr @ [(a, ?reply)]\<rparr>)"
    using send_r by (cases okb) (simp_all add: ReceiverSideHandshake_def rcv cmp Let_def)
  have send_s: "Send dbg request us ns = Some (ns\<lparr>datagrams := datagrams ns @ [(remote_address us, request)]\<rparr>)"
    using Send_ok [OF assms(1), of request dbg ns] assms(3,8) req by simp
  have "Receive dbg (Some (b, ?reply)) junk_s us = Some (9, ?reply, us\<lparr>remote_address := b\<rparr>)"
    using Receive_ok(2) [OF assms(1), of junk_s ?reply dbg b] len assms(3,7) by simp
  then have s: "SenderSideHandshake dbg bigs hs raws junk_s (Some (b, ?reply)) us ns =
      Some (okb, us\<lparr>remote_address := b\<rparr>, ns\<lparr>datagrams := datagrams ns @ [(remote_address us, request)]\<rparr>)"
    using send_s by (simp add: SenderSideHandshake_def request [symmetric])
  have wire: "network_packet_timestamp bigr (network_packet_bytes bigs t op data) = t \<and>
      network_packet_data (network_packet_bytes bigs t op data) = data" if okb
    using that by (simp add: okb_def network_packet_timestamp_def network_packet_bytes_def network_packet_data_def read_64_def
        load_store_64 del: length_store)
  show ?thesis
  proof (intro exI conjI)
    show "ReceiverSideHandshake dbg bigr hr rawr junk_r (Some (a, request)) ur nr =
      Some (okb, ur\<lparr>remote_address := a\<rparr>, nr\<lparr>datagrams := datagrams nr @ [(a, ?reply)]\<rparr>)" by (rule r)
    show "SenderSideHandshake dbg bigs hs raws junk_s (Some (b, ?reply)) us ns =
      Some (okb, us\<lparr>remote_address := b\<rparr>, ns\<lparr>datagrams := datagrams ns @ [(remote_address us, request)]\<rparr>)" by (rule s)
  qed (use wire in \<open>simp_all add: okb_def\<close>)
qed

definition ex_host :: compat where
  "ex_host = \<lparr>sizeof_int = 4, sizeof_intptr = 8, sizeof_bool = 1, sizeof_t = 12, alignof_int = 4, alignof_intptr = 8,
     alignof_bool = 1, alignof_t = 4\<rparr>"

definition ex_net :: net where
  "ex_net = \<lparr>open_fds = {3}, fd_flags = (\<lambda>_. 0), mtu_discover = {}, datagrams = []\<rparr>"

theorem handshake_agreement_witness:
  "\<exists>reply us' ns' ur' nr'.
    ReceiverSideHandshake True True ex_host ex_host (replicate 64 0)
      (Some (\<lparr>sin_port = 1, sin_addr = 2\<rparr>, compat_bytes False (compat_Init ex_host ex_host))) ex_udp ex_net = Some (False, ur', nr') \<and>
    SenderSideHandshake True False ex_host ex_host (replicate 9 0) (Some (\<lparr>sin_port = 3, sin_addr = 4\<rparr>, reply)) ex_udp ex_net =
      Some (False, us', ns')"
proof -
  have u: "IsConnected ex_udp" "64 \<le> max_packet_size ex_udp" "sizeof_int ex_host = 4"
    by (simp_all add: IsConnected_def ex_udp_def ex_host_def)
  from handshake_agreement [OF u(1,1,2,2,3,3), of "replicate 9 0" "replicate 64 0" "compat_bytes False (compat_Init ex_host ex_host)" False ex_host True True ex_host
      "\<lparr>sin_port = 1, sin_addr = 2\<rparr>" ex_net "\<lparr>sin_port = 3, sin_addr = 4\<rparr>" ex_net 0 0 "[]"]
  obtain ok reply us' ns' ur' nr' where
    "ReceiverSideHandshake True True ex_host ex_host (replicate 64 0)
      (Some (\<lparr>sin_port = 1, sin_addr = 2\<rparr>, compat_bytes False (compat_Init ex_host ex_host))) ex_udp ex_net = Some (ok, ur', nr')"
    "SenderSideHandshake True False ex_host ex_host (replicate 9 0) (Some (\<lparr>sin_port = 3, sin_addr = 4\<rparr>, reply)) ex_udp ex_net =
      Some (ok, us', ns')" "\<not> ok"
    by auto
  then show ?thesis by auto
qed

text \<open>
  C29: The sender's handshake does not look at whether anything was received. When no answer is there,
  its result is decided by what the uninitialised buffer happens to hold: it is a success unless that is the error message,
  so a sender without any receiver passes the handshake.
\<close>

theorem handshake_without_answer:
  assumes "IsConnected u" and "64 \<le> max_packet_size u" and "length junk = 9"
  shows "\<exists>n'. SenderSideHandshake dbg big host raw junk None u n = Some (\<not> same_string junk kHandshakeErrorMsg, u, n') \<and>
    (hd junk = 0 \<longrightarrow> SenderSideHandshake dbg big host raw junk None u n = Some (True, u, n'))"
proof -
  have r: "Receive dbg None junk u = Some (-1, junk, u)" using Receive_ok(1) [OF assms(1), of junk dbg] assms(2,3) by simp
  have s: "Send dbg (compat_bytes big (compat_Init host raw)) u n =
      Some (n\<lparr>datagrams := datagrams n @ [(remote_address u, compat_bytes big (compat_Init host raw))]\<rparr>)"
    using Send_ok [OF assms(1), of "compat_bytes big (compat_Init host raw)" dbg n] assms(2) by simp
  have "\<not> same_string junk kHandshakeErrorMsg" if "hd junk = 0"
    using that assms(3) by (cases junk) (auto simp: same_string_def c_bytes_def kHandshakeErrorMsg_def)
  with r s show ?thesis by (auto simp: SenderSideHandshake_def)
qed

theorem handshake_without_answer_witness:
  "\<exists>n'. SenderSideHandshake True False ex_host ex_host (replicate 9 0) None ex_udp ex_net = Some (True, ex_udp, n')"
  using handshake_without_answer [of ex_udp "replicate 9 0" True False ex_host ex_host ex_net]
  by (auto simp: IsConnected_def ex_udp_def)

end
