(* ===== verification/Channel_Facade.thy ===== *)
theory Channel_Facade
  imports Example_Pipelines Handshake_Protocol
begin

text \<open>
  Model of the classes that users hold: \<^verbatim>\<open>ChannelBase\<close> (\<^verbatim>\<open>src/ChannelBase.cpp\<close>),
  \<^verbatim>\<open>Channel<T>\<close>, the stubs \<^verbatim>\<open>PacketStub\<close>, \<^verbatim>\<open>PacketToFill\<close> and \<^verbatim>\<open>PacketToProcess\<close>, and
  \<^verbatim>\<open>PolledChannel\<close>, \<^verbatim>\<open>ScheduledChannel\<close> and \<^verbatim>\<open>SenderChannel\<close> (headers of the same names).

  Channel objects live at addresses: \<open>impl_at\<close> is their \<^verbatim>\<open>impl_\<close>, \<open>handlers\<close> the
  \<^verbatim>\<open>processing_fun_\<close> of those that have one, \<open>connections\<close> the \<^verbatim>\<open>connection_\<close> of the
  \<^verbatim>\<open>SenderChannel\<close>s that exist. An object that does not exist has no entry, and a function that
  reads it (a dangling pointer) yields \<open>None\<close>. The data of a packet are its bytes. User functions are an
  argument \<open>user\<close>, indexed by a number.
\<close>

subsection \<open>State\<close>

datatype handler =
    UserFunction nat
  | BoundSendPacket addr

record objects =
  pipe_of :: pipeline
  impl_at :: "addr \<Rightarrow> addr"
  handlers :: "addr \<rightharpoonup> handler"
  connections :: "addr \<rightharpoonup> addr"
  udp_at :: "addr \<Rightarrow> udp_connection"
  net_of :: net
  data_at :: "addr \<Rightarrow> byte list"

record stub =
  stub_channel :: addr
  stub_packet :: addr

subsection \<open>ChannelBase\<close>

definition set_base :: "addr \<Rightarrow> addr \<Rightarrow> objects \<Rightarrow> objects" where
  "set_base x b s = s\<lparr>pipe_of := set_channel x (SetBase b (chan (pipe_of s) x)) (pipe_of s)\<rparr>"

definition ChannelBase_new :: "addr \<Rightarrow> addr \<Rightarrow> objects \<Rightarrow> objects option" where
  "ChannelBase_new b x s = do {
     assert_that (x \<noteq> nullptr);
     Some (set_base x b (s\<lparr>impl_at := (impl_at s)(b := x)\<rparr>))
   }"

definition ChannelBase_destroy :: "addr \<Rightarrow> objects \<Rightarrow> objects option" where
  "ChannelBase_destroy b s =
     (if impl_at s b \<noteq> nullptr
      then do {
        w \<leftarrow> ChannelImpl_destroy (impl_at s b) (pipe_of s);
        Some (s\<lparr>pipe_of := w, impl_at := (impl_at s)(b := nullptr)\<rparr>)
      }
      else Some s)"

text \<open>\<open>src\<close> is moved to \<open>b\<close>.\<close>

definition ChannelBase_move :: "addr \<Rightarrow> addr \<Rightarrow> objects \<Rightarrow> objects option" where
  "ChannelBase_move b src s = do {
     assert_that (impl_at s src \<noteq> nullptr);
     let s1 = s\<lparr>impl_at := (impl_at s)(b := impl_at s src)\<rparr>;
     let s2 = set_base (impl_at s1 b) b s1;
     Some (s2\<lparr>impl_at := (impl_at s2)(src := nullptr)\<rparr>)
   }"

definition ChannelBase_move_new :: "addr \<Rightarrow> addr \<Rightarrow> objects \<Rightarrow> objects option" where
  "ChannelBase_move_new b src s = ChannelBase_move b src s"

definition ChannelBase_move_assign :: "addr \<Rightarrow> addr \<Rightarrow> objects \<Rightarrow> objects option" where
  "ChannelBase_move_assign b src s = ChannelBase_move b src s"

text \<open>
  The implementation behind an object. Most functions assert that there is one; the others dereference
  the null pointer if there is none.
\<close>

definition checked_impl :: "addr \<Rightarrow> objects \<Rightarrow> addr option" where
  "checked_impl b s = do { assert_that (impl_at s b \<noteq> nullptr); Some (impl_at s b) }"

definition base_GetCapacity :: "addr \<Rightarrow> objects \<Rightarrow> nat option" where
  "base_GetCapacity b s = do { x \<leftarrow> checked_impl b s; Some (channel_capacity (chan (pipe_of s) x)) }"

definition base_GetPacketSize :: "addr \<Rightarrow> objects \<Rightarrow> nat option" where
  "base_GetPacketSize b s = do { x \<leftarrow> checked_impl b s; Some (packet_size (chan (pipe_of s) x)) }"

definition base_GetName :: "addr \<Rightarrow> objects \<Rightarrow> cptr option" where
  "base_GetName b s = do { x \<leftarrow> checked_impl b s; Some (channel_name (chan (pipe_of s) x)) }"

definition base_GetFreeBufferLength :: "addr \<Rightarrow> objects \<Rightarrow> nat option" where
  "base_GetFreeBufferLength b s = do { x \<leftarrow> checked_impl b s; Some (GetFreeBufferLength (chan (pipe_of s) x)) }"

definition base_GetQueuedBufferLength :: "addr \<Rightarrow> objects \<Rightarrow> nat option" where
  "base_GetQueuedBufferLength b s = do { x \<leftarrow> checked_impl b s; Some (GetQueuedBufferLength (chan (pipe_of s) x)) }"

definition base_Log :: "addr \<Rightarrow> log_event \<Rightarrow> objects \<Rightarrow> objects option" where
  "base_Log b e s = do {
     x \<leftarrow> checked_impl b s;
     Some (s\<lparr>pipe_of := set_channel x (Log e (chan (pipe_of s) x)) (pipe_of s)\<rparr>)
   }"

definition AcquireBase :: "time \<Rightarrow> addr \<Rightarrow> objects \<Rightarrow> (addr option \<times> objects) option" where
  "AcquireBase t b s = do {
     x \<leftarrow> checked_impl b s;
     (p, w) \<leftarrow> Acquire t x (pipe_of s);
     Some (p, s\<lparr>pipe_of := w\<rparr>)
   }"

definition PushBase :: "time \<Rightarrow> addr \<Rightarrow> addr \<Rightarrow> objects \<Rightarrow> objects option" where
  "PushBase t b p s = do {
     x \<leftarrow> checked_impl b s;
     w \<leftarrow> Push t x p (pipe_of s);
     Some (s\<lparr>pipe_of := w\<rparr>)
   }"

definition base_GetNext :: "time \<Rightarrow> addr \<Rightarrow> objects \<Rightarrow> (addr option \<times> objects) option" where
  "base_GetNext t b s = do {
     x \<leftarrow> checked_impl b s;
     (p, w) \<leftarrow> GetNext t x False (pipe_of s);
     Some (p, s\<lparr>pipe_of := w\<rparr>)
   }"

definition ReleaseBase :: "time \<Rightarrow> addr \<Rightarrow> addr \<Rightarrow> objects \<Rightarrow> objects option" where
  "ReleaseBase t b p s = do {
     x \<leftarrow> checked_impl b s;
     w \<leftarrow> ReleaseAt t x p False (pipe_of s);
     Some (s\<lparr>pipe_of := w\<rparr>)
   }"

subsection \<open>Stubs\<close>

definition stub_new :: "addr \<Rightarrow> addr \<Rightarrow> stub" where
  "stub_new p b = \<lparr>stub_channel = b, stub_packet = p\<rparr>"

definition IsEmpty :: "stub \<Rightarrow> bool" where
  "IsEmpty k \<longleftrightarrow> stub_packet k = nullptr"

definition SetEmpty :: "stub \<Rightarrow> stub" where
  "SetEmpty k = k\<lparr>stub_packet := nullptr\<rparr>"

definition GetPacket :: "stub \<Rightarrow> addr" where
  "GetPacket k = stub_packet k"

text \<open>The stub moved to and the stub moved from, afterwards.\<close>

definition stub_move :: "stub \<Rightarrow> stub \<Rightarrow> stub \<times> stub" where
  "stub_move k src =
     (k\<lparr>stub_channel := stub_channel src, stub_packet := stub_packet src\<rparr>, src\<lparr>stub_packet := nullptr\<rparr>)"

definition stub_move_new :: "stub \<Rightarrow> stub \<Rightarrow> stub \<times> stub" where
  "stub_move_new raw src = stub_move raw src"

definition stub_move_assign :: "stub \<Rightarrow> stub \<Rightarrow> stub \<times> stub" where
  "stub_move_assign k src = stub_move k src"

definition stub_timestamp :: "stub \<Rightarrow> objects \<Rightarrow> time option" where
  "stub_timestamp k s = do {
     assert_that (\<not> IsEmpty k);
     Some (packet_time (chan (pipe_of s) (impl_at s (stub_channel k))) (stub_packet k))
   }"

definition stub_data :: "stub \<Rightarrow> objects \<Rightarrow> byte list option" where
  "stub_data k s = do { assert_that (\<not> IsEmpty k); Some (data_at s (stub_packet k)) }"

subsection \<open>Channel\<close>

definition packet_new :: "time \<Rightarrow> byte list \<Rightarrow> addr \<Rightarrow> addr \<Rightarrow> objects \<Rightarrow> objects" where
  "packet_new ts d x p s =
     s\<lparr>pipe_of := set_channel x (construct_packet ts p (chan (pipe_of s) x)) (pipe_of s),
       data_at := (data_at s)(p := d)\<rparr>"

definition PacketToFill_new :: "addr option \<Rightarrow> addr \<Rightarrow> stub option" where
  "PacketToFill_new packet b = do {
     assert_that (b \<noteq> nullptr);
     Some (stub_new (case packet of Some p \<Rightarrow> p | None \<Rightarrow> nullptr) b)
   }"

definition PacketToProcess_new :: "addr option \<Rightarrow> addr \<Rightarrow> stub option" where
  "PacketToProcess_new packet b = do {
     assert_that (b \<noteq> nullptr);
     Some (stub_new (case packet of Some p \<Rightarrow> p | None \<Rightarrow> nullptr) b)
   }"

definition Channel_Acquire :: "time \<Rightarrow> time \<Rightarrow> byte list \<Rightarrow> addr \<Rightarrow> objects \<Rightarrow> (stub \<times> objects) option" where
  "Channel_Acquire t ts d b s = do {
     (new_packet, s1) \<leftarrow> AcquireBase t b s;
     let s2 = (case new_packet of Some p \<Rightarrow> packet_new ts d (impl_at s1 b) p s1 | None \<Rightarrow> s1);
     k \<leftarrow> PacketToFill_new new_packet b;
     Some (k, s2)
   }"

definition Channel_Push :: "time \<Rightarrow> addr \<Rightarrow> stub \<Rightarrow> objects \<Rightarrow> (stub \<times> objects) option" where
  "Channel_Push t b k s = do {
     assert_that (\<not> IsEmpty k);
     s1 \<leftarrow> PushBase t b (GetPacket k) s;
     Some (SetEmpty k, s1)
   }"

definition Channel_Release :: "time \<Rightarrow> addr \<Rightarrow> stub \<Rightarrow> objects \<Rightarrow> (stub \<times> objects) option" where
  "Channel_Release t b k s = do {
     assert_that (\<not> IsEmpty k);
     let p = GetPacket k;
     let k1 = SetEmpty k;
     s1 \<leftarrow> ReleaseBase t b p s;
     Some (k1, s1)
   }"

definition PacketToFill_Push :: "time \<Rightarrow> stub \<Rightarrow> objects \<Rightarrow> (stub \<times> objects) option" where
  "PacketToFill_Push t k s = do {
     assert_that (\<not> IsEmpty k);
     (k1, s1) \<leftarrow> Channel_Push t (stub_channel k) k s;
     assert_that (IsEmpty k1);
     Some (k1, s1)
   }"

definition PacketToFill_destroy :: "time \<Rightarrow> stub \<Rightarrow> objects \<Rightarrow> objects option" where
  "PacketToFill_destroy t k s =
     (if \<not> IsEmpty k then do { (_, s1) \<leftarrow> PacketToFill_Push t k s; Some s1 } else Some s)"

definition PacketToProcess_Release :: "time \<Rightarrow> stub \<Rightarrow> objects \<Rightarrow> (stub \<times> objects) option" where
  "PacketToProcess_Release t k s = do {
     assert_that (\<not> IsEmpty k);
     (k1, s1) \<leftarrow> Channel_Release t (stub_channel k) k s;
     assert_that (IsEmpty k1);
     Some (k1, s1)
   }"

definition PacketToProcess_destroy :: "time \<Rightarrow> stub \<Rightarrow> objects \<Rightarrow> objects option" where
  "PacketToProcess_destroy t k s =
     (if \<not> IsEmpty k then do { (_, s1) \<leftarrow> PacketToProcess_Release t k s; Some s1 } else Some s)"

subsection \<open>The kinds of channels\<close>

definition PolledChannel_new :: "addr \<Rightarrow> addr \<Rightarrow> objects \<Rightarrow> objects option" where
  "PolledChannel_new b x s = ChannelBase_new b x s"

definition Poll :: "time \<Rightarrow> addr \<Rightarrow> objects \<Rightarrow> (stub \<times> objects) option" where
  "Poll t b s = do {
     (new_packet, s1) \<leftarrow> base_GetNext t b s;
     k \<leftarrow> PacketToProcess_new new_packet b;
     Some (k, s1)
   }"

definition ScheduledChannel_new :: "addr \<Rightarrow> addr \<Rightarrow> handler \<Rightarrow> objects \<Rightarrow> objects option" where
  "ScheduledChannel_new b x h s = do {
     s1 \<leftarrow> ChannelBase_new b x s;
     Some (s1\<lparr>handlers := (handlers s1)(b \<mapsto> h)\<rparr>)
   }"

text \<open>
  The defaulted move: of the base class, then of \<^verbatim>\<open>processing_fun_\<close>. What the function that was moved from holds afterwards
  is unspecified; it is the argument \<open>rest\<close>.
\<close>

definition ScheduledChannel_move :: "handler option \<Rightarrow> addr \<Rightarrow> addr \<Rightarrow> objects \<Rightarrow> objects option" where
  "ScheduledChannel_move rest b src s = do {
     s1 \<leftarrow> ChannelBase_move_new b src s;
     Some (s1\<lparr>handlers := (handlers s1)(src := rest, b := handlers s1 src)\<rparr>)
   }"

definition ScheduledChannel_destroy :: "addr \<Rightarrow> objects \<Rightarrow> objects option" where
  "ScheduledChannel_destroy b s = ChannelBase_destroy b (s\<lparr>handlers := (handlers s)(b := None)\<rparr>)"

definition SenderChannel_new :: "addr \<Rightarrow> addr \<Rightarrow> addr \<Rightarrow> objects \<Rightarrow> objects option" where
  "SenderChannel_new b x connection s = do {
     s1 \<leftarrow> ScheduledChannel_new b x (BoundSendPacket b) s;
     Some (s1\<lparr>connections := (connections s1)(b \<mapsto> connection)\<rparr>)
   }"

definition SenderChannel_move :: "handler option \<Rightarrow> addr \<Rightarrow> addr \<Rightarrow> objects \<Rightarrow> objects option" where
  "SenderChannel_move rest b src s = do {
     s1 \<leftarrow> ScheduledChannel_move rest b src s;
     Some (s1\<lparr>connections := (connections s1)(b := connections s1 src)\<rparr>)
   }"

definition SenderChannel_destroy :: "addr \<Rightarrow> objects \<Rightarrow> objects option" where
  "SenderChannel_destroy b s = ScheduledChannel_destroy b (s\<lparr>connections := (connections s)(b := None)\<rparr>)"

text \<open>
  \<open>this\<close> is the object the member function is called on, \<open>op\<close> what the second timestamp of the
  network packet happens to hold. The packet is a parameter by value, so its stub is destroyed at the end.
\<close>

definition SendPacket :: "bool \<Rightarrow> bool \<Rightarrow> 64 word \<Rightarrow> time \<Rightarrow> addr \<Rightarrow> stub \<Rightarrow> objects \<Rightarrow> objects option" where
  "SendPacket dbg big op t this k s = do {
     ts \<leftarrow> stub_timestamp k s;
     d \<leftarrow> stub_data k s;
     connection \<leftarrow> connections s this;
     n \<leftarrow> Send dbg (network_packet_bytes big (word_of_int ts) op d) (udp_at s connection) (net_of s);
     PacketToProcess_destroy t k (s\<lparr>net_of := n\<rparr>)
   }"

definition call_handler ::
  "(nat \<Rightarrow> stub \<Rightarrow> objects \<Rightarrow> objects option) \<Rightarrow> bool \<Rightarrow> bool \<Rightarrow> 64 word \<Rightarrow> time \<Rightarrow> handler \<Rightarrow> stub \<Rightarrow> objects \<Rightarrow> objects option" where
  "call_handler user dbg big op t h k s =
     (case h of
        UserFunction n \<Rightarrow> user n k s
      | BoundSendPacket this \<Rightarrow> SendPacket dbg big op t this k s)"

definition CallbackTranslator ::
  "(nat \<Rightarrow> stub \<Rightarrow> objects \<Rightarrow> objects option) \<Rightarrow> bool \<Rightarrow> bool \<Rightarrow> 64 word \<Rightarrow> time \<Rightarrow> addr \<Rightarrow> addr \<Rightarrow> objects \<Rightarrow> objects option" where
  "CallbackTranslator user dbg big op t this_channel packet s = do {
     assert_that (this_channel \<noteq> nullptr);
     h \<leftarrow> handlers s this_channel;
     k \<leftarrow> PacketToProcess_new (Some packet) this_channel;
     call_handler user dbg big op t h k s
   }"

subsection \<open>Lemmas\<close>

definition owns :: "objects \<Rightarrow> addr \<Rightarrow> addr \<Rightarrow> bool" where
  "owns s b x \<longleftrightarrow> b \<noteq> nullptr \<and> x \<noteq> nullptr \<and> impl_at s b = x \<and> x \<in> set (channels (sched (pipe_of s))) \<and>
     pipeline_inv (pipe_of s)"

lemma checked_impl_owns: "owns s b x \<Longrightarrow> checked_impl b s = Some x"
  by (simp add: checked_impl_def owns_def)

lemma owns_slot: "owns s b x \<Longrightarrow> p \<in> slots (chan (pipe_of s) x) \<Longrightarrow> p \<noteq> nullptr"
  using slot_not_null by (auto simp: owns_def pipeline_inv_def)

text \<open>What an operation of one channel leaves alone.\<close>

definition frame :: "addr \<Rightarrow> objects \<Rightarrow> objects \<Rightarrow> bool" where
  "frame x s s' \<longleftrightarrow>
     same_config (sched (pipe_of s)) (sched (pipe_of s')) \<and>
     (\<forall>y. y \<noteq> x \<longrightarrow> chan (pipe_of s') y = chan (pipe_of s) y) \<and>
     same_static (chan (pipe_of s') x) (chan (pipe_of s) x) \<and> impl_at s' = impl_at s \<and> handlers s' = handlers s \<and>
     connections s' = connections s \<and> udp_at s' = udp_at s"

lemma frame_trans: "frame x s s1 \<Longrightarrow> frame x s1 s2 \<Longrightarrow> frame x s s2"
  unfolding frame_def using same_config_trans same_static_trans by metis

lemma Channel_Acquire_ok:
  assumes o: "owns s b x" and free: "free_packets (chan (pipe_of s) x) = fs @ [p]"
  shows "\<exists>s1. Channel_Acquire t ts d b s = Some (stub_new p b, s1) \<and> owns s1 b x \<and> in_transit (pipe_of s1) x p \<and>
    free_packets (chan (pipe_of s1) x) = fs \<and>
    queued_set (chan (pipe_of s1) x) = queued_set (chan (pipe_of s) x) \<and> op_time (chan (pipe_of s1) x) p = t \<and>
    packet_time (chan (pipe_of s1) x) = (packet_time (chan (pipe_of s) x))(p := ts) \<and>
    data_at s1 = (data_at s)(p := d) \<and> p \<noteq> nullptr \<and> frame x s s1"
proof -
  have o': "pipeline_inv (pipe_of s)" "x \<in> set (channels (sched (pipe_of s)))" using o by (simp_all add: owns_def)
  from Acquire_free [OF o' free, of t] obtain w where
    w: "Acquire t x (pipe_of s) = Some (Some p, w)" "pipeline_inv w" "local_change x (pipe_of s) w" "in_transit w x p"
    "free_packets (chan w x) = fs" "queued_set (chan w x) = queued_set (chan (pipe_of s) x)" "op_time (chan w x) p = t" by blast
  have x: "x \<in> set (channels (sched w))" using o'(2) local_change_registered [OF w(3)] by simp
  let ?s = "s\<lparr>pipe_of := w\<rparr>"
  let ?s1 = "packet_new ts d x p ?s"
  note c = construct_ok [OF w(2,4) x, where ts = ts]
  have tm: "packet_time (chan w x) = packet_time (chan (pipe_of s) x)" using w(3) by (simp add: local_change_def)
  have s1: "pipe_of ?s1 = set_channel x (construct_packet ts p (chan w x)) w" "data_at ?s1 = (data_at s)(p := d)"
    "impl_at ?s1 = impl_at s" by (simp_all add: packet_new_def)
  have own: "owns ?s1 b x" using o c(1,3) x unfolding owns_def s1 by simp
  have "p \<in> slots (chan (pipe_of ?s1) x)" using c(2) unfolding s1 in_transit_def by simp
  with own have p: "p \<noteq> nullptr" by (rule owns_slot)
  have "Channel_Acquire t ts d b s = Some (stub_new p b, ?s1)"
    using o w(1) by (simp add: Channel_Acquire_def AcquireBase_def checked_impl_owns [OF o] PacketToFill_new_def owns_def)
  moreover have "frame x s ?s1"
    using w(3) same_static_trans [OF construct_frame(3)] by (auto simp: frame_def s1 local_change_def packet_new_def)
  ultimately show ?thesis using own p c w(5-7) tm unfolding s1 by (intro exI [of _ ?s1]) (simp add: s1)
qed

lemma stub_moved:
  "stub_move raw k = (k', k0) \<Longrightarrow> stub_packet k' = stub_packet k \<and> stub_channel k' = stub_channel k \<and> IsEmpty k0"
  by (auto simp: stub_move_def IsEmpty_def)

lemma destroy_empty:
  "IsEmpty k \<Longrightarrow> PacketToFill_destroy t k s = Some s" "IsEmpty k \<Longrightarrow> PacketToProcess_destroy t k s = Some s"
  by (simp_all add: PacketToFill_destroy_def PacketToProcess_destroy_def)

lemma PacketToFill_destroy_ok:
  assumes o: "owns s b x" and p: "in_transit (pipe_of s) x p"
    and t: "packet_time (chan (pipe_of s) x) p \<le> t" "op_time (chan (pipe_of s) x) p \<le> t" "t < kMaxTime"
    and k: "stub_channel k = b" "stub_packet k = p"
  shows "\<exists>s'. PacketToFill_destroy t k s = Some s' \<and> owns s' b x \<and>
    queued_set (chan (pipe_of s') x) = insert p (queued_set (chan (pipe_of s) x)) \<and>
    free_packets (chan (pipe_of s') x) = free_packets (chan (pipe_of s) x) \<and>
    packet_time (chan (pipe_of s') x) = packet_time (chan (pipe_of s) x) \<and> data_at s' = data_at s \<and> frame x s s'"
proof -
  have o': "pipeline_inv (pipe_of s)" "x \<in> set (channels (sched (pipe_of s)))" using o by (simp_all add: owns_def)
  from Push_ok [OF o' p t] obtain w where
    fr: "\<forall>y. y \<noteq> x \<longrightarrow> chan w y = chan (pipe_of s) y" "same_static (chan w x) (chan (pipe_of s) x)" and
    w: "Push t x p (pipe_of s) = Some w" "pipeline_inv w" "same_config (sched (pipe_of s)) (sched w)"
    "free_packets (chan w x) = free_packets (chan (pipe_of s) x)"
    "queued_set (chan w x) = insert p (queued_set (chan (pipe_of s) x))"
    "packet_time (chan w x) = packet_time (chan (pipe_of s) x)" by blast
  have "p \<noteq> nullptr" using owns_slot [OF o] p by (simp add: in_transit_def)
  then have "PacketToFill_destroy t k s = Some (s\<lparr>pipe_of := w\<rparr>)"
    using w(1) k by (simp add: PacketToFill_destroy_def PacketToFill_Push_def Channel_Push_def PushBase_def
        checked_impl_owns [OF o] GetPacket_def IsEmpty_def SetEmpty_def)
  moreover have "owns (s\<lparr>pipe_of := w\<rparr>) b x" using o w(2,3) by (simp add: owns_def same_config_def)
  moreover have "frame x s (s\<lparr>pipe_of := w\<rparr>)" using w(3) fr by (simp add: frame_def)
  ultimately show ?thesis using w(4-6) by simp
qed

lemma Poll_ok:
  assumes o: "owns s b x" and ne: "queued_set (chan (pipe_of s) x) \<noteq> {}"
    and t: "\<forall>y\<in>queued_set (chan (pipe_of s) x). packet_time (chan (pipe_of s) x) y \<le> t"
  shows "\<exists>p s'. Poll t b s = Some (stub_new p b, s') \<and> owns s' b x \<and> in_transit (pipe_of s') x p \<and>
    p \<in> queued_set (chan (pipe_of s) x) \<and> op_time (chan (pipe_of s') x) p = t \<and>
    queued_set (chan (pipe_of s') x) = queued_set (chan (pipe_of s) x) - {p} \<and>
    (\<forall>y\<in>queued_set (chan (pipe_of s) x). packet_time (chan (pipe_of s) x) p \<le> packet_time (chan (pipe_of s) x) y) \<and>
    free_packets (chan (pipe_of s') x) = free_packets (chan (pipe_of s) x) \<and>
    packet_time (chan (pipe_of s') x) = packet_time (chan (pipe_of s) x) \<and> data_at s' = data_at s"
proof -
  have o': "pipeline_inv (pipe_of s)" "x \<in> set (channels (sched (pipe_of s)))" using o by (simp_all add: owns_def)
  have "False \<or> (\<forall>y\<in>queued_set (chan (pipe_of s) x). packet_time (chan (pipe_of s) x) y \<le> t)" using t by simp
  from PopNext_ok [OF o' ne this] obtain p w where
    w: "PopNext t x False (pipe_of s) = Some (p, w)" "heap_front (queued_packets (chan (pipe_of s) x)) = Some p"
    "pipeline_inv w" "same_config (sched (pipe_of s)) (sched w)" "same_static (chan w x) (chan (pipe_of s) x)"
    "free_packets (chan w x) = free_packets (chan (pipe_of s) x)"
    "queued_set (chan w x) = queued_set (chan (pipe_of s) x) - {p}"
    "packet_time (chan w x) = packet_time (chan (pipe_of s) x)"
    "if False then op_time (chan w x) p = op_time (chan (pipe_of s) x) p else op_time (chan w x) p = t"
    by (elim exE conjE) (rule that)
  have ci: "channel_inv (chan (pipe_of s) x)" using o' by (simp add: pipeline_inv_def)
  have front: "p \<in> queued_set (chan (pipe_of s) x)"
    "\<forall>y\<in>queued_set (chan (pipe_of s) x). packet_time (chan (pipe_of s) x) p \<le> packet_time (chan (pipe_of s) x) y"
    using front_earliest [OF o' w(2)] by blast+
  have slot: "p \<in> slots (chan (pipe_of s) x)" "p \<notin> set (free_packets (chan (pipe_of s) x))"
    using ci front(1) by (auto simp: channel_inv_def)
  then have tr: "in_transit w x p" using w(6,7) same_staticD(3) [OF w(5)] by (simp add: in_transit_def)
  have "base_GetNext t b s = Some (Some p, s\<lparr>pipe_of := w\<rparr>)"
    using w(1) GetNext_PopNext [OF ne] by (simp add: base_GetNext_def checked_impl_owns [OF o])
  then have "Poll t b s = Some (stub_new p b, s\<lparr>pipe_of := w\<rparr>)"
    using o by (simp add: Poll_def PacketToProcess_new_def owns_def)
  moreover have "owns (s\<lparr>pipe_of := w\<rparr>) b x" using o w(3,4) by (simp add: owns_def same_config_def)
  ultimately show ?thesis using w(6-9) front tr by (intro exI [of _ p] exI [of _ "s\<lparr>pipe_of := w\<rparr>"]) simp
qed

lemma PacketToProcess_destroy_ok:
  assumes o: "owns s b x" and p: "in_transit (pipe_of s) x p" and t: "op_time (chan (pipe_of s) x) p \<le> t"
    and k: "stub_channel k = b" "stub_packet k = p"
  shows "\<exists>s'. PacketToProcess_destroy t k s = Some s' \<and> owns s' b x \<and>
    free_packets (chan (pipe_of s') x) = free_packets (chan (pipe_of s) x) @ [p] \<and>
    queued_set (chan (pipe_of s') x) = queued_set (chan (pipe_of s) x) \<and> data_at s' = data_at s \<and> net_of s' = net_of s \<and>
    packet_time (chan (pipe_of s') x) = packet_time (chan (pipe_of s) x) \<and> frame x s s'"
proof -
  have o': "pipeline_inv (pipe_of s)" "x \<in> set (channels (sched (pipe_of s)))" using o by (simp_all add: owns_def)
  from ReleaseAt_ok [OF o' p, of False t] t obtain c where
    c: "ReleaseAt t x p False (pipe_of s) = Some (set_channel x c (pipe_of s))" "pipeline_inv (set_channel x c (pipe_of s))"
    "free_packets c = free_packets (chan (pipe_of s) x) @ [p]" "queued_set c = queued_set (chan (pipe_of s) x)"
    "packet_time c = packet_time (chan (pipe_of s) x)" "same_static c (chan (pipe_of s) x)" by blast
  have "p \<noteq> nullptr" using owns_slot [OF o] p by (simp add: in_transit_def)
  then have "PacketToProcess_destroy t k s = Some (s\<lparr>pipe_of := set_channel x c (pipe_of s)\<rparr>)"
    using c(1) k by (simp add: PacketToProcess_destroy_def PacketToProcess_Release_def Channel_Release_def ReleaseBase_def
        checked_impl_owns [OF o] GetPacket_def IsEmpty_def SetEmpty_def)
  moreover have "owns (s\<lparr>pipe_of := set_channel x c (pipe_of s)\<rparr>) b x" using o c(2) by (simp add: owns_def)
  moreover have "frame x s (s\<lparr>pipe_of := set_channel x c (pipe_of s)\<rparr>)" using c(6) by (simp add: frame_def)
  ultimately show ?thesis using c(3-5) by simp
qed

lemma ChannelBase_move_ok:
  assumes o: "owns s src x" and b: "b \<noteq> nullptr" "b \<noteq> src"
  shows "\<exists>s'. ChannelBase_move b src s = Some s' \<and> owns s' b x \<and> impl_at s' = (impl_at s)(b := x, src := nullptr) \<and>
    pipe_of s' = set_channel x (SetBase b (chan (pipe_of s) x)) (pipe_of s) \<and> handlers s' = handlers s \<and>
    connections s' = connections s \<and> net_of s' = net_of s \<and> data_at s' = data_at s \<and> udp_at s' = udp_at s"
proof -
  have o': "pipeline_inv (pipe_of s)" "x \<in> set (channels (sched (pipe_of s)))" "x \<noteq> nullptr" "impl_at s src = x"
    using o by (simp_all add: owns_def)
  let ?s = "s\<lparr>impl_at := (impl_at s)(b := x, src := nullptr),
     pipe_of := set_channel x (SetBase b (chan (pipe_of s) x)) (pipe_of s)\<rparr>"
  have "ChannelBase_move b src s = Some ?s"
    using o' by (simp add: ChannelBase_move_def set_base_def Let_def)
  moreover have "owns ?s b x" using o' b SetBase_ok [OF o'(1,2), of b] by (simp add: owns_def)
  ultimately show ?thesis by simp
qed

lemma SendPacket_ok:
  assumes o: "owns s b x" and p: "in_transit (pipe_of s) x p" and t: "op_time (chan (pipe_of s) x) p \<le> t"
    and c: "connections s this = Some c" "UDP_Connection.IsConnected (udp_at s c)"
      "int (16 + length (data_at s p)) \<le> max_packet_size (udp_at s c)"
  shows "\<exists>s'. SendPacket dbg big op t this (stub_new p b) s = Some s' \<and> owns s' b x \<and> frame x s s' \<and> data_at s' = data_at s \<and>
    queued_set (chan (pipe_of s') x) = queued_set (chan (pipe_of s) x) \<and>
    packet_time (chan (pipe_of s') x) = packet_time (chan (pipe_of s) x) \<and>
    free_packets (chan (pipe_of s') x) = free_packets (chan (pipe_of s) x) @ [p] \<and>
    datagrams (net_of s') = datagrams (net_of s) @ [(remote_address (udp_at s c),
      network_packet_bytes big (word_of_int (packet_time (chan (pipe_of s) x) p)) op (data_at s p))]"
proof -
  let ?bs = "network_packet_bytes big (word_of_int (packet_time (chan (pipe_of s) x) p)) op (data_at s p)"
  let ?n = "(net_of s)\<lparr>datagrams := datagrams (net_of s) @ [(remote_address (udp_at s c), ?bs)]\<rparr>"
  have len: "length ?bs = 16 + length (data_at s p)" by (simp add: network_packet_bytes_def del: length_store)
  have send: "Send dbg ?bs (udp_at s c) (net_of s) = Some ?n"
    using Send_ok [OF c(2), of ?bs dbg "net_of s"] len c(3) by simp
  have nn: "p \<noteq> nullptr" using owns_slot [OF o] p by (simp add: in_transit_def)
  have impl: "impl_at s b = x" using o by (simp add: owns_def)
  have own: "owns (s\<lparr>net_of := ?n\<rparr>) b x" using o by (simp add: owns_def)
  from PacketToProcess_destroy_ok [OF own, of p t "stub_new p b"] p t obtain s' where
    s': "PacketToProcess_destroy t (stub_new p b) (s\<lparr>net_of := ?n\<rparr>) = Some s'" "owns s' b x"
    "free_packets (chan (pipe_of s') x) = free_packets (chan (pipe_of s) x) @ [p]" "net_of s' = ?n"
    "data_at s' = data_at s" "queued_set (chan (pipe_of s') x) = queued_set (chan (pipe_of s) x)"
    "packet_time (chan (pipe_of s') x) = packet_time (chan (pipe_of s) x)" "frame x (s\<lparr>net_of := ?n\<rparr>) s'"
    by (auto simp: stub_new_def)
  have "frame x s s'" using s'(8) by (simp add: frame_def)
  have "SendPacket dbg big op t this (stub_new p b) s = Some s'"
    using s'(1) send c(1) nn impl
    by (simp add: SendPacket_def stub_timestamp_def stub_data_def stub_new_def IsEmpty_def)
  with s'(2-7) \<open>frame x s s'\<close> show ?thesis by simp
qed

subsection \<open>Properties\<close>

text \<open>
  C30: A packet comes full circle. Acquired with a timestamp and data, passed around by moving its stub,
  pushed when the last stub goes out of scope and polled, it arrives with the same timestamp and data; when the second
  stub is gone it is back on the free stack. The stubs moved from do nothing when they are destroyed.
\<close>

theorem packet_full_circle:
  assumes "owns s b x" and "free_packets (chan (pipe_of s) x) = fs @ [p]" and "queued_set (chan (pipe_of s) x) = {}"
    and "ts \<le> t1" and "t0 \<le> t1" and "t1 \<le> t2" and "t2 \<le> t3" and "t1 < kMaxTime"
  shows "\<exists>k s1 s2 k' s3 s4. Channel_Acquire t0 ts d b s = Some (k, s1) \<and>
    PacketToFill_destroy t1 (snd (stub_move_new raw k)) s1 = Some s1 \<and>
    PacketToFill_destroy t1 (fst (stub_move_new raw k)) s1 = Some s2 \<and>
    Poll t2 b s2 = Some (k', s3) \<and> stub_timestamp k' s3 = Some ts \<and> stub_data k' s3 = Some d \<and>
    PacketToProcess_destroy t3 (snd (stub_move_new raw k')) s3 = Some s3 \<and>
    PacketToProcess_destroy t3 (fst (stub_move_new raw k')) s3 = Some s4 \<and>
    owns s4 b x \<and> free_packets (chan (pipe_of s4) x) = fs @ [p] \<and> queued_set (chan (pipe_of s4) x) = {}"
proof -
  from Channel_Acquire_ok [OF assms(1,2), of t0 ts d] obtain s1 where
    s1: "Channel_Acquire t0 ts d b s = Some (stub_new p b, s1)" "owns s1 b x" "in_transit (pipe_of s1) x p"
    "free_packets (chan (pipe_of s1) x) = fs" "queued_set (chan (pipe_of s1) x) = {}" "op_time (chan (pipe_of s1) x) p = t0"
    "packet_time (chan (pipe_of s1) x) p = ts" "data_at s1 p = d" "p \<noteq> nullptr"
    using assms(3) by auto
  have move: "stub_channel (fst (stub_move_new raw (stub_new p b))) = b" "stub_packet (fst (stub_move_new raw (stub_new p b))) = p"
    "IsEmpty (snd (stub_move_new raw (stub_new p b)))"
    by (simp_all add: stub_move_new_def stub_move_def stub_new_def IsEmpty_def)
  from PacketToFill_destroy_ok [OF s1(2,3) _ _ assms(8) move(1,2)] s1(5-7) assms(4,5) obtain s2 where
    s2: "PacketToFill_destroy t1 (fst (stub_move_new raw (stub_new p b))) s1 = Some s2" "owns s2 b x"
    "queued_set (chan (pipe_of s2) x) = {p}" "free_packets (chan (pipe_of s2) x) = fs"
    "packet_time (chan (pipe_of s2) x) p = ts" "data_at s2 p = d" using s1(4,8) by auto
  have "\<forall>y\<in>queued_set (chan (pipe_of s2) x). packet_time (chan (pipe_of s2) x) y \<le> t2"
    using s2(3,5) assms(4,6) by simp
  from Poll_ok [OF s2(2) _ this] s2(3) obtain s3 where
    s3: "Poll t2 b s2 = Some (stub_new p b, s3)" "owns s3 b x" "in_transit (pipe_of s3) x p"
    "op_time (chan (pipe_of s3) x) p = t2" "queued_set (chan (pipe_of s3) x) = {}"
    "free_packets (chan (pipe_of s3) x) = fs" "packet_time (chan (pipe_of s3) x) p = ts" "data_at s3 p = d"
    using s2(4-6) by auto
  from PacketToProcess_destroy_ok [OF s3(2,3) _ move(1,2), of t3] s3(4) assms(7) obtain s4 where
    s4: "PacketToProcess_destroy t3 (fst (stub_move_new raw (stub_new p b))) s3 = Some s4" "owns s4 b x"
    "free_packets (chan (pipe_of s4) x) = fs @ [p]" "queued_set (chan (pipe_of s4) x) = {}"
    using s3(5,6) by auto
  have "stub_timestamp (stub_new p b) s3 = Some ts" "stub_data (stub_new p b) s3 = Some d"
    using s3(2,7,8) s1(9) by (simp_all add: stub_timestamp_def stub_data_def stub_new_def IsEmpty_def owns_def)
  with s1(1) s2(1) s3(1) s4 destroy_empty [OF move(3)] show ?thesis by blast
qed

text \<open>
  C31: A sender channel sends as long as it stays where it was constructed: the callback puts exactly one
  datagram with the packet's timestamp and data on the network and returns the packet to the pool. After the object has
  been moved and the old one destroyed, the stored function still refers to the old object, and the callback of the moved
  channel reads an object that is gone.
\<close>

theorem sender_channel_move:
  assumes "owns s b x" and "in_transit (pipe_of s) x p" and "op_time (chan (pipe_of s) x) p \<le> t"
    and "handlers s b = Some (BoundSendPacket b)" and "connections s b = Some c"
    and "UDP_Connection.IsConnected (udp_at s c)" and "int (16 + length (data_at s p)) \<le> max_packet_size (udp_at s c)"
    and "b' \<noteq> nullptr" and "b' \<noteq> b"
  shows "(\<exists>s'. CallbackTranslator user dbg big op t b p s = Some s' \<and>
      datagrams (net_of s') = datagrams (net_of s) @ [(remote_address (udp_at s c),
        network_packet_bytes big (word_of_int (packet_time (chan (pipe_of s) x) p)) op (data_at s p))] \<and>
      free_packets (chan (pipe_of s') x) = free_packets (chan (pipe_of s) x) @ [p]) \<and>
    (\<exists>s1 s2. SenderChannel_move rest b' b s = Some s1 \<and> SenderChannel_destroy b s1 = Some s2 \<and> owns s2 b' x \<and>
      connections s2 b' = Some c \<and> CallbackTranslator user dbg big op t b' p s2 = None)"
proof -
  have nn: "b \<noteq> nullptr" using assms(1) by (simp add: owns_def)
  from SendPacket_ok [OF assms(1-3,5-7), of dbg big op] nn assms(4) obtain s' where
    s': "CallbackTranslator user dbg big op t b p s = Some s'"
    "free_packets (chan (pipe_of s') x) = free_packets (chan (pipe_of s) x) @ [p]"
    "datagrams (net_of s') = datagrams (net_of s) @ [(remote_address (udp_at s c),
      network_packet_bytes big (word_of_int (packet_time (chan (pipe_of s) x) p)) op (data_at s p))]"
    by (auto simp: CallbackTranslator_def call_handler_def PacketToProcess_new_def)
  from ChannelBase_move_ok [OF assms(1,8,9)] obtain s0 where
    s0: "ChannelBase_move b' b s = Some s0" "owns s0 b' x" "impl_at s0 = (impl_at s)(b' := x, b := nullptr)"
    "handlers s0 = handlers s" "connections s0 = connections s" by blast
  let ?s1 = "s0\<lparr>handlers := (handlers s0)(b := rest, b' := handlers s0 b), connections := (connections s0)(b' := connections s0 b)\<rparr>"
  let ?s2 = "?s1\<lparr>connections := (connections ?s1)(b := None), handlers := (handlers ?s1)(b := None)\<rparr>"
  have m: "SenderChannel_move rest b' b s = Some ?s1"
    by (simp add: SenderChannel_move_def ScheduledChannel_move_def ChannelBase_move_new_def s0(1))
  have d: "SenderChannel_destroy b ?s1 = Some ?s2"
    by (simp add: SenderChannel_destroy_def ScheduledChannel_destroy_def ChannelBase_destroy_def s0(3))
  have o2: "owns ?s2 b' x" using s0(2) by (simp add: owns_def)
  have h: "handlers ?s2 b' = Some (BoundSendPacket b)" "connections ?s2 b = None" "connections ?s2 b' = Some c"
    using s0(4,5) assms(4,5,9) by simp_all
  have "SendPacket dbg big op t b k ?s2 = None" for k
    using h(2) by (cases "stub_timestamp k ?s2"; cases "stub_data k ?s2") (simp_all add: SendPacket_def)
  then have "CallbackTranslator user dbg big op t b' p ?s2 = None"
    using h(1) assms(8) by (simp add: CallbackTranslator_def call_handler_def PacketToProcess_new_def)
  with m d o2 h(3) s' show ?thesis by blast
qed

text \<open>
  C32: Moving a channel to a fresh object hands over the implementation with its queue and leaves the old
  object empty. Assigning to an object that has an implementation of its own loses that one: it stays registered and
  keeps the object as its front, but no object owns it any more, so nothing can destroy it.
\<close>

theorem move_assign_orphans:
  assumes "owns s src x" and "owns s b y" and "channel_base (chan (pipe_of s) y) = b" and "b \<noteq> src" and "x \<noteq> y"
    and "inj_on (impl_at s) {a. impl_at s a \<noteq> nullptr}"
  shows "\<exists>s'. ChannelBase_move_assign b src s = Some s' \<and> owns s' b x \<and> checked_impl src s' = None \<and>
    chan (pipe_of s') x = SetBase b (chan (pipe_of s) x) \<and>
    y \<in> set (channels (sched (pipe_of s'))) \<and> channel_base (chan (pipe_of s') y) = b \<and> (\<forall>a. impl_at s' a \<noteq> y)"
proof -
  have b: "b \<noteq> nullptr" "y \<noteq> nullptr" "impl_at s b = y" using assms(2) by (simp_all add: owns_def)
  from ChannelBase_move_ok [OF assms(1) b(1) assms(4)] obtain s' where
    s': "ChannelBase_move b src s = Some s'" "owns s' b x" "impl_at s' = (impl_at s)(b := x, src := nullptr)"
    "pipe_of s' = set_channel x (SetBase b (chan (pipe_of s) x)) (pipe_of s)" by blast
  have "impl_at s' a \<noteq> y" for a
  proof
    assume o: "impl_at s' a = y"
    have "impl_at s' b = x" "impl_at s' src = nullptr" using s'(3) assms(4) by simp_all
    with o b(2) assms(5) have "a \<noteq> b" "a \<noteq> src" by metis+
    with o s'(3) have "impl_at s a = y" by simp
    with b assms(6) have "a = b" by (auto simp: inj_on_def)
    with \<open>a \<noteq> b\<close> show False by simp
  qed
  moreover have "checked_impl src s' = None" by (simp add: checked_impl_def s'(3))
  moreover have "y \<in> set (channels (sched (pipe_of s')))" using assms(2) by (simp add: s'(4) owns_def)
  ultimately show ?thesis using s' assms(3,5) by (simp add: ChannelBase_move_assign_def)
qed

subsection \<open>Examples\<close>

definition ex_objects :: objects where
  "ex_objects = \<lparr>pipe_of = ex_built, impl_at = (\<lambda>b. if b = 40 then 21 else if b = 41 then 22 else nullptr), handlers = Map.empty,
     connections = Map.empty, udp_at = (\<lambda>_. ex_udp), net_of = ex_net, data_at = (\<lambda>_. [])\<rparr>"

lemma ex_objects_owns: "owns ex_objects 40 21" "owns ex_objects 41 22"
  using ex_built_inv by (simp_all add: owns_def ex_objects_def nullptr_def)

theorem packet_full_circle_witness:
  "\<exists>k s1 s2 k' s3. Channel_Acquire 4 3 [7, 8] 40 ex_objects = Some (k, s1) \<and>
    PacketToFill_destroy 5 (fst (stub_move_new (stub_new 0 0) k)) s1 = Some s2 \<and> Poll 6 40 s2 = Some (k', s3) \<and>
    stub_timestamp k' s3 = Some 3 \<and> stub_data k' s3 = Some [7, 8]"
proof -
  have "free_packets (chan (pipe_of ex_objects) 21) = [1008] @ [1000]" "queued_set (chan (pipe_of ex_objects) 21) = {}"
    using ex_built_chan(1) ex_one_chan by (simp_all add: ex_objects_def)
  moreover have "(3::time) \<le> 5" "(4::time) \<le> 5" "(5::time) \<le> 6" "(6::time) \<le> 7" "(5::time) < kMaxTime"
    by (simp_all add: kMaxTime_def)
  ultimately have "\<exists>k s1 s2 k' s3 s4. Channel_Acquire 4 3 [7, 8] 40 ex_objects = Some (k, s1) \<and>
    PacketToFill_destroy 5 (snd (stub_move_new (stub_new 0 0) k)) s1 = Some s1 \<and>
    PacketToFill_destroy 5 (fst (stub_move_new (stub_new 0 0) k)) s1 = Some s2 \<and>
    Poll 6 40 s2 = Some (k', s3) \<and> stub_timestamp k' s3 = Some 3 \<and> stub_data k' s3 = Some [7, 8] \<and>
    PacketToProcess_destroy 7 (snd (stub_move_new (stub_new 0 0) k')) s3 = Some s3 \<and>
    PacketToProcess_destroy 7 (fst (stub_move_new (stub_new 0 0) k')) s3 = Some s4 \<and>
    owns s4 40 21 \<and> free_packets (chan (pipe_of s4) 21) = [1008] @ [1000] \<and> queued_set (chan (pipe_of s4) 21) = {}"
    by (intro packet_full_circle [OF ex_objects_owns(1)])
  then show ?thesis by blast
qed

text \<open>A sender channel whose packet is being processed, and two channels with their fronts.\<close>

definition ex_sender :: objects where
  "ex_sender = \<lparr>pipe_of = ex_filling, impl_at = (\<lambda>b. if b = 40 then 21 else nullptr), handlers = [40 \<mapsto> BoundSendPacket 40],
     connections = [40 \<mapsto> 9], udp_at = (\<lambda>_. ex_udp), net_of = ex_net, data_at = (\<lambda>_. [7])\<rparr>"

theorem sender_channel_move_witness:
  "\<exists>s1 s2. SenderChannel_move (Some (BoundSendPacket 40)) 42 40 ex_sender = Some s1 \<and> SenderChannel_destroy 40 s1 = Some s2 \<and>
    CallbackTranslator (\<lambda>_ _ _. None) True False 0 5 42 1000 s2 = None"
proof -
  have own: "owns ex_sender 40 21" using ex_filling_facts(1,7) by (simp add: owns_def ex_sender_def nullptr_def)
  have tr: "in_transit (pipe_of ex_sender) 21 1000" "op_time (chan (pipe_of ex_sender) 21) 1000 \<le> 5"
    using ex_filling_facts(2,5) by (simp_all add: ex_sender_def)
  have "handlers ex_sender 40 = Some (BoundSendPacket 40)" "connections ex_sender 40 = Some 9"
    "UDP_Connection.IsConnected (udp_at ex_sender 9)"
    "int (16 + length (data_at ex_sender 1000)) \<le> max_packet_size (udp_at ex_sender 9)" "(42::addr) \<noteq> nullptr" "(42::addr) \<noteq> 40"
    by (simp_all add: ex_sender_def ex_udp_def UDP_Connection.IsConnected_def nullptr_def)
  from sender_channel_move [OF own tr this, of "\<lambda>_ _ _. None" True False 0] show ?thesis by blast
qed

theorem move_assign_orphans_witness:
  "\<exists>s'. ChannelBase_move_assign 41 40 (set_base 22 41 ex_objects) = Some s' \<and>
    22 \<in> set (channels (sched (pipe_of s'))) \<and> 22 \<notin> range (impl_at s')"
proof -
  let ?s = "set_base 22 41 ex_objects"
  have "pipeline_inv (pipe_of ?s)"
    using SetBase_ok [OF ex_built_inv(2), of 22 41] ex_built_inv(5) by (simp add: set_base_def ex_objects_def)
  then have own: "owns ?s 40 21" "owns ?s 41 22"
    using ex_objects_owns by (simp_all add: owns_def set_base_def)
  have "channel_base (chan (pipe_of ?s) 22) = 41" by (simp add: set_base_def SetBase_def)
  moreover have "inj_on (impl_at ?s) {a. impl_at ?s a \<noteq> nullptr}"
    by (auto simp: inj_on_def set_base_def ex_objects_def nullptr_def split: if_splits)
  ultimately show ?thesis using move_assign_orphans [OF own] by fastforce
qed

end
