(* ===== verification/Thread_Id.thy ===== *)
theory Thread_Id
  imports Pipert_Prelude "HOL-Library.Word"
begin

text \<open>
  Model of \<^verbatim>\<open>src/ThreadId.h\<close> and \<^verbatim>\<open>src/ThreadId.cpp\<close>: the thread-local id and name,
  and the two global atomic counters. An \<^verbatim>\<open>int\<close> is a word of 32 bits read as a signed number, because
  the atomic counters wrap around. \<open>i\<close> is the thread that runs the operation.
\<close>

definition kUntaggedValue :: "32 word" where
  "kUntaggedValue = 0"

record thread_ids =
  hand_tag_next :: "32 word"
  auto_tag_next :: "32 word"
  current_thread_id :: "nat \<Rightarrow> 32 word"
  current_thread_name :: "nat \<Rightarrow> cptr"

text \<open>\<open>na\<close> is the address of the literal \<^verbatim>\<open>"N/A"\<close>.\<close>

definition thread_ids_init :: "cptr \<Rightarrow> thread_ids" where
  "thread_ids_init na =
     \<lparr>hand_tag_next = kUntaggedValue + 1, auto_tag_next = kUntaggedValue - 1,
      current_thread_id = (\<lambda>_. kUntaggedValue), current_thread_name = (\<lambda>_. na)\<rparr>"

record thread_id =
  thread_id_value :: "32 word"
  thread_name :: cptr

definition thread_id_new :: "32 word \<Rightarrow> cptr \<Rightarrow> thread_id option" where
  "thread_id_new v name = do {
     assert_that (v \<noteq> kUntaggedValue);
     Some \<lparr>thread_id_value = v, thread_name = name\<rparr>
   }"

definition IsCurrentThreadUntagged :: "nat \<Rightarrow> thread_ids \<Rightarrow> bool" where
  "IsCurrentThreadUntagged i s \<longleftrightarrow> current_thread_id s i = kUntaggedValue"

definition GetCurrentThread :: "nat \<Rightarrow> thread_ids \<Rightarrow> (thread_id \<times> thread_ids) option" where
  "GetCurrentThread i s = do {
     let s1 = (if IsCurrentThreadUntagged i s
               then s\<lparr>current_thread_id := (current_thread_id s)(i := auto_tag_next s),
                      auto_tag_next := auto_tag_next s - 1\<rparr>
               else s);
     tid \<leftarrow> thread_id_new (current_thread_id s1 i) (current_thread_name s1 i);
     Some (tid, s1)
   }"

definition TagCurrentThread :: "bool \<Rightarrow> nat \<Rightarrow> thread_ids \<Rightarrow> thread_ids option" where
  "TagCurrentThread dbg i s =
     (if IsCurrentThreadUntagged i s
      then Some (s\<lparr>current_thread_id := (current_thread_id s)(i := hand_tag_next s),
                   hand_tag_next := hand_tag_next s + 1\<rparr>)
      else do { check dbg False; Some s })"

definition SetNameOfCurrentThread :: "nat \<Rightarrow> cptr \<Rightarrow> thread_ids \<Rightarrow> thread_ids option" where
  "SetNameOfCurrentThread i name s = do {
     assert_that (sint (current_thread_id s i) > sint kUntaggedValue);
     Some (s\<lparr>current_thread_name := (current_thread_name s)(i := name)\<rparr>)
   }"

definition IsHandTagged :: "thread_id \<Rightarrow> bool" where
  "IsHandTagged t \<longleftrightarrow> sint (thread_id_value t) > sint kUntaggedValue"

definition IsAutoTagged :: "thread_id \<Rightarrow> bool" where
  "IsAutoTagged t \<longleftrightarrow> sint (thread_id_value t) < sint kUntaggedValue"

definition GetIdForSerialization :: "thread_id \<Rightarrow> 32 word" where
  "GetIdForSerialization t = thread_id_value t"

definition GetThreadName :: "thread_id \<Rightarrow> cptr" where
  "GetThreadName t = thread_name t"

subsection \<open>Unique ids\<close>

lemma sint_small: "- (2 ^ 31) \<le> x \<Longrightarrow> x < 2 ^ 31 \<Longrightarrow> sint (word_of_int x :: 32 word) = x"
  unfolding sint_sbintrunc' by (rule signed_take_bit_int_eq_self) simp_all

text \<open>
  \<open>h\<close> threads have been tagged by hand and \<open>a\<close> automatically. The counters have not
  wrapped as long as both stay below the largest \<^verbatim>\<open>int\<close>.
\<close>

definition ids_inv :: "nat \<Rightarrow> nat \<Rightarrow> thread_ids \<Rightarrow> bool" where
  "ids_inv h a s \<longleftrightarrow>
     hand_tag_next s = word_of_int (int h + 1) \<and> auto_tag_next s = word_of_int (- int a - 1) \<and>
     (\<forall>i. current_thread_id s i \<noteq> kUntaggedValue \<longrightarrow>
        (0 < sint (current_thread_id s i) \<and> sint (current_thread_id s i) \<le> int h \<or>
         - int a \<le> sint (current_thread_id s i) \<and> sint (current_thread_id s i) < 0)) \<and>
     inj_on (current_thread_id s) {i. current_thread_id s i \<noteq> kUntaggedValue}"

lemma ids_inv_init: "ids_inv 0 0 (thread_ids_init na)"
  by (simp add: ids_inv_def thread_ids_init_def kUntaggedValue_def)

lemma ids_inv_new:
  assumes inv: "ids_inv h a s" and i: "current_thread_id s i = kUntaggedValue"
    and v: "v \<noteq> kUntaggedValue" "sint v = int h + 1 \<or> sint v = - int a - 1"
    and s': "current_thread_id s' = (current_thread_id s)(i := v)"
  shows "inj_on (current_thread_id s') {j. current_thread_id s' j \<noteq> kUntaggedValue}"
proof (rule inj_onI)
  have old: "current_thread_id s j \<noteq> v" if "current_thread_id s j \<noteq> kUntaggedValue" for j
  proof
    assume "current_thread_id s j = v"
    moreover have "0 < sint (current_thread_id s j) \<and> sint (current_thread_id s j) \<le> int h \<or>
         - int a \<le> sint (current_thread_id s j) \<and> sint (current_thread_id s j) < 0"
      using inv that by (simp add: ids_inv_def)
    ultimately show False using v(2) by auto
  qed
  fix j k
  assume "j \<in> {j. current_thread_id s' j \<noteq> kUntaggedValue}" "k \<in> {j. current_thread_id s' j \<noteq> kUntaggedValue}"
    "current_thread_id s' j = current_thread_id s' k"
  then show "j = k"
    using old [of j] old [of k] inv
    by (cases "j = i"; cases "k = i") (auto simp: s' ids_inv_def inj_on_def)
qed

lemma TagCurrentThread_ok:
  assumes inv: "ids_inv h a s" and i: "IsCurrentThreadUntagged i s" and h: "int h < 2 ^ 31 - 1"
  shows "\<exists>s'. TagCurrentThread dbg i s = Some s' \<and> ids_inv (Suc h) a s' \<and> sint (current_thread_id s' i) = int h + 1"
proof -
  let ?v = "hand_tag_next s"
  let ?s = "s\<lparr>current_thread_id := (current_thread_id s)(i := ?v), hand_tag_next := ?v + 1\<rparr>"
  have un: "current_thread_id s i = kUntaggedValue" using i by (simp add: IsCurrentThreadUntagged_def)
  have "?v = word_of_int (int h + 1)" using inv unfolding ids_inv_def by (elim conjE)
  then have v: "sint ?v = int h + 1" using sint_small [of "int h + 1"] h by (simp del: of_int_add)
  then have nz: "?v \<noteq> kUntaggedValue" by (auto simp: kUntaggedValue_def)
  have inj: "inj_on (current_thread_id ?s) {j. current_thread_id ?s j \<noteq> kUntaggedValue}"
    by (rule ids_inv_new [OF inv un nz]) (use v in simp_all)
  have "?v + 1 = word_of_int (int (Suc h) + 1)" using inv by (simp add: ids_inv_def)
  moreover have "0 < sint (current_thread_id ?s j) \<and> sint (current_thread_id ?s j) \<le> int (Suc h) \<or>
      - int a \<le> sint (current_thread_id ?s j) \<and> sint (current_thread_id ?s j) < 0"
    if "current_thread_id ?s j \<noteq> kUntaggedValue" for j
  proof (cases "j = i")
    case True
    with v show ?thesis by simp
  next
    case False
    with inv that show ?thesis by (auto simp: ids_inv_def)
  qed
  ultimately have "ids_inv (Suc h) a ?s" using inv inj by (auto simp: ids_inv_def simp del: fun_upd_apply)
  moreover have "TagCurrentThread dbg i s = Some ?s" using i by (simp add: TagCurrentThread_def)
  ultimately show ?thesis using v by simp
qed

lemma GetCurrentThread_ok:
  assumes inv: "ids_inv h a s" and a: "int a < 2 ^ 31"
  shows "\<exists>t s'. GetCurrentThread i s = Some (t, s') \<and> thread_id_value t = current_thread_id s' i \<and>
    thread_name t = current_thread_name s i \<and> current_thread_name s' = current_thread_name s \<and>
    (if IsCurrentThreadUntagged i s then ids_inv h (Suc a) s' \<and> IsAutoTagged t else s' = s)"
proof (cases "IsCurrentThreadUntagged i s")
  case False
  then show ?thesis by (simp add: GetCurrentThread_def thread_id_new_def IsCurrentThreadUntagged_def)
next
  case True
  let ?v = "auto_tag_next s"
  let ?s = "s\<lparr>current_thread_id := (current_thread_id s)(i := ?v), auto_tag_next := ?v - 1\<rparr>"
  have un: "current_thread_id s i = kUntaggedValue" using True by (simp add: IsCurrentThreadUntagged_def)
  have "?v = word_of_int (- int a - 1)" using inv unfolding ids_inv_def by (elim conjE)
  then have v: "sint ?v = - int a - 1" using sint_small [of "- int a - 1"] a by (simp del: of_int_diff)
  then have nz: "?v \<noteq> kUntaggedValue" by (auto simp: kUntaggedValue_def)
  have inj: "inj_on (current_thread_id ?s) {j. current_thread_id ?s j \<noteq> kUntaggedValue}"
    by (rule ids_inv_new [OF inv un nz]) (use v in simp_all)
  have "?v - 1 = word_of_int (- int (Suc a) - 1)" using inv by (simp add: ids_inv_def)
  moreover have "0 < sint (current_thread_id ?s j) \<and> sint (current_thread_id ?s j) \<le> int h \<or>
      - int (Suc a) \<le> sint (current_thread_id ?s j) \<and> sint (current_thread_id ?s j) < 0"
    if "current_thread_id ?s j \<noteq> kUntaggedValue" for j
  proof (cases "j = i")
    case True
    with v show ?thesis by simp
  next
    case False
    with inv that show ?thesis by (auto simp: ids_inv_def)
  qed
  ultimately have "ids_inv h (Suc a) ?s" using inv inj by (auto simp: ids_inv_def simp del: fun_upd_apply)
  moreover have "GetCurrentThread i s = Some (\<lparr>thread_id_value = ?v, thread_name = current_thread_name s i\<rparr>, ?s)"
    using True nz by (simp add: GetCurrentThread_def thread_id_new_def Let_def)
  ultimately show ?thesis using True v by (simp add: IsAutoTagged_def kUntaggedValue_def)
qed

subsection \<open>Properties\<close>



end
