(* ===== verification/Sender_Logger.thy ===== *)
theory Sender_Logger
  imports Thread_Id Byte_Order Log_Event
begin

text \<open>
  Model of \<^verbatim>\<open>src/SenderLogger.h\<close> and \<^verbatim>\<open>src/SenderLogger.cpp\<close>: four counters, one per
  thread name (compared as pointers) that has logged the tracked event.

  \<open>text\<close> is the memory behind a pointer to a C string. The bytes a serializing function writes at
  the place it is given are its result.
\<close>

subsection \<open>C strings in buffers\<close>

definition bytes_of :: "string \<Rightarrow> byte list" where
  "bytes_of s = map (\<lambda>c. of_char c) s"

text \<open>
  \<^verbatim>\<open>memcpy(buf, str, len); buf += len + 1; buf[-1] = 0\<close> with the length cut off at \<open>limit\<close>:
  the end of \<^verbatim>\<open>SenderLogger::Serialize\<close> and \<^verbatim>\<open>ProfileData::SerializeString\<close>.
\<close>

definition put_string :: "nat \<Rightarrow> string \<Rightarrow> byte list" where
  "put_string limit s = (let len = length s; len' = (if len > limit then limit else len) in bytes_of (take len' s) @ [0])"

lemma length_bytes_of [simp]: "length (bytes_of s) = length s"
  by (simp add: bytes_of_def)

lemma length_put_string: "length (put_string limit s) = min (length s) limit + 1"
  by (simp add: put_string_def Let_def min_def)

lemma length_put_string_le: "length (put_string limit s) \<le> limit + 1"
  by (simp add: length_put_string)

subsection \<open>State\<close>

definition kMaxSenders :: nat where
  "kMaxSenders = 4"

definition kMaxSenderNameLength :: nat where
  "kMaxSenderNameLength = 27"

record sender =
  sender_name :: cptr
  sent_packets :: int

definition sender_less :: "sender \<Rightarrow> sender \<Rightarrow> bool" where
  "sender_less a b \<longleftrightarrow> sent_packets a > sent_packets b"

record sender_logger =
  track_event :: event_id
  senders :: "sender list"

definition no_sender :: sender where
  "no_sender = \<lparr>sender_name = nullptr, sent_packets = 0\<rparr>"

definition ClearTopSenders :: "sender_logger \<Rightarrow> sender_logger" where
  "ClearTopSenders l = l\<lparr>senders := map (\<lambda>e. e\<lparr>sender_name := nullptr, sent_packets := 0\<rparr>) (senders l)\<rparr>"

definition sender_logger_new :: "event_id \<Rightarrow> sender_logger" where
  "sender_logger_new e = ClearTopSenders \<lparr>track_event = e, senders = replicate kMaxSenders no_sender\<rparr>"

subsection \<open>Tracking\<close>

text \<open>
  The loop over the slots and what follows it: the slot found is counted up, a free one is taken. The
  counter is an \<^verbatim>\<open>int\<close>.
\<close>

fun track_name :: "cptr \<Rightarrow> sender list \<Rightarrow> sender list" where
  "track_name name [] = []"
| "track_name name (e # es) =
     (if sender_name e \<noteq> nullptr \<and> sender_name e \<noteq> name then e # track_name name es
      else if sender_name e = nullptr then e\<lparr>sender_name := name, sent_packets := 1\<rparr> # es
      else e\<lparr>sent_packets := wrap_int (sent_packets e + 1)\<rparr> # es)"

definition TrackSender :: "nat \<Rightarrow> event_id \<Rightarrow> thread_ids \<Rightarrow> sender_logger \<Rightarrow> (thread_ids \<times> sender_logger) option" where
  "TrackSender i e ids l =
     (if e \<noteq> track_event l then Some (ids, l)
      else do {
        (this_thread, ids') \<leftarrow> GetCurrentThread i ids;
        Some (ids', l\<lparr>senders := track_name (GetThreadName this_thread) (senders l)\<rparr>)
      })"

subsection \<open>The top sender\<close>

text \<open>
  \<^verbatim>\<open>partial_sort(begin, begin + 1, end)\<close>: one pass that exchanges the first element with each
  later one that is less, which is how the library selects a single element.
\<close>

fun select_first :: "sender \<Rightarrow> sender list \<Rightarrow> sender \<times> sender list" where
  "select_first f [] = (f, [])"
| "select_first f (e # es) =
     (if sender_less e f
      then (case select_first e es of (g, rest) \<Rightarrow> (g, f # rest))
      else (case select_first f es of (g, rest) \<Rightarrow> (g, e # rest)))"

definition partial_sort_first :: "sender list \<Rightarrow> sender list" where
  "partial_sort_first es = (case es of [] \<Rightarrow> [] | f # rest \<Rightarrow> (case select_first f rest of (g, rest') \<Rightarrow> g # rest'))"

definition GetTopSender :: "sender_logger \<Rightarrow> (cptr \<times> sender_logger) option" where
  "GetTopSender l =
     (case partial_sort_first (senders l) of
        [] \<Rightarrow> None
      | e # es \<Rightarrow> Some (sender_name e, l\<lparr>senders := e # es\<rparr>))"

definition sender_serialize :: "(cptr \<Rightarrow> string) \<Rightarrow> sender_logger \<Rightarrow> (byte list \<times> sender_logger) option" where
  "sender_serialize text l = do {
     (top, l') \<leftarrow> GetTopSender l;
     let name = (if top = nullptr then ''N/A'' else text top);
     Some (bytes_of ''SEND'' @ put_string kMaxSenderNameLength name, l')
   }"

definition sender_serialize_n_clear :: "(cptr \<Rightarrow> string) \<Rightarrow> sender_logger \<Rightarrow> (byte list \<times> sender_logger) option" where
  "sender_serialize_n_clear text l = do {
     (out, l') \<leftarrow> sender_serialize text l;
     Some (out, ClearTopSenders l')
   }"

subsection \<open>What is counted\<close>

text \<open>Slots in use come first, their names are distinct and not null.\<close>

fun used :: "sender list \<Rightarrow> sender list" where
  "used [] = []"
| "used (e # es) = (if sender_name e \<noteq> nullptr then e # used es else [])"

fun sender_count :: "sender list \<Rightarrow> cptr \<Rightarrow> int" where
  "sender_count [] n = 0"
| "sender_count (e # es) n =
     (if sender_name e = nullptr then 0
      else if sender_name e = n then sent_packets e else sender_count es n)"

lemma length_track_name [simp]: "length (track_name name es) = length es"
  by (induction es) auto

text \<open>After a free slot nothing is in use: the slots fill up from the front.\<close>

fun packed :: "sender list \<Rightarrow> bool" where
  "packed [] = True"
| "packed (e # es) =
     (if sender_name e = nullptr then (\<forall>f\<in>set es. sender_name f = nullptr \<and> sent_packets f = 0) \<and> sent_packets e = 0
      else packed es \<and> sender_name e \<notin> sender_name ` set es \<and> 0 < sent_packets e)"

lemma names_track_name: "sender_name ` set (track_name name es) \<subseteq> insert name (sender_name ` set es)"
  by (induction es) auto

lemma packed_empty: "\<forall>f\<in>set es. sender_name f = nullptr \<and> sent_packets f = 0 \<Longrightarrow> packed es"
  by (cases es) (simp_all only: packed.simps list.set ball_simps insert_iff simp_thms if_True, blast)

text \<open>No counter is at its limit.\<close>

definition countable :: "sender list \<Rightarrow> bool" where
  "countable es \<longleftrightarrow> (\<forall>e\<in>set es. sent_packets e < 2 ^ 31 - 1)"

lemma countable_simps [simp]:
  "countable []" "countable (e # es) \<longleftrightarrow> sent_packets e < 2 ^ 31 - 1 \<and> countable es"
  by (simp_all add: countable_def)

lemma packed_track_name: "name \<noteq> nullptr \<Longrightarrow> packed es \<Longrightarrow> countable es \<Longrightarrow> packed (track_name name es)"
proof (induction es)
  case (Cons e es)
  show ?case
  proof (cases "sender_name e = nullptr")
    case True
    with Cons.prems have e: "\<forall>f\<in>set es. sender_name f = nullptr \<and> sent_packets f = 0" by simp
    then have "name \<notin> sender_name ` set es" using Cons.prems(1) by fastforce
    with True packed_empty [OF e] Cons.prems(1) show ?thesis by simp
  next
    case False
    with Cons.prems have e: "packed es" "sender_name e \<notin> sender_name ` set es" "0 < sent_packets e" by simp_all
    show ?thesis
    proof (cases "sender_name e = name")
      case True
      with False e Cons.prems(3) show ?thesis by simp
    next
      case ne: False
      then have "sender_name e \<notin> sender_name ` set (track_name name es)" using names_track_name [of name es] e(2) by blast
      with False ne e Cons show ?thesis by simp
    qed
  qed
qed simp

lemma track_name_other: "name \<noteq> nullptr \<Longrightarrow> packed es \<Longrightarrow> n \<noteq> name \<Longrightarrow> sender_count (track_name name es) n = sender_count es n"
proof (induction es)
  case (Cons e es)
  have none: "sender_count es n = 0" if "sender_name e = nullptr"
    using Cons.prems(2) that by (cases es) simp_all
  show ?case
  proof (cases "sender_name e = nullptr")
    case True
    with Cons.prems none show ?thesis by simp
  next
    case False
    with Cons.prems have "packed es" by simp
    with False Cons show ?thesis by simp
  qed
qed simp

definition has_slot :: "cptr \<Rightarrow> sender list \<Rightarrow> bool" where
  "has_slot name es \<longleftrightarrow> (\<exists>e\<in>set es. sender_name e = name \<or> sender_name e = nullptr)"

lemma has_slot_simps [simp]:
  "\<not> has_slot name []"
  "has_slot name (e # es) \<longleftrightarrow> sender_name e = name \<or> sender_name e = nullptr \<or> has_slot name es"
  by (auto simp: has_slot_def)

lemma track_name_self:
  "name \<noteq> nullptr \<Longrightarrow> packed es \<Longrightarrow> countable es \<Longrightarrow> has_slot name es \<Longrightarrow>
     sender_count (track_name name es) name = sender_count es name + 1"
  by (induction es) (simp_all split: if_splits, auto)

lemma track_name_full: "\<not> has_slot name es \<Longrightarrow> track_name name es = es"
  by (induction es) auto

subsection \<open>Selection\<close>

lemma select_first_best:
  "select_first f es = (g, rest) \<Longrightarrow>
     g \<in> set (f # es) \<and> (\<forall>e\<in>set (f # es). sent_packets e \<le> sent_packets g) \<and> mset (g # rest) = mset (f # es)"
proof (induction f es arbitrary: g rest rule: select_first.induct)
  case (2 f e es)
  then show ?case by (fastforce simp: sender_less_def split: if_splits prod.splits)
qed simp

lemma partial_sort_first_best:
  "es \<noteq> [] \<Longrightarrow> \<exists>g rest. partial_sort_first es = g # rest \<and> g \<in> set es \<and>
     (\<forall>e\<in>set es. sent_packets e \<le> sent_packets g) \<and> mset (g # rest) = mset es"
proof (cases es)
  case (Cons f fs)
  obtain g rest where "select_first f fs = (g, rest)" by fastforce
  with select_first_best [OF this] Cons show ?thesis by (auto simp: partial_sort_first_def)
qed simp

lemma sender_count_member: "packed es \<Longrightarrow> e \<in> set es \<Longrightarrow> sender_name e \<noteq> nullptr \<Longrightarrow> sender_count es (sender_name e) = sent_packets e"
  by (induction es) auto

lemma packed_null: "packed es \<Longrightarrow> e \<in> set es \<Longrightarrow> sender_name e = nullptr \<Longrightarrow> sent_packets e = 0"
  by (induction es) (auto split: if_splits)

lemma sender_count_nonneg: "packed es \<Longrightarrow> 0 \<le> sender_count es n"
  by (induction es) (auto split: if_splits)

lemma sender_count_bound: "packed es \<Longrightarrow> es \<noteq> [] \<Longrightarrow> (\<And>e. e \<in> set es \<Longrightarrow> sent_packets e \<le> m) \<Longrightarrow> sender_count es n \<le> m"
proof (induction es)
  case (Cons e es)
  have pos: "0 \<le> sent_packets e" using Cons.prems(1) by (auto split: if_splits)
  have m: "sent_packets e \<le> m" using Cons.prems(3) by simp
  show ?case
  proof (cases "sender_name e = nullptr \<or> es = []")
    case True
    then show ?thesis using pos m by auto
  next
    case False
    then have "sender_count es n \<le> m" using Cons by (auto split: if_splits)
    with False m show ?thesis by simp
  qed
qed simp

text \<open>What the logger reports: a name nobody beats, or null when nothing was tracked.\<close>

lemma GetTopSender_top:
  assumes p: "packed (senders l)" and ne: "senders l \<noteq> []"
  shows "\<exists>top l'. GetTopSender l = Some (top, l') \<and> mset (senders l') = mset (senders l) \<and> track_event l' = track_event l \<and>
    (top \<noteq> nullptr \<longrightarrow> (\<forall>n. sender_count (senders l) n \<le> sender_count (senders l) top)) \<and>
    (top = nullptr \<longrightarrow> (\<forall>n. sender_count (senders l) n = 0))"
proof -
  from partial_sort_first_best [OF ne] obtain g rest where
    g: "partial_sort_first (senders l) = g # rest" "g \<in> set (senders l)"
    "\<forall>e\<in>set (senders l). sent_packets e \<le> sent_packets g" "mset (g # rest) = mset (senders l)" by blast
  have bound: "sender_count (senders l) n \<le> sent_packets g" for n
    using sender_count_bound [OF p ne] g(3) by blast
  have null: "sender_count (senders l) n = 0" if "sender_name g = nullptr" for n
  proof -
    have "sent_packets g = 0" using packed_null [OF p g(2) that] .
    with bound [of n] sender_count_nonneg [OF p, of n] show ?thesis by simp
  qed
  show ?thesis
    using g(1,4) bound null sender_count_member [OF p g(2)] by (auto simp: GetTopSender_def)
qed

lemma sender_serialize_length:
  assumes "sender_serialize text l = Some (out, l')"
  shows "length out \<le> 32" "4 \<le> length out"
  using assms length_put_string_le [of kMaxSenderNameLength]
  by (auto simp: sender_serialize_def bind_eq_Some_conv Let_def kMaxSenderNameLength_def split: if_splits)

subsection \<open>Properties\<close>

text \<open>
  Tracking counts the events of every thread name that finds a slot: the counter of the
  current thread's name, which is below its limit, goes up by one, no other name's changes, and with all four slots taken by other names nothing
  changes.
\<close>

theorem track_counts_sender:
  assumes "packed (senders l)" and "GetCurrentThread i ids = Some (t, ids')" and "GetThreadName t \<noteq> nullptr"
    and "countable (senders l)"
  shows "\<exists>l'. TrackSender i (track_event l) ids l = Some (ids', l') \<and> packed (senders l') \<and>
    length (senders l') = length (senders l) \<and>
    (\<forall>n. sender_count (senders l') n = sender_count (senders l) n +
       (if n = GetThreadName t \<and> has_slot n (senders l) then 1 else 0))"
proof -
  let ?n = "GetThreadName t"
  have "sender_count (track_name ?n (senders l)) n = sender_count (senders l) n + (if n = ?n \<and> has_slot n (senders l) then 1 else 0)" for n
    using track_name_self [OF assms(3,1,4)] track_name_other [OF assms(3,1), of n] track_name_full [of ?n "senders l"]
    by (cases "n = ?n"; cases "has_slot ?n (senders l)") auto
  with packed_track_name [OF assms(3,1,4)] assms(2) show ?thesis by (simp add: TrackSender_def)
qed

theorem track_counts_sender_witness:
  "\<exists>l'. TrackSender 3 EventPushed (thread_ids_init 9) (sender_logger_new EventPushed) =
     Some (snd (the (GetCurrentThread 3 (thread_ids_init 9))), l') \<and> sender_count (senders l') 9 = 1"
proof -
  let ?l = "sender_logger_new EventPushed"
  have l: "senders ?l = replicate 4 no_sender" "track_event ?l = EventPushed"
    by (simp_all add: sender_logger_new_def ClearTopSenders_def no_sender_def kMaxSenders_def numeral_eq_Suc)
  have p: "packed (senders ?l)" "has_slot 9 (senders ?l)" "sender_count (senders ?l) 9 = 0" "countable (senders ?l)"
    unfolding l by (simp_all add: numeral_eq_Suc no_sender_def)
  obtain t ids' where c: "GetCurrentThread 3 (thread_ids_init 9) = Some (t, ids')" "thread_name t = 9"
    using GetCurrentThread_ok [OF ids_inv_init [of 9], of 3] by (auto simp: thread_ids_init_def)
  from track_counts_sender [OF p(1) c(1) _ p(4)] c p(2,3) l(2) show ?thesis
    by (auto simp: GetThreadName_def nullptr_def)
qed

text \<open>
  The reported sender is one that no other tracked sender beats, null exactly when nothing was
  tracked, and the serialized form never takes more than 32 bytes however long the name is.
\<close>

theorem top_sender_reported:
  assumes "packed (senders l)" and "senders l \<noteq> []"
  shows "\<exists>top l'. GetTopSender l = Some (top, l') \<and> mset (senders l') = mset (senders l) \<and>
    (if top = nullptr then \<forall>n. sender_count (senders l) n = 0
     else \<forall>n. sender_count (senders l) n \<le> sender_count (senders l) top) \<and>
    sender_serialize txt l = Some (bytes_of ''SEND'' @ put_string kMaxSenderNameLength (if top = nullptr then ''N/A'' else txt top), l') \<and>
    length (bytes_of ''SEND'' @ put_string kMaxSenderNameLength (if top = nullptr then ''N/A'' else txt top)) \<le> 32"
proof -
  from GetTopSender_top [OF assms] obtain top l' where g: "GetTopSender l = Some (top, l')"
    "mset (senders l') = mset (senders l)"
    "top \<noteq> nullptr \<longrightarrow> (\<forall>n. sender_count (senders l) n \<le> sender_count (senders l) top)"
    "top = nullptr \<longrightarrow> (\<forall>n. sender_count (senders l) n = 0)" by blast
  have s: "sender_serialize txt l = Some (bytes_of ''SEND'' @ put_string kMaxSenderNameLength (if top = nullptr then ''N/A'' else txt top), l')"
    using g(1) by (simp add: sender_serialize_def Let_def)
  with g sender_serialize_length(1) [OF s] show ?thesis by auto
qed

theorem top_sender_reported_witness:
  "\<exists>top l'. GetTopSender \<lparr>track_event = EventPushed, senders = [\<lparr>sender_name = 6, sent_packets = 1\<rparr>, \<lparr>sender_name = 7, sent_packets = 4\<rparr>]\<rparr> = Some (top, l') \<and>
     mset (senders l') = {#\<lparr>sender_name = 6, sent_packets = 1\<rparr>, \<lparr>sender_name = 7, sent_packets = 4\<rparr>#}"
proof -
  let ?l = "\<lparr>track_event = EventPushed, senders = [\<lparr>sender_name = 6, sent_packets = 1\<rparr>, \<lparr>sender_name = 7, sent_packets = 4\<rparr>]\<rparr>"
  have "packed (senders ?l)" "senders ?l \<noteq> []" by (simp_all add: nullptr_def)
  from top_sender_reported [OF this, of "\<lambda>_. []"] obtain top l' where
    "GetTopSender ?l = Some (top, l')" "mset (senders l') = mset (senders ?l)" by blast
  then show ?thesis by auto
qed

end
