(* ===== verification/Log_Aggregate.thy ===== *)
theory Log_Aggregate
  imports Byte_Order Pipert_Timer Complex_Main
begin

text \<open>
  Model of \<^verbatim>\<open>src/LogAggregate.h\<close> and \<^verbatim>\<open>src/LogAggregate.cpp\<close>: count, minimum,
  maximum and sum of the values logged since the last clear, and their serialized form.

  A \<^verbatim>\<open>double\<close> is a real number; comparisons are exact, and \<open>rnd\<close> is the rounding of the
  results of addition and division. The count is an \<^verbatim>\<open>int\<close> of 32 bits. \<open>bits\<close> gives the bit pattern of a \<^verbatim>\<open>double\<close>. Infinities
  and NaN do not occur. Mutexes are modelled by each operation being one step.
\<close>

record log_aggregate =
  log_count :: int
  aggregation_started :: time
  agg_min :: real
  agg_max :: real
  agg_sum :: real

text \<open>\<^verbatim>\<open>std::numeric_limits<double>::max()\<close> and \<^verbatim>\<open>::min()\<close>, the least positive normal number.\<close>

definition DBL_MAX :: real where
  "DBL_MAX = (2 ^ 53 - 1) * 2 ^ 971"

definition DBL_MIN :: real where
  "DBL_MIN = 1 / 2 ^ 1022"

definition aggregate_clear :: "time \<Rightarrow> log_aggregate \<Rightarrow> log_aggregate" where
  "aggregate_clear t a =
     a\<lparr>log_count := 0, aggregation_started := t, agg_min := DBL_MAX, agg_max := DBL_MIN, agg_sum := 0\<rparr>"

definition aggregate_new :: "time \<Rightarrow> log_aggregate" where
  "aggregate_new t = aggregate_clear t
     \<lparr>log_count = 0, aggregation_started = 0, agg_min = 0, agg_max = 0, agg_sum = 0\<rparr>"

definition aggregate_log :: "(real \<Rightarrow> real) \<Rightarrow> real \<Rightarrow> log_aggregate \<Rightarrow> log_aggregate" where
  "aggregate_log rnd v a =
     (let a1 = a\<lparr>log_count := wrap_int (log_count a + 1), agg_sum := rnd (agg_sum a + v)\<rparr>;
          a2 = (if v < agg_min a1 then a1\<lparr>agg_min := v\<rparr> else a1)
      in if v > agg_max a2 then a2\<lparr>agg_max := v\<rparr> else a2)"

definition GetLogCount :: "log_aggregate \<Rightarrow> int" where
  "GetLogCount a = log_count a"

definition GetTimePassedInMicroSecs :: "time \<Rightarrow> log_aggregate \<Rightarrow> int option" where
  "GetTimePassedInMicroSecs t a = do {
     assert_that (t - aggregation_started a < 2 ^ 31 - 1);
     Some (t - aggregation_started a)
   }"

definition GetMin :: "log_aggregate \<Rightarrow> real" where
  "GetMin a = agg_min a"

definition GetMax :: "log_aggregate \<Rightarrow> real" where
  "GetMax a = agg_max a"

definition GetAvg :: "(real \<Rightarrow> real) \<Rightarrow> log_aggregate \<Rightarrow> real" where
  "GetAvg rnd a = (if log_count a \<noteq> 0 then rnd (agg_sum a / of_int (log_count a)) else 0)"

text \<open>What the function writes at the start of the buffer.\<close>

definition aggregate_serialize ::
  "bool \<Rightarrow> (real \<Rightarrow> 64 word) \<Rightarrow> (real \<Rightarrow> real) \<Rightarrow> time \<Rightarrow> log_aggregate \<Rightarrow> byte list option" where
  "aggregate_serialize big bits rnd t a = do {
     passed \<leftarrow> GetTimePassedInMicroSecs t a;
     Some (store big (ConvertHostToNetworkByteOrder big (word_of_int (GetLogCount a) :: 32 word)) @
           store big (ConvertHostToNetworkByteOrder big (word_of_int passed :: 32 word)) @
           store big (h2n_double big (bits (GetMin a))) @
           store big (h2n_double big (bits (GetMax a))) @
           store big (h2n_double big (bits (GetAvg rnd a))))
   }"

definition aggregate_serialize_n_clear ::
  "bool \<Rightarrow> (real \<Rightarrow> 64 word) \<Rightarrow> (real \<Rightarrow> real) \<Rightarrow> time \<Rightarrow> time \<Rightarrow> log_aggregate \<Rightarrow>
     (byte list \<times> log_aggregate) option" where
  "aggregate_serialize_n_clear big bits rnd t t' a = do {
     out \<leftarrow> aggregate_serialize big bits rnd t a;
     Some (out, aggregate_clear t' a)
   }"

subsection \<open>What is aggregated\<close>

abbreviation aggregate_log_all :: "(real \<Rightarrow> real) \<Rightarrow> real list \<Rightarrow> log_aggregate \<Rightarrow> log_aggregate" where
  "aggregate_log_all rnd vs \<equiv> fold (aggregate_log rnd) vs"

lemma aggregate_log_fields [simp]:
  "log_count (aggregate_log rnd v a) = wrap_int (log_count a + 1)"
  "agg_sum (aggregate_log rnd v a) = rnd (agg_sum a + v)"
  "agg_min (aggregate_log rnd v a) = min (agg_min a) v"
  "agg_max (aggregate_log rnd v a) = max (agg_max a) v"
  "aggregation_started (aggregate_log rnd v a) = aggregation_started a"
  by (auto simp: aggregate_log_def Let_def)

lemma aggregate_log_all_count:
  "vs \<noteq> [] \<Longrightarrow> log_count (aggregate_log_all rnd vs a) = wrap_int (log_count a + int (length vs))"
proof (induction vs arbitrary: a)
  case (Cons v vs)
  show ?case
  proof (cases "vs = []")
    case False
    with Cons.IH [of "aggregate_log rnd v a"] show ?thesis by (simp add: wrap_int_add add.assoc)
  qed simp
qed simp

lemma aggregate_log_all_fields:
  "agg_sum (aggregate_log_all rnd vs a) = fold (\<lambda>v s. rnd (s + v)) vs (agg_sum a)"
  "agg_min (aggregate_log_all rnd vs a) = Min (insert (agg_min a) (set vs))"
  "agg_max (aggregate_log_all rnd vs a) = Max (insert (agg_max a) (set vs))"
  "aggregation_started (aggregate_log_all rnd vs a) = aggregation_started a"
proof (induction vs arbitrary: a)
  case (Cons v vs)
  {
    case 1
    show ?case by (simp add: Cons.IH)
  next
    case 2
    have "Min (insert (min (agg_min a) v) (set vs)) = Min (insert (agg_min a) (insert v (set vs)))"
      by (cases "set vs = {}") (simp_all add: min.assoc)
    then show ?case by (simp add: Cons.IH)
  next
    case 3
    have "Max (insert (max (agg_max a) v) (set vs)) = Max (insert (agg_max a) (insert v (set vs)))"
      by (cases "set vs = {}") (simp_all add: max.assoc)
    then show ?case by (simp add: Cons.IH)
  next
    case 4
    show ?case by (simp add: Cons.IH)
  }
qed simp_all

lemma aggregate_clear_fields [simp]:
  "log_count (aggregate_clear t a) = 0" "agg_sum (aggregate_clear t a) = 0"
  "agg_min (aggregate_clear t a) = DBL_MAX" "agg_max (aggregate_clear t a) = DBL_MIN"
  "aggregation_started (aggregate_clear t a) = t"
  by (simp_all add: aggregate_clear_def)

text \<open>
  Rounding. If every rounding has a relative error of at most \<open>u\<close>, the error of a sum grows with the number of the
  values; the average is rounded once more.
\<close>

lemma rounded_sum_error:
  fixes rnd :: "real \<Rightarrow> real"
  assumes "\<And>x. \<bar>rnd x - x\<bar> \<le> u * \<bar>x\<bar>" and "0 \<le> u"
  shows "\<bar>fold (\<lambda>v s. rnd (s + v)) vs s - (s + sum_list vs)\<bar> \<le> ((1 + u) ^ length vs - 1) * (\<bar>s\<bar> + sum_list (map abs vs))"
proof (induction vs arbitrary: s)
  case (Cons v vs)
  let ?F = "\<lambda>s. fold (\<lambda>v s. rnd (s + v)) vs s" and ?k = "(1 + u) ^ length vs" and ?T = "sum_list (map abs vs)"
  let ?s = "rnd (s + v)" and ?A = "\<bar>s\<bar> + \<bar>v\<bar>"
  have k: "1 \<le> ?k" using assms(2) by (simp add: one_le_power)
  have T: "0 \<le> ?T" by (rule sum_list_nonneg) auto
  have err: "\<bar>?s - (s + v)\<bar> \<le> u * ?A"
    using assms(1) [of "s + v"] mult_left_mono [OF abs_triangle_ineq [of s v] assms(2)] by linarith
  have "\<bar>?s\<bar> \<le> ?A + u * ?A" using err abs_triangle_ineq [of s v] by linarith
  then have "(?k - 1) * (\<bar>?s\<bar> + ?T) \<le> (?k - 1) * ((?A + u * ?A) + ?T)" using k by (intro mult_left_mono) auto
  moreover have "\<bar>?F ?s - (?s + sum_list vs)\<bar> \<le> (?k - 1) * (\<bar>?s\<bar> + ?T)" by (rule Cons.IH)
  ultimately have "\<bar>?F ?s - (s + v + sum_list vs)\<bar> \<le> (?k - 1) * ((?A + u * ?A) + ?T) + u * ?A" using err by linarith
  also have "\<dots> = ((1 + u) * ?k - 1) * ?A + (?k - 1) * ?T" by (simp add: algebra_simps)
  also have "\<dots> \<le> ((1 + u) * ?k - 1) * (?A + ?T)"
  proof -
    have "?k \<le> (1 + u) * ?k" using k assms(2) by (simp add: mult_le_cancel_right1)
    then have "(?k - 1) * ?T \<le> ((1 + u) * ?k - 1) * ?T" using T by (intro mult_right_mono) auto
    then show ?thesis by (simp only: distrib_left)
  qed
  finally show ?case by (simp add: algebra_simps)
qed simp

lemma rounded_average_error:
  assumes "\<And>x. \<bar>rnd x - x\<bar> \<le> u * \<bar>x\<bar>" and "0 \<le> u" and "vs \<noteq> []"
  shows "\<bar>rnd (fold (\<lambda>v s. rnd (s + v)) vs 0 / real (length vs)) - sum_list vs / real (length vs)\<bar> \<le>
    ((1 + u) ^ Suc (length vs) - 1) * (sum_list (map abs vs) / real (length vs))"
proof -
  let ?n = "real (length vs)" and ?F = "fold (\<lambda>v s. rnd (s + v)) vs 0" and ?T = "sum_list (map abs vs)"
  let ?k = "(1 + u) ^ length vs"
  have n: "0 < ?n" using assms(3) by simp
  have T: "\<bar>sum_list vs\<bar> \<le> ?T" by (rule sum_list_abs)
  have F: "\<bar>?F - sum_list vs\<bar> \<le> (?k - 1) * ?T" using rounded_sum_error [OF assms(1,2), of vs 0] by simp
  then have "\<bar>?F\<bar> \<le> ?k * ?T" using T by (simp add: algebra_simps)
  then have "u * \<bar>?F\<bar> \<le> u * (?k * ?T)" using assms(2) by (rule mult_left_mono)
  then have sum: "u * \<bar>?F\<bar> + \<bar>?F - sum_list vs\<bar> \<le> ((1 + u) * ?k - 1) * ?T" using F by (simp add: algebra_simps)
  have "\<bar>rnd (?F / ?n) - sum_list vs / ?n\<bar> \<le> u * \<bar>?F / ?n\<bar> + \<bar>?F / ?n - sum_list vs / ?n\<bar>"
    using assms(1) [of "?F / ?n"] by linarith
  also have "\<dots> = (u * \<bar>?F\<bar> + \<bar>?F - sum_list vs\<bar>) / ?n"
    by (simp add: add_divide_distrib abs_divide diff_divide_distrib [symmetric])
  also have "\<dots> \<le> (((1 + u) * ?k - 1) * ?T) / ?n" using sum n by (intro divide_right_mono) auto
  finally show ?thesis by simp
qed

text \<open>The minimum is right for every sequence of values, the maximum once a value reaches \<open>DBL_MIN\<close>.\<close>

lemma aggregated_min:
  assumes "vs \<noteq> []" and "\<forall>v\<in>set vs. v \<le> DBL_MAX"
  shows "GetMin (aggregate_log_all rnd vs (aggregate_clear t a)) = Min (set vs)"
proof -
  have "Min (set vs) \<le> DBL_MAX" using assms by (meson List.finite_set Min_in set_empty)
  then show ?thesis using assms(1) by (simp add: GetMin_def aggregate_log_all_fields)
qed

lemma aggregated_max:
  assumes "v \<in> set vs" and "DBL_MIN \<le> v"
  shows "GetMax (aggregate_log_all rnd vs (aggregate_clear t a)) = Max (set vs)"
proof -
  have "DBL_MIN \<le> Max (set vs)" using assms by (meson List.finite_set Max_ge order_trans)
  moreover have "set vs \<noteq> {}" using assms(1) by auto
  ultimately show ?thesis by (simp add: GetMax_def aggregate_log_all_fields)
qed

lemma aggregated_max_wrong:
  assumes "\<forall>v\<in>set vs. v < DBL_MIN"
  shows "GetMax (aggregate_log_all rnd vs (aggregate_clear t a)) = DBL_MIN"
proof (cases "vs = []")
  case False
  then have "Max (set vs) \<in> set vs" by simp
  with assms have "Max (set vs) < DBL_MIN" by blast
  then show ?thesis using False by (simp add: GetMax_def aggregate_log_all_fields)
qed (simp add: GetMax_def)

lemma DBL_MIN_pos: "0 < DBL_MIN"
  by (simp add: DBL_MIN_def)

subsection \<open>The serialized form\<close>

lemma length_store_32 [simp]: "length (store big (v :: 32 word)) = 4"
  by (simp add: size_of_def)

lemma length_store_64 [simp]: "length (store big (v :: 64 word)) = 8"
  by (simp add: size_of_def)

lemma aggregate_serialize_length: "aggregate_serialize big bits rnd t a = Some out \<Longrightarrow> length out = 32"
  by (auto simp: aggregate_serialize_def bind_eq_Some_conv simp del: length_store)

text \<open>A reader on any machine gets back the count and the time.\<close>

definition read_32 :: "bool \<Rightarrow> byte list \<Rightarrow> nat \<Rightarrow> 32 word" where
  "read_32 big buf i = ConvertNetworkToHostByteOrder big (load big (take 4 (drop i buf)))"

lemma read_store_32:
  "i = length pre \<Longrightarrow>
     read_32 big' (pre @ store big (ConvertHostToNetworkByteOrder big v) @ post) i = v"
proof -
  assume i: "i = length pre"
  let ?bs = "rev (store_le v)"
  have bytes: "store big (ConvertHostToNetworkByteOrder big v) = ?bs" by (rule store_h2n) simp
  have "length ?bs = 4" by (simp add: size_of_def)
  then have "take 4 (drop i (pre @ store big (ConvertHostToNetworkByteOrder big v) @ post)) = ?bs"
    unfolding bytes i by simp
  then have "read_32 big' (pre @ store big (ConvertHostToNetworkByteOrder big v) @ post) i = load_le (rev ?bs)"
    using store_load [of ?bs big', where 'a = 32] by (simp add: read_32_def n2h_store size_of_def)
  then show ?thesis by (simp add: load_store_le)
qed

lemma aggregate_serialize_read:
  assumes "aggregate_serialize big bits rnd t a = Some out"
  shows "read_32 big' out 0 = word_of_int (GetLogCount a)"
    and "read_32 big' out 4 = word_of_int (t - aggregation_started a)"
proof -
  from assms obtain out' where out: "out = store big (ConvertHostToNetworkByteOrder big (word_of_int (GetLogCount a) :: 32 word)) @
     store big (ConvertHostToNetworkByteOrder big (word_of_int (t - aggregation_started a) :: 32 word)) @ out'"
    by (auto simp: aggregate_serialize_def GetTimePassedInMicroSecs_def bind_eq_Some_conv)
  show "read_32 big' out 0 = word_of_int (GetLogCount a)"
    using read_store_32 [of 0 "[]"] by (simp add: out del: length_store)
  show "read_32 big' out 4 = word_of_int (t - aggregation_started a)"
    unfolding out by (rule read_store_32) (simp add: size_of_def)
qed

subsection \<open>Properties\<close>

text \<open>
  C18: After a clear and any non-empty sequence of fewer than 2^31 logged values the count is their number and the
  minimum is theirs; the maximum is theirs as soon as one of them reaches the least positive normal number; and the average is their
  mean up to the rounding: when every operation rounds with a relative error of at most u, the average is off by no more
  than (1 + u)^(n+1) - 1 times the mean of the absolute values, so that it is exact without rounding.
\<close>

theorem aggregate_statistics:
  fixes vs :: "real list" and a :: log_aggregate and t :: time and rnd :: "real \<Rightarrow> real"
  defines "a' \<equiv> fold (aggregate_log rnd) vs (aggregate_clear t a)"
  assumes "vs \<noteq> []" and "int (length vs) < 2 ^ 31" and "\<forall>v\<in>set vs. v \<le> DBL_MAX" and "\<exists>v\<in>set vs. DBL_MIN \<le> v"
    and "\<And>x. \<bar>rnd x - x\<bar> \<le> u * \<bar>x\<bar>" and "0 \<le> u"
  shows "GetLogCount a' = int (length vs) \<and> GetMin a' = Min (set vs) \<and> GetMax a' = Max (set vs) \<and>
    \<bar>GetAvg rnd a' - sum_list vs / real (length vs)\<bar> \<le>
      ((1 + u) ^ (length vs + 1) - 1) * (sum_list (map abs vs) / real (length vs))"
proof -
  have count: "log_count a' = int (length vs)"
    using assms(3) by (simp add: a'_def aggregate_log_all_count [OF assms(2)])
  have sum: "agg_sum a' = fold (\<lambda>v s. rnd (s + v)) vs 0" by (simp add: a'_def aggregate_log_all_fields)
  have avg: "GetAvg rnd a' = rnd (fold (\<lambda>v s. rnd (s + v)) vs 0 / real (length vs))"
    using assms(2) by (simp add: GetAvg_def count sum)
  obtain v where "v \<in> set vs" "DBL_MIN \<le> v" using assms(5) by blast
  with assms(2,4) count rounded_average_error [OF assms(6,7,2)] avg show ?thesis
    by (simp add: a'_def aggregated_min aggregated_max [of v] GetLogCount_def)
qed

theorem aggregate_statistics_witness:
  "GetMax (fold (aggregate_log id) [3, 1] (aggregate_clear 0 (aggregate_new 0))) = 3 \<and>
    GetAvg id (fold (aggregate_log id) [3, 1] (aggregate_clear 0 (aggregate_new 0))) = 2"
proof -
  have "(1::real) \<le> DBL_MAX" "(3::real) \<le> DBL_MAX" "DBL_MIN \<le> 1" by (simp_all add: DBL_MAX_def DBL_MIN_def)
  with aggregate_statistics [where vs = "[3, 1]" and rnd = id and t = 0 and a = "aggregate_new 0" and u = 0] show ?thesis by simp
qed

text \<open>
  C19: When every logged value is zero or negative the reported maximum is 2^(-1022), the least positive normal
  number, with which the constructor and every clear start the maximum; it is none of the values and greater than all of them.
\<close>

theorem aggregate_max_of_negatives:
  assumes "vs \<noteq> []" and "\<forall>v\<in>set vs. v \<le> 0"
  shows "GetMax (fold (aggregate_log rnd) vs (aggregate_clear t a)) = 1 / 2 ^ 1022 \<and>
    GetMax (fold (aggregate_log rnd) vs (aggregate_clear t a)) \<notin> set vs \<and>
    Max (set vs) < GetMax (fold (aggregate_log rnd) vs (aggregate_clear t a))"
proof -
  have lt: "\<forall>v\<in>set vs. v < DBL_MIN" using assms(2) DBL_MIN_pos by fastforce
  then have "Max (set vs) < DBL_MIN" using assms(1) by simp
  moreover have "DBL_MIN \<notin> set vs" using lt by blast
  ultimately show ?thesis unfolding aggregated_max_wrong [OF lt] by (simp add: DBL_MIN_def)
qed

theorem aggregate_max_of_negatives_witness:
  "GetMax (fold (aggregate_log id) [-2, -1] (aggregate_clear 0 (aggregate_new 0))) = 1 / 2 ^ 1022"
  using aggregate_max_of_negatives [of "[-2, -1]" id 0 "aggregate_new 0"] by simp

text \<open>
  A serialized aggregate takes 32 bytes on every machine, and a reader of any byte order
  finds the log count in the first four of them and the time in microseconds in the next four.
\<close>

theorem aggregate_serialize_layout:
  assumes "aggregate_serialize big bits rnd t a = Some out"
  shows "length out = 32 \<and> read_32 big' out 0 = word_of_int (GetLogCount a) \<and>
    read_32 big' out 4 = word_of_int (t - aggregation_started a)"
  using aggregate_serialize_length [OF assms] aggregate_serialize_read [OF assms] by simp

theorem aggregate_serialize_layout_witness:
  "read_32 True (the (aggregate_serialize False (\<lambda>_. 0) id 8 (aggregate_clear 3 (aggregate_new 0)))) 4 = 5"
proof -
  obtain out where "aggregate_serialize False (\<lambda>_. 0) id 8 (aggregate_clear 3 (aggregate_new 0)) = Some out"
    by (simp add: aggregate_serialize_def GetTimePassedInMicroSecs_def)
  from aggregate_serialize_layout [OF this, of True] this show ?thesis by simp
qed

end
