(* ===== verification/Profile_Data.thy ===== *)
theory Profile_Data
  imports Sender_Logger Log_Aggregate
begin

text \<open>
  Model of \<^verbatim>\<open>src/ProfileData.h\<close> and \<^verbatim>\<open>src/ProfileData.cpp\<close>: the aggregates of one
  channel, one per event type, and their incremental serialization into buffers of limited size.

  The hash map is an association list in the order of its iteration; \<open>place\<close> says where a new
  element goes, and the iterator is an index, the length of the list being \<^verbatim>\<open>end()\<close>. The clock
  is an argument that is read at increasing indexes. The bytes written to the buffer so far are a list, so that its
  length is the distance of \<^verbatim>\<open>buf\<close> from \<^verbatim>\<open>buffer\<close>.
\<close>

subsection \<open>State\<close>

record profile_data =
  data_group_name :: cptr
  aggregates :: "(event_id \<times> log_aggregate) list"
  sender_log :: sender_logger
  serialize_next :: nat

definition kMaxNameLength :: nat where
  "kMaxNameLength = 27"

definition SerializeString :: "string \<Rightarrow> byte list" where
  "SerializeString s = put_string kMaxNameLength s"

text \<open>\<^verbatim>\<open>aggregates_[id]\<close>: the element is constructed if the key is new.\<close>

definition touch ::
  "(event_id \<Rightarrow> event_id list \<Rightarrow> nat) \<Rightarrow> time \<Rightarrow> event_id \<Rightarrow> (event_id \<times> log_aggregate) list \<Rightarrow> (event_id \<times> log_aggregate) list" where
  "touch place t e as =
     (if e \<in> fst ` set as then as
      else take (place e (map fst as)) as @ (e, aggregate_new t) # drop (place e (map fst as)) as)"

fun touch_events ::
  "(event_id \<Rightarrow> event_id list \<Rightarrow> nat) \<Rightarrow> (nat \<Rightarrow> time) \<Rightarrow> registrar \<Rightarrow> nat list \<Rightarrow> (event_id \<times> log_aggregate) list \<Rightarrow>
     (event_id \<times> log_aggregate) list option" where
  "touch_events place clk reg [] as = Some as"
| "touch_events place clk reg (i # is) as = do {
     e \<leftarrow> GetLogEventTypeID reg i;
     touch_events place clk reg is (touch place (clk i) e as)
   }"

definition profile_data_new ::
  "(event_id \<Rightarrow> event_id list \<Rightarrow> nat) \<Rightarrow> (nat \<Rightarrow> time) \<Rightarrow> registrar \<Rightarrow> cptr \<Rightarrow> profile_data option" where
  "profile_data_new place clk reg name = do {
     as \<leftarrow> touch_events place clk reg [0..<GetRegisterLength reg] [];
     Some \<lparr>data_group_name = name, aggregates = as, sender_log = sender_logger_new EventPushed,
           serialize_next = length as\<rparr>
   }"

definition GetGroupName :: "profile_data \<Rightarrow> cptr" where
  "GetGroupName d = data_group_name d"

definition log_to :: "(real \<Rightarrow> real) \<Rightarrow> log_event \<Rightarrow> (event_id \<times> log_aggregate) list \<Rightarrow> (event_id \<times> log_aggregate) list" where
  "log_to rnd ev as = map (\<lambda>(e, a). (e, if e = event_name ev then aggregate_log rnd (event_value ev) a else a)) as"

text \<open>\<open>i\<close> is the thread that logs; \<open>dbg\<close> says whether assertions are compiled in.\<close>

definition ProfileData_Log ::
  "bool \<Rightarrow> (real \<Rightarrow> real) \<Rightarrow> nat \<Rightarrow> log_event \<Rightarrow> thread_ids \<Rightarrow> profile_data \<Rightarrow> (thread_ids \<times> profile_data) option" where
  "ProfileData_Log dbg rnd i ev ids d = do {
     d' \<leftarrow> (if event_name ev \<in> fst ` set (aggregates d)
            then Some (d\<lparr>aggregates := log_to rnd ev (aggregates d)\<rparr>)
            else do { check dbg False; Some d });
     (ids', s) \<leftarrow> TrackSender i (event_name ev) ids (sender_log d');
     Some (ids', d'\<lparr>sender_log := s\<rparr>)
   }"

subsection \<open>Serialization\<close>

text \<open>
  The environment of a serialization: whether assertions are on, the byte order of the host, the
  bit pattern of a \<^verbatim>\<open>double\<close>, the rounding of arithmetic, the text behind a pointer, the clock and
  the size of the buffer.
\<close>

record serial_env =
  debug :: bool
  big_endian :: bool
  double_bits :: "real \<Rightarrow> 64 word"
  rounding :: "real \<Rightarrow> real"
  text_at :: "cptr \<Rightarrow> string"
  clock :: "nat \<Rightarrow> time"
  buffer_cap :: nat

fun serialize_entries ::
  "serial_env \<Rightarrow> nat \<Rightarrow> byte list \<Rightarrow> (event_id \<times> log_aggregate) list \<Rightarrow>
     (byte list \<times> (event_id \<times> log_aggregate) list \<times> nat) option" where
  "serialize_entries E k buf [] = Some (buf, [], 0)"
| "serialize_entries E k buf ((e, a) # as) =
     (if int (length buf) \<le> int (buffer_cap E) - 64
      then do {
        let buf1 = buf @ bytes_of ''LOGA'' @ SerializeString (event_text e);
        check (debug E) (length buf1 \<le> buffer_cap E);
        (out, a') \<leftarrow> aggregate_serialize_n_clear (big_endian E) (double_bits E) (rounding E) (clock E k) (clock E (k + 1)) a;
        let buf2 = buf1 @ out;
        check (debug E) (length buf2 \<le> buffer_cap E);
        let buf3 = (if load (big_endian E) (take 4 out) = (0 :: 32 word) then buf else buf2);
        (buf', as', n) \<leftarrow> serialize_entries E (k + 2) buf3 as;
        Some (buf', (e, a') # as', n + 1)
      }
      else Some (buf, (e, a) # as, 0))"

definition group_header :: "serial_env \<Rightarrow> profile_data \<Rightarrow> byte list" where
  "group_header E d = bytes_of ''DGRP'' @ SerializeString (text_at E (data_group_name d))"

definition GatherNSerialize :: "serial_env \<Rightarrow> nat \<Rightarrow> profile_data \<Rightarrow> (byte list \<times> bool \<times> nat \<times> profile_data) option" where
  "GatherNSerialize E k d = do {
     check (debug E) (int (buffer_cap E) - 64 \<ge> 64);
     let buf0 = group_header E d;
     check (debug E) (length buf0 \<le> buffer_cap E);
     (buf1, d1) \<leftarrow> (if serialize_next d = length (aggregates d)
       then do {
         (out, s) \<leftarrow> sender_serialize_n_clear (text_at E) (sender_log d);
         Some (buf0 @ out, d\<lparr>sender_log := s, serialize_next := 0\<rparr>)
       }
       else Some (buf0, d));
     check (debug E) (length buf1 \<le> buffer_cap E);
     (buf2, as, n) \<leftarrow> serialize_entries E k buf1 (drop (serialize_next d1) (aggregates d1));
     let d2 = d1\<lparr>aggregates := take (serialize_next d1) (aggregates d1) @ as, serialize_next := serialize_next d1 + n\<rparr>;
     Some (buf2, serialize_next d2 \<noteq> length (aggregates d2), k + 2 * n, d2)
   }"

subsection \<open>One pass over the aggregates\<close>

text \<open>
  Specification: an aggregate whose serialized count is zero is left out, every other one is reported with its
  name, and all of them are cleared; the aggregate at position \<open>p\<close> reads the clock at
  \<open>k + 2 p\<close> and \<open>k + 2 p + 1\<close>.
\<close>

definition silent :: "log_aggregate \<Rightarrow> bool" where
  "silent a \<longleftrightarrow> (word_of_int (log_count a) :: 32 word) = 0"

definition loga :: "serial_env \<Rightarrow> nat \<Rightarrow> event_id \<Rightarrow> log_aggregate \<Rightarrow> byte list" where
  "loga E k e a = bytes_of ''LOGA'' @ SerializeString (event_text e) @
     the (aggregate_serialize (big_endian E) (double_bits E) (rounding E) (clock E k) a)"

fun report :: "serial_env \<Rightarrow> nat \<Rightarrow> (event_id \<times> log_aggregate) list \<Rightarrow> byte list" where
  "report E k [] = []"
| "report E k ((e, a) # as) = (if silent a then [] else loga E k e a) @ report E (k + 2) as"

fun cleared :: "serial_env \<Rightarrow> nat \<Rightarrow> (event_id \<times> log_aggregate) list \<Rightarrow> (event_id \<times> log_aggregate) list" where
  "cleared E k [] = []"
| "cleared E k ((e, a) # as) = (e, aggregate_clear (clock E (k + 1)) a) # cleared E (k + 2) as"

text \<open>No aggregate has been collecting for 2^31 - 1 microseconds when it is serialized.\<close>

fun timely :: "serial_env \<Rightarrow> nat \<Rightarrow> (event_id \<times> log_aggregate) list \<Rightarrow> bool" where
  "timely E k [] = True"
| "timely E k ((e, a) # as) = (clock E k - aggregation_started a < 2 ^ 31 - 1 \<and> timely E (k + 2) as)"

lemma length_SerializeString: "length (SerializeString s) \<le> 28" "1 \<le> length (SerializeString s)"
  by (simp_all add: SerializeString_def length_put_string kMaxNameLength_def)

lemma length_cleared [simp]: "length (cleared E k as) = length as"
  by (induction E k as rule: cleared.induct) simp_all

lemma report_append: "report E k (as @ bs) = report E k as @ report E (k + 2 * length as) bs"
  by (induction E k as rule: report.induct) (simp_all add: algebra_simps)

lemma cleared_append: "cleared E k (as @ bs) = cleared E k as @ cleared E (k + 2 * length as) bs"
  by (induction E k as rule: cleared.induct) (simp_all add: algebra_simps)

lemma timely_append: "timely E k (as @ bs) \<longleftrightarrow> timely E k as \<and> timely E (k + 2 * length as) bs"
  by (induction E k as rule: timely.induct) (simp_all add: algebra_simps)

lemma cleared_silent: "\<forall>(e, a)\<in>set (cleared E k as). log_count a = 0"
  by (induction E k as rule: cleared.induct) simp_all

lemma cleared_keys [simp]: "map fst (cleared E k as) = map fst as"
  by (induction E k as rule: cleared.induct) simp_all

text \<open>The code looks at the four bytes it has written to see whether the aggregate is empty.\<close>

lemma h2n_zero_iff: "ConvertHostToNetworkByteOrder big w = 0 \<longleftrightarrow> w = (0 :: 32 word)"
proof
  have z: "n2h_loop bs 0 = (0 :: 32 word)" if "set bs \<subseteq> {0}" for bs :: "byte list"
    using that by (induction bs) simp_all
  have "set (store big (0 :: 32 word)) \<subseteq> {0}" by (auto simp: store_def store_le_def)
  from z [OF this] have n: "ConvertNetworkToHostByteOrder big (0 :: 32 word) = 0"
    by (simp add: ConvertNetworkToHostByteOrder_def)
  assume "ConvertHostToNetworkByteOrder big w = 0"
  with n2h_h2n [of big w] n show "w = 0" by simp
next
  have "set (h2n_bytes n (0 :: 32 word)) \<subseteq> {0}" for n by (induction n) simp_all
  moreover have "load_le bs = (0 :: 32 word)" if "set bs \<subseteq> {0}" for bs :: "byte list"
    using that by (induction bs) simp_all
  ultimately have "load big (h2n_bytes n (0 :: 32 word)) = (0 :: 32 word)" for n by (simp add: load_def)
  moreover assume "w = 0"
  ultimately show "ConvertHostToNetworkByteOrder big w = 0" by (simp add: ConvertHostToNetworkByteOrder_def)
qed

lemma entry_serialized:
  assumes "t - aggregation_started a < 2 ^ 31 - 1"
  shows "\<exists>out. aggregate_serialize big bits rnd t a = Some out \<and> length out = 32 \<and>
    (load big (take 4 out) = (0 :: 32 word) \<longleftrightarrow> silent a)"
proof -
  obtain rest where out: "aggregate_serialize big bits rnd t a =
      Some (store big (ConvertHostToNetworkByteOrder big (word_of_int (log_count a) :: 32 word)) @ rest)"
    using assms by (simp add: aggregate_serialize_def GetTimePassedInMicroSecs_def GetLogCount_def del: length_store)
  have "load big (take 4 (store big (ConvertHostToNetworkByteOrder big (word_of_int (log_count a) :: 32 word)) @ rest)) =
      ConvertHostToNetworkByteOrder big (word_of_int (log_count a) :: 32 word)"
    by (simp add: load_store del: length_store)
  with out aggregate_serialize_length [OF out] show ?thesis by (simp add: h2n_zero_iff silent_def del: length_store)
qed

lemma length_loga:
  assumes "t = clock E k" and "t - aggregation_started a < 2 ^ 31 - 1"
  shows "length (loga E k e a) \<le> 64" "37 \<le> length (loga E k e a)"
proof -
  obtain out where "aggregate_serialize (big_endian E) (double_bits E) (rounding E) (clock E k) a = Some out" "length out = 32"
    using entry_serialized [OF assms(2)] assms(1) by blast
  then show "length (loga E k e a) \<le> 64" "37 \<le> length (loga E k e a)"
    using length_SerializeString [of "event_text e"] by (simp_all add: loga_def)
qed

lemma serialize_entries_ok:
  assumes "timely E k as" and "length buf \<le> buffer_cap E"
  shows "\<exists>buf' as' n. serialize_entries E k buf as = Some (buf', as', n) \<and> n \<le> length as \<and>
    buf' = buf @ report E k (take n as) \<and> as' = cleared E k (take n as) @ drop n as \<and> length buf' \<le> buffer_cap E \<and>
    (n < length as \<longrightarrow> int (buffer_cap E) - 64 < int (length buf')) \<and>
    (as \<noteq> [] \<and> int (length buf) \<le> int (buffer_cap E) - 64 \<longrightarrow> 0 < n)"
  using assms
proof (induction E k buf as rule: serialize_entries.induct)
  case (1 E k buf)
  then show ?case by simp
next
  case (2 E k buf e a as)
  show ?case
  proof (cases "int (length buf) \<le> int (buffer_cap E) - 64")
    case False
    with 2 show ?thesis by simp
  next
    case True
    have t: "clock E k - aggregation_started a < 2 ^ 31 - 1" "timely E (k + 2) as" using "2.prems"(1) by simp_all
    from entry_serialized [OF t(1), of "big_endian E" "double_bits E" "rounding E"] obtain out where
      out: "aggregate_serialize (big_endian E) (double_bits E) (rounding E) (clock E k) a = Some out" "length out = 32"
        "load (big_endian E) (take 4 out) = (0 :: 32 word) \<longleftrightarrow> silent a" by blast
    let ?b1 = "buf @ bytes_of ''LOGA'' @ SerializeString (event_text e)"
    let ?b3 = "if silent a then buf else ?b1 @ out"
    have len: "length ?b1 \<le> buffer_cap E" "length (?b1 @ out) \<le> buffer_cap E"
      using True out(2) length_SerializeString(1) [of "event_text e"] by simp_all
    then have len3: "length ?b3 \<le> buffer_cap E" using "2.prems"(2) by simp
    have b3: "?b3 = buf @ (if silent a then [] else loga E k e a)" by (simp add: loga_def out(1))
    have ser: "aggregate_serialize_n_clear (big_endian E) (double_bits E) (rounding E) (clock E k) (clock E (k + 1)) a =
        Some (out, aggregate_clear (clock E (k + 1)) a)"
      by (simp add: aggregate_serialize_n_clear_def out(1))
    have "\<exists>buf' as' n. serialize_entries E (k + 2) ?b3 as = Some (buf', as', n) \<and> n \<le> length as \<and>
      buf' = ?b3 @ report E (k + 2) (take n as) \<and> as' = cleared E (k + 2) (take n as) @ drop n as \<and> length buf' \<le> buffer_cap E \<and>
      (n < length as \<longrightarrow> int (buffer_cap E) - 64 < int (length buf'))"
      using "2.IH" [OF True refl _ ser refl refl] len len3 t(2) out(3) by (fastforce simp: check_def)
    then obtain buf' as' n where r: "serialize_entries E (k + 2) ?b3 as = Some (buf', as', n)" "n \<le> length as"
      "buf' = ?b3 @ report E (k + 2) (take n as)" "as' = cleared E (k + 2) (take n as) @ drop n as" "length buf' \<le> buffer_cap E"
      "n < length as \<longrightarrow> int (buffer_cap E) - 64 < int (length buf')" by blast
    have "serialize_entries E k buf ((e, a) # as) =
        Some (buf', (e, aggregate_clear (clock E (k + 1)) a) # as', n + 1)"
      using True ser len out(3) r(1) by (simp add: check_def Let_def)
    then show ?thesis using r b3 by (intro exI [of _ buf'] exI [of _ "(e, aggregate_clear (clock E (k + 1)) a) # as'"] exI [of _ "n + 1"]) simp
  qed
qed

subsection \<open>One buffer\<close>

definition sender_part :: "serial_env \<Rightarrow> profile_data \<Rightarrow> byte list" where
  "sender_part E d = fst (the (sender_serialize (text_at E) (sender_log d)))"

definition start_of :: "profile_data \<Rightarrow> nat" where
  "start_of d = (if serialize_next d = length (aggregates d) then 0 else serialize_next d)"

text \<open>What holds of a ProfileData between calls.\<close>

definition profile_ok :: "profile_data \<Rightarrow> bool" where
  "profile_ok d \<longleftrightarrow> distinct (map fst (aggregates d)) \<and> serialize_next d \<le> length (aggregates d) \<and>
     length (senders (sender_log d)) = kMaxSenders"

lemma length_group_header: "length (group_header E d) \<le> 32" "5 \<le> length (group_header E d)"
  using length_SerializeString [of "text_at E (data_group_name d)"] by (simp_all add: group_header_def)

lemma sender_serialize_ok:
  assumes "length (senders l) = kMaxSenders"
  shows "\<exists>out l'. sender_serialize txt l = Some (out, l') \<and> length out \<le> 32 \<and> length (senders l') = kMaxSenders \<and>
    track_event l' = track_event l"
proof -
  from assms have "senders l \<noteq> []" by (auto simp: kMaxSenders_def)
  then obtain g rest where "partial_sort_first (senders l) = g # rest" "mset (g # rest) = mset (senders l)"
    using partial_sort_first_best by blast
  then show ?thesis
    using assms sender_serialize_length(1) [of "txt" l] mset_eq_length [of "g # rest" "senders l"]
    by (simp add: sender_serialize_def GetTopSender_def Let_def)
qed

lemma GatherNSerialize_ok:
  assumes ok: "profile_ok d" and buffer_cap: "128 \<le> buffer_cap E" and t: "timely E k (drop (start_of d) (aggregates d))"
  shows "\<exists>n d'. GatherNSerialize E k d =
      Some (group_header E d @ (if serialize_next d = length (aggregates d) then sender_part E d else []) @
              report E k (take n (drop (start_of d) (aggregates d))),
            start_of d + n \<noteq> length (aggregates d), k + 2 * n, d') \<and>
    start_of d + n \<le> length (aggregates d) \<and> (start_of d < length (aggregates d) \<longrightarrow> 0 < n) \<and>
    aggregates d' = take (start_of d) (aggregates d) @ cleared E k (take n (drop (start_of d) (aggregates d))) @
      drop (start_of d + n) (aggregates d) \<and>
    serialize_next d' = start_of d + n \<and> data_group_name d' = data_group_name d \<and> profile_ok d' \<and>
    length (group_header E d @ (if serialize_next d = length (aggregates d) then sender_part E d else []) @
              report E k (take n (drop (start_of d) (aggregates d)))) \<le> buffer_cap E \<and>
    (start_of d + n < length (aggregates d) \<longrightarrow>
      int (buffer_cap E) - 64 < int (length (group_header E d @ (if serialize_next d = length (aggregates d) then sender_part E d else []) @
              report E k (take n (drop (start_of d) (aggregates d))))))"
proof -
  let ?as = "aggregates d" and ?j = "start_of d"
  let ?s = "if serialize_next d = length ?as then sender_part E d else []"
  let ?b1 = "group_header E d @ ?s"
  have j: "?j \<le> length ?as" using ok by (simp add: start_of_def profile_ok_def)
  obtain out l' where s: "sender_serialize (text_at E) (sender_log d) = Some (out, l')" "length out \<le> 32"
    "length (senders l') = kMaxSenders"
    using sender_serialize_ok [of "sender_log d" "text_at E"] ok by (auto simp: profile_ok_def)
  have clr: "sender_serialize_n_clear (text_at E) (sender_log d) = Some (out, ClearTopSenders l')"
    by (simp add: sender_serialize_n_clear_def s(1))
  have part: "sender_part E d = out" by (simp add: sender_part_def s(1))
  have len: "length ?b1 \<le> 64" using length_group_header(1) [of E d] s(2) by (simp add: part)
  have fits: "length ?b1 \<le> buffer_cap E" "int (length ?b1) \<le> int (buffer_cap E) - 64" using len buffer_cap by linarith+
  from serialize_entries_ok [OF t fits(1)] obtain buf' as' n where r: "serialize_entries E k ?b1 (drop ?j ?as) = Some (buf', as', n)" "n \<le> length (drop ?j ?as)"
    "buf' = ?b1 @ report E k (take n (drop ?j ?as))"
    "as' = cleared E k (take n (drop ?j ?as)) @ drop n (drop ?j ?as)" "length buf' \<le> buffer_cap E"
    "drop ?j ?as \<noteq> [] \<and> int (length ?b1) \<le> int (buffer_cap E) - 64 \<longrightarrow> 0 < n"
    "n < length (drop ?j ?as) \<longrightarrow> int (buffer_cap E) - 64 < int (length buf')"
    by (elim exE conjE) (rule that)
  let ?d1 = "if serialize_next d = length ?as then d\<lparr>sender_log := ClearTopSenders l', serialize_next := 0\<rparr> else d"
  have d1: "serialize_next ?d1 = ?j" "aggregates ?d1 = ?as" "data_group_name ?d1 = data_group_name d"
    "length (senders (sender_log ?d1)) = kMaxSenders"
    using ok s(3) by (simp_all add: start_of_def ClearTopSenders_def profile_ok_def)
  let ?d2 = "?d1\<lparr>aggregates := take ?j ?as @ as', serialize_next := ?j + n\<rparr>"
  have run: "GatherNSerialize E k d = Some (buf', ?j + n \<noteq> length (take ?j ?as @ as'), k + 2 * n, ?d2)"
  proof (cases "serialize_next d = length ?as")
    case True
    then show ?thesis using r(1) len buffer_cap clr length_group_header(1) [of E d]
      by (simp add: GatherNSerialize_def Let_def check_def part start_of_def)
  next
    case False
    then show ?thesis using r(1) len buffer_cap length_group_header(1) [of E d]
      by (simp add: GatherNSerialize_def Let_def check_def start_of_def)
  qed
  have n: "?j + n \<le> length ?as" using r(2) j by simp
  have as': "as' = cleared E k (take n (drop ?j ?as)) @ drop (?j + n) ?as" using r(4) by (simp add: add.commute)
  have all: "length (take ?j ?as @ as') = length ?as" using n j by (simp add: as')
  have "map fst (take ?j ?as @ as') = map fst (take ?j ?as @ take n (drop ?j ?as) @ drop n (drop ?j ?as))"
    by (simp only: r(4) map_append cleared_keys)
  then have "map fst (take ?j ?as @ as') = map fst ?as" by (simp only: append_take_drop_id)
  then have "profile_ok ?d2" using ok n all d1(4) by (simp add: profile_ok_def)
  moreover have "?j + n < length ?as \<longrightarrow> int (buffer_cap E) - 64 < int (length (?b1 @ report E k (take n (drop ?j ?as))))"
    using r(3,7) j by auto
  ultimately show ?thesis using run n r(3,5,6) fits(2) j as' all d1(3)
    by (intro exI [of _ n] exI [of _ ?d2]) (simp del: map_append)
qed

subsection \<open>Construction and logging\<close>

lemma touch_ok:
  assumes "distinct (map fst as)"
  shows "distinct (map fst (touch place t e as)) \<and> fst ` set (touch place t e as) = insert e (fst ` set as) \<and>
    ((\<forall>a\<in>snd ` set as. \<exists>u. a = aggregate_new u) \<longrightarrow> (\<forall>a\<in>snd ` set (touch place t e as). \<exists>u. a = aggregate_new u))"
proof (cases "e \<in> fst ` set as")
  case True
  then show ?thesis using assms by (auto simp: touch_def)
next
  case False
  define n where "n = place e (map fst as)"
  have t: "touch place t e as = take n as @ (e, aggregate_new t) # drop n as"
    using False by (simp add: touch_def n_def)
  have m: "mset (touch place t e as) = add_mset (e, aggregate_new t) (mset as)"
  proof -
    have "mset (take n as) + mset (drop n as) = mset as" by (metis append_take_drop_id mset_append)
    then show ?thesis by (simp add: t)
  qed
  have "set (touch place t e as) = insert (e, aggregate_new t) (set as)"
    using arg_cong [OF m, of set_mset] by simp
  moreover have "mset (map fst (touch place t e as)) = mset (e # map fst as)"
    using m by simp
  then have "distinct (map fst (touch place t e as))"
    using mset_eq_imp_distinct_iff False assms by (metis distinct.simps(2) list.set_map)
  ultimately show ?thesis by auto
qed

lemma touch_events_ok:
  assumes "distinct (map fst as)" and "\<forall>a\<in>snd ` set as. \<exists>u. a = aggregate_new u" and "\<forall>i\<in>set is. i < length reg"
  shows "\<exists>as'. touch_events place clk reg is as = Some as' \<and> distinct (map fst as') \<and>
    fst ` set as' = fst ` set as \<union> (\<lambda>i. reg ! i) ` set is \<and> (\<forall>a\<in>snd ` set as'. \<exists>u. a = aggregate_new u)"
  using assms
proof (induction "is" arbitrary: as)
  case Nil
  then show ?case by simp
next
  case (Cons i ks)
  let ?as = "touch place (clk i) (reg ! i) as"
  have t: "distinct (map fst ?as)" "fst ` set ?as = insert (reg ! i) (fst ` set as)"
    "\<forall>a\<in>snd ` set ?as. \<exists>u. a = aggregate_new u"
    using touch_ok [OF Cons.prems(1), of place "clk i" "reg ! i"] Cons.prems(2) by blast+
  from Cons.IH [OF t(1,3)] Cons.prems(3) t(2) show ?case by (auto simp: GetLogEventTypeID_def)
qed

lemma profile_data_new_ok:
  "\<exists>d. profile_data_new place clk reg name = Some d \<and> profile_ok d \<and> fst ` set (aggregates d) = set reg \<and>
    serialize_next d = length (aggregates d) \<and> (\<forall>a\<in>snd ` set (aggregates d). \<exists>u. a = aggregate_new u) \<and>
    packed (senders (sender_log d))"
proof -
  obtain as where as: "touch_events place clk reg [0..<length reg] [] = Some as" "distinct (map fst as)"
    "fst ` set as = (\<lambda>i. reg ! i) ` {0..<length reg}" "\<forall>a\<in>snd ` set as. \<exists>u. a = aggregate_new u"
    using touch_events_ok [of "[]" "[0..<length reg]" reg place clk] by auto
  have reg: "(\<lambda>i. reg ! i) ` {0..<length reg} = set reg" by (auto simp: set_conv_nth)
  have s: "senders (sender_logger_new EventPushed) = replicate 4 no_sender"
    by (simp add: sender_logger_new_def ClearTopSenders_def no_sender_def kMaxSenders_def numeral_eq_Suc)
  then have "packed (senders (sender_logger_new EventPushed))" by (simp add: numeral_eq_Suc no_sender_def)
  with as reg s show ?thesis by (simp add: profile_data_new_def GetRegisterLength_def profile_ok_def kMaxSenders_def)
qed

text \<open>The aggregate of an event; the events of a sequence that it has seen.\<close>

definition aggregate_of :: "profile_data \<Rightarrow> event_id \<Rightarrow> log_aggregate option" where
  "aggregate_of d e = map_of (aggregates d) e"

definition values_of :: "event_id \<Rightarrow> log_event list \<Rightarrow> real list" where
  "values_of e evs = map event_value (filter (\<lambda>ev. event_name ev = e) evs)"

lemma log_to_keys [simp]: "map fst (log_to rnd ev as) = map fst as"
  by (induction as) (auto simp: log_to_def)

lemma map_of_log_to:
  "map_of (log_to rnd ev as) e =
     map_option (\<lambda>a. if e = event_name ev then aggregate_log rnd (event_value ev) a else a) (map_of as e)"
  by (induction as) (auto simp: log_to_def)

lemma ProfileData_Log_ok:
  assumes "profile_ok d" and "event_name ev \<in> fst ` set (aggregates d)" and "ids_inv h a ids" and "int a + 1 < 2 ^ 31"
  shows "\<exists>ids' d' a'. ProfileData_Log dbg rnd i ev ids d = Some (ids', d') \<and> profile_ok d' \<and>
    fst ` set (aggregates d') = fst ` set (aggregates d) \<and> ids_inv h a' ids' \<and> a' \<le> a + 1 \<and>
    serialize_next d' = serialize_next d \<and>
    (\<forall>e. aggregate_of d' e =
       map_option (\<lambda>x. if e = event_name ev then aggregate_log rnd (event_value ev) x else x) (aggregate_of d e))"
proof -
  have "\<exists>ids' s a'. TrackSender i (event_name ev) ids (sender_log d) = Some (ids', s) \<and>
      length (senders s) = length (senders (sender_log d)) \<and> ids_inv h a' ids' \<and> a' \<le> a + 1"
  proof (cases "event_name ev = track_event (sender_log d)")
    case False
    with assms(3) show ?thesis by (auto simp: TrackSender_def)
  next
    case True
    have "int a < 2 ^ 31" using assms(4) by simp
    from GetCurrentThread_ok [OF assms(3) this, of i] obtain t ids' where
      g: "GetCurrentThread i ids = Some (t, ids')" "if IsCurrentThreadUntagged i ids then ids_inv h (Suc a) ids' \<and> IsAutoTagged t else ids' = ids"
      by blast
    have "\<exists>a'. ids_inv h a' ids' \<and> a' \<le> a + 1"
      using g(2) assms(3) by (cases "IsCurrentThreadUntagged i ids") auto
    with True g(1) show ?thesis by (auto simp: TrackSender_def)
  qed
  then obtain ids' s a' where s: "TrackSender i (event_name ev) ids (sender_log d) = Some (ids', s)"
    "length (senders s) = length (senders (sender_log d))" "ids_inv h a' ids'" "a' \<le> a + 1" by blast
  have keys: "fst ` set (log_to rnd ev (aggregates d)) = fst ` set (aggregates d)"
    using arg_cong [OF log_to_keys [of rnd ev "aggregates d"], of set] by (simp only: list.set_map)
  have len: "length (log_to rnd ev (aggregates d)) = length (aggregates d)" by (simp add: log_to_def)
  have "ProfileData_Log dbg rnd i ev ids d = Some (ids', d\<lparr>aggregates := log_to rnd ev (aggregates d), sender_log := s\<rparr>)"
    using assms(2) s(1) by (simp add: ProfileData_Log_def)
  moreover have "profile_ok (d\<lparr>aggregates := log_to rnd ev (aggregates d), sender_log := s\<rparr>)"
    using assms(1) s(2) len by (simp add: profile_ok_def)
  ultimately show ?thesis using s(3,4) keys by (auto simp: aggregate_of_def map_of_log_to)
qed

text \<open>A sequence of logging threads and events.\<close>

fun log_sequence ::
  "bool \<Rightarrow> (real \<Rightarrow> real) \<Rightarrow> (nat \<times> log_event) list \<Rightarrow> thread_ids \<Rightarrow> profile_data \<Rightarrow> (thread_ids \<times> profile_data) option" where
  "log_sequence dbg rnd [] ids d = Some (ids, d)"
| "log_sequence dbg rnd ((i, ev) # evs) ids d = do {
     (ids', d') \<leftarrow> ProfileData_Log dbg rnd i ev ids d;
     log_sequence dbg rnd evs ids' d'
   }"

lemma log_sequence_ok:
  assumes "profile_ok d" and "\<forall>(i, ev)\<in>set evs. event_name ev \<in> fst ` set (aggregates d)"
    and "ids_inv h a ids" and "int a + int (length evs) < 2 ^ 31"
  shows "\<exists>ids' d'. log_sequence dbg rnd evs ids d = Some (ids', d') \<and> profile_ok d' \<and>
    fst ` set (aggregates d') = fst ` set (aggregates d) \<and> serialize_next d' = serialize_next d \<and>
    (\<forall>e. aggregate_of d' e = map_option (fold (aggregate_log rnd) (values_of e (map snd evs))) (aggregate_of d e))"
  using assms
proof (induction evs arbitrary: ids d a)
  case Nil
  then show ?case by (simp add: values_of_def option.map_ident)
next
  case (Cons x evs)
  obtain i ev where x: "x = (i, ev)" by (cases x)
  have "event_name ev \<in> fst ` set (aggregates d)" "int a + 1 < 2 ^ 31" using Cons.prems x by auto
  from ProfileData_Log_ok [OF Cons.prems(1) this(1) Cons.prems(3) this(2), of dbg rnd i] obtain ids' d' a' where
    d': "ProfileData_Log dbg rnd i ev ids d = Some (ids', d')" "profile_ok d'"
    "fst ` set (aggregates d') = fst ` set (aggregates d)" "ids_inv h a' ids'" "a' \<le> a + 1" "serialize_next d' = serialize_next d"
    "\<forall>e. aggregate_of d' e =
       map_option (\<lambda>x. if e = event_name ev then aggregate_log rnd (event_value ev) x else x) (aggregate_of d e)"
    by (elim exE conjE) (rule that)
  have "\<forall>(i, ev)\<in>set evs. event_name ev \<in> fst ` set (aggregates d')" "int a' + int (length evs) < 2 ^ 31"
    using Cons.prems(2,4) d'(3,5) by auto
  from Cons.IH [OF d'(2) this(1) d'(4) this(2)] obtain ids2 d2 where
    d2: "log_sequence dbg rnd evs ids' d' = Some (ids2, d2)" "profile_ok d2"
    "fst ` set (aggregates d2) = fst ` set (aggregates d')" "serialize_next d2 = serialize_next d'"
    "\<forall>e. aggregate_of d2 e = map_option (fold (aggregate_log rnd) (values_of e (map snd evs))) (aggregate_of d' e)"
    by blast
  have "aggregate_of d2 e = map_option (fold (aggregate_log rnd) (values_of e (map snd (x # evs)))) (aggregate_of d e)" for e
    using d2(5) d'(7) by (cases "aggregate_of d e") (simp_all add: values_of_def x)
  with d2 d' x show ?case by simp
qed

subsection \<open>Properties\<close>

text \<open>
  C22: A ProfileData refines the list of the events logged. Constructed from the registered event
  types and used by any threads, it holds for every registered type the aggregate of exactly the values that were
  logged for that type, in their order, wherever the hash map puts its elements.
\<close>

theorem profile_refines_event_list:
  assumes "\<forall>(i, ev)\<in>set evs. event_name ev \<in> set reg" and "int (length evs) < 2 ^ 31"
  shows "\<exists>d ids' d'. profile_data_new place clk reg name = Some d \<and>
    log_sequence dbg rnd evs (thread_ids_init na) d = Some (ids', d') \<and>
    fst ` set (aggregates d') = set reg \<and> distinct (map fst (aggregates d')) \<and>
    (\<forall>e\<in>set reg. \<exists>u. aggregate_of d' e = Some (fold (aggregate_log rnd) (values_of e (map snd evs)) (aggregate_new u)))"
proof -
  from profile_data_new_ok [of place clk reg name] obtain d where
    d: "profile_data_new place clk reg name = Some d" "profile_ok d" "fst ` set (aggregates d) = set reg"
    "\<forall>a\<in>snd ` set (aggregates d). \<exists>u. a = aggregate_new u" by blast
  have "int 0 + int (length evs) < 2 ^ 31" using assms(2) by simp
  with log_sequence_ok [OF d(2) _ ids_inv_init this, of dbg rnd na] assms(1) d(3) obtain ids' d' where
    d': "log_sequence dbg rnd evs (thread_ids_init na) d = Some (ids', d')" "profile_ok d'"
    "fst ` set (aggregates d') = set reg"
    "\<forall>e. aggregate_of d' e = map_option (fold (aggregate_log rnd) (values_of e (map snd evs))) (aggregate_of d e)"
    by auto
  have new: "\<exists>u. aggregate_of d e = Some (aggregate_new u)" if "e \<in> set reg" for e
  proof -
    have "e \<in> fst ` set (aggregates d)" using that d(3) by simp
    then obtain a where a: "aggregate_of d e = Some a" unfolding aggregate_of_def by (metis map_of_eq_None_iff not_None_eq)
    then have "a \<in> snd ` set (aggregates d)" unfolding aggregate_of_def by (metis imageI map_of_SomeD snd_conv)
    with d(4) a show ?thesis by auto
  qed
  have "\<exists>u. aggregate_of d' e = Some (fold (aggregate_log rnd) (values_of e (map snd evs)) (aggregate_new u))"
    if "e \<in> set reg" for e using new [OF that] d'(4) by auto
  with d(1) d'(1-3) show ?thesis unfolding profile_ok_def by blast
qed

theorem profile_refines_event_list_witness:
  "\<exists>d ids' d' u. profile_data_new (\<lambda>_ _. 0) int [EventFillTime, EventReadTime] 3 = Some d \<and>
    log_sequence True id [(1, log_event EventReadTime 2), (4, log_event EventReadTime 5)] (thread_ids_init 9) d = Some (ids', d') \<and>
    aggregate_of d' EventReadTime = Some (fold (aggregate_log id) [2, 5] (aggregate_new u))"
  using profile_refines_event_list [of "[(1, log_event EventReadTime 2), (4, log_event EventReadTime 5)]"
      "[EventFillTime, EventReadTime]" "\<lambda>_ _. 0" int 3 True id 9]
  by (fastforce simp: log_event_def values_of_def)

text \<open>
  C23: A buffer of at least 128 bytes is never overrun. With the assertions compiled in none of them
  fails, what is written has a header and fits, the iterator moves forward and never past the end, and the call says that
  there is more exactly while it has not reached the end.
\<close>

theorem serialization_fits:
  assumes "profile_ok d" and "128 \<le> buffer_cap E" and "timely E k (drop (start_of d) (aggregates d))"
  shows "\<exists>buf more k' d'. GatherNSerialize E k d = Some (buf, more, k', d') \<and> length buf \<le> buffer_cap E \<and>
    5 \<le> length buf \<and> take (length (group_header E d)) buf = group_header E d \<and> profile_ok d' \<and>
    start_of d \<le> serialize_next d' \<and> (aggregates d \<noteq> [] \<longrightarrow> start_of d < serialize_next d') \<and>
    more = (serialize_next d' \<noteq> length (aggregates d')) \<and> map fst (aggregates d') = map fst (aggregates d)"
proof -
  let ?s = "if serialize_next d = length (aggregates d) then sender_part E d else []"
  from GatherNSerialize_ok [OF assms] obtain n d' where g: "GatherNSerialize E k d =
      Some (group_header E d @ ?s @ report E k (take n (drop (start_of d) (aggregates d))),
            start_of d + n \<noteq> length (aggregates d), k + 2 * n, d')"
    "start_of d + n \<le> length (aggregates d)" "start_of d < length (aggregates d) \<longrightarrow> 0 < n"
    "aggregates d' = take (start_of d) (aggregates d) @ cleared E k (take n (drop (start_of d) (aggregates d))) @
      drop (start_of d + n) (aggregates d)"
    "serialize_next d' = start_of d + n" "profile_ok d'"
    "length (group_header E d @ ?s @ report E k (take n (drop (start_of d) (aggregates d)))) \<le> buffer_cap E"
    by (elim exE conjE) (rule that)
  have start: "start_of d < length (aggregates d)" if "aggregates d \<noteq> []"
    using that assms(1) by (auto simp: start_of_def profile_ok_def)
  have "map fst (aggregates d') = map fst (take (start_of d) (aggregates d) @ take n (drop (start_of d) (aggregates d)) @
      drop n (drop (start_of d) (aggregates d)))"
    by (simp only: g(4) map_append cleared_keys drop_drop add.commute)
  then have keys: "map fst (aggregates d') = map fst (aggregates d)" by (simp only: append_take_drop_id)
  then have len: "length (aggregates d') = length (aggregates d)" by (metis length_map)
  show ?thesis
  proof (intro exI conjI)
    show "GatherNSerialize E k d = Some (group_header E d @ ?s @ report E k (take n (drop (start_of d) (aggregates d))),
            start_of d + n \<noteq> length (aggregates d), k + 2 * n, d')" by (rule g(1))
  qed (use g(3,5-7) start keys len length_group_header(2) [of E d] in simp_all)
qed

theorem serialization_fits_witness:
  "\<exists>buf more k' d'. GatherNSerialize \<lparr>debug = True, big_endian = False, double_bits = (\<lambda>_. 0), rounding = id,
      text_at = (\<lambda>_. ''video''), clock = int, buffer_cap = 508\<rparr> 0
     \<lparr>data_group_name = 2, aggregates = [(EventFillTime, aggregate_new 0)], sender_log = sender_logger_new EventPushed,
      serialize_next = 1\<rparr> = Some (buf, more, k', d') \<and> length buf \<le> 508 \<and> serialize_next d' \<noteq> 0"
proof -
  let ?E = "\<lparr>debug = True, big_endian = False, double_bits = (\<lambda>_. 0), rounding = id,
      text_at = (\<lambda>_. ''video''), clock = int, buffer_cap = 508\<rparr>"
  let ?d = "\<lparr>data_group_name = 2, aggregates = [(EventFillTime, aggregate_new 0)], sender_log = sender_logger_new EventPushed,
      serialize_next = 1\<rparr>"
  have "profile_ok ?d" "timely ?E 0 (drop (start_of ?d) (aggregates ?d))"
    by (simp_all add: profile_ok_def sender_logger_new_def ClearTopSenders_def start_of_def aggregate_new_def)
  from serialization_fits [OF this(1) _ this(2)] show ?thesis by fastforce
qed

end
