(* ===== verification/Profiler_Impl.thy ===== *)
theory Profiler_Impl
  imports Profile_Data
begin

text \<open>
  Model of \<^verbatim>\<open>src/ProfilerImpl.h\<close> and \<^verbatim>\<open>src/ProfilerImpl.cpp\<close>: the list of the
  ProfileData objects of all channels, the guard that keeps it from changing while it is read, and the pass that sends
  everything.

  The ProfileData objects live in a store indexed by their addresses. The sender callback returns nothing, so a
  pass yields the list of the buffers that it is called with. The do-while loop over one ProfileData has fuel, because
  nothing in the code bounds it; running out of fuel is \<open>None\<close>.
\<close>

subsection \<open>State and operations\<close>

record profiler_impl =
  buffer_size :: int
  aggregation_time_msec :: int
  worker_joinable :: bool
  worker_shutdown :: bool
  profile_list :: "addr list"
  next_profile_data :: int

definition profiler_impl_new :: "bool \<Rightarrow> int \<Rightarrow> int \<Rightarrow> profiler_impl option" where
  "profiler_impl_new has_callback bytes aggregation_time = do {
     assert_that has_callback;
     assert_that (bytes \<ge> 64);
     assert_that (aggregation_time \<ge> 0);
     Some \<lparr>buffer_size = bytes, aggregation_time_msec = aggregation_time, worker_joinable = False,
           worker_shutdown = False, profile_list = [], next_profile_data = -1\<rparr>
   }"

definition GetAggregationTime :: "profiler_impl \<Rightarrow> int" where
  "GetAggregationTime p = aggregation_time_msec p"

definition GetBufferSize :: "profiler_impl \<Rightarrow> int" where
  "GetBufferSize p = buffer_size p"

text \<open>\<^verbatim>\<open>next_profile_data_.compare_exchange_strong(expected, desired)\<close>.\<close>

definition compare_exchange :: "int \<Rightarrow> int \<Rightarrow> profiler_impl \<Rightarrow> bool \<times> profiler_impl" where
  "compare_exchange expected desired p =
     (if next_profile_data p = expected then (True, p\<lparr>next_profile_data := desired\<rparr>) else (False, p))"

definition AddProfileData :: "bool \<Rightarrow> addr \<Rightarrow> profiler_impl \<Rightarrow> profiler_impl option" where
  "AddProfileData dbg a p = do {
     check dbg (a \<noteq> nullptr);
     check dbg (\<not> worker_joinable p);
     (case compare_exchange (-1) (-2) p of (changed, p1) \<Rightarrow>
       if \<not> changed then do { check dbg False; Some p1 }
       else do {
         check dbg (a \<notin> set (profile_list p1));
         Some (p1\<lparr>profile_list := profile_list p1 @ [a], next_profile_data := -1\<rparr>)
       })
   }"

definition RemoveProfileData :: "bool \<Rightarrow> addr \<Rightarrow> profiler_impl \<Rightarrow> profiler_impl option" where
  "RemoveProfileData dbg a p = do {
     check dbg (a \<noteq> nullptr);
     check dbg (\<not> worker_joinable p);
     (case compare_exchange (-1) (-2) p of (changed, p1) \<Rightarrow>
       if \<not> changed then do { check dbg False; Some p1 }
       else do {
         p2 \<leftarrow> (case find_index a (profile_list p1) of
           Some i \<Rightarrow> Some (p1\<lparr>profile_list := swap_remove i (profile_list p1)\<rparr>)
         | None \<Rightarrow> do { check dbg False; Some p1 });
         Some (p2\<lparr>next_profile_data := -1\<rparr>)
       })
   }"

definition profiler_Start :: "profiler_impl \<Rightarrow> profiler_impl option" where
  "profiler_Start p = do {
     assert_that (\<not> worker_joinable p);
     let p1 = p\<lparr>worker_shutdown := False\<rparr>;
     Some (if aggregation_time_msec p1 \<noteq> 0 then p1\<lparr>worker_joinable := True\<rparr> else p1)
   }"

text \<open>\<open>join\<close> returns when the loop of \<open>SleepNWork\<close> below has seen the flag.\<close>

definition profiler_Stop :: "profiler_impl \<Rightarrow> profiler_impl option" where
  "profiler_Stop p = do {
     let p1 = p\<lparr>worker_shutdown := True\<rparr>;
     p2 \<leftarrow> (if aggregation_time_msec p1 \<noteq> 0
            then do { assert_that (worker_joinable p1); Some (p1\<lparr>worker_joinable := False\<rparr>) }
            else Some p1);
     assert_that (\<not> worker_joinable p2);
     Some p2
   }"

definition profiler_impl_destroy :: "profiler_impl \<Rightarrow> profiler_impl option" where
  "profiler_impl_destroy p = do {
     assert_that (profile_list p = []);
     if aggregation_time_msec p \<noteq> 0 \<and> worker_joinable p then profiler_Stop p else Some p
   }"

subsection \<open>Gathering and sending\<close>

text \<open>The do-while loop: the buffers sent, the next index of the clock, the emptied object.\<close>

fun send_data :: "nat \<Rightarrow> serial_env \<Rightarrow> nat \<Rightarrow> profile_data \<Rightarrow> (byte list list \<times> nat \<times> profile_data) option" where
  "send_data 0 E k d = None"
| "send_data (Suc fuel) E k d = do {
     (buf, more, k1, d1) \<leftarrow> GatherNSerialize E k d;
     if more then do {
       (bufs, k2, d2) \<leftarrow> send_data fuel E k1 d1;
       Some (buf # bufs, k2, d2)
     }
     else Some ([buf], k1, d1)
   }"

text \<open>
  The same loop cut off after at most \<open>n\<close> iterations: the buffers sent so far, and whether it goes on. It tells a loop that
  is still running from one that has failed.
\<close>

fun send_iterations :: "nat \<Rightarrow> serial_env \<Rightarrow> nat \<Rightarrow> profile_data \<Rightarrow> (byte list list \<times> bool \<times> nat \<times> profile_data) option" where
  "send_iterations 0 E k d = Some ([], True, k, d)"
| "send_iterations (Suc n) E k d = do {
     (buf, more, k1, d1) \<leftarrow> GatherNSerialize E k d;
     if more then do {
       (bufs, more', k2, d2) \<leftarrow> send_iterations n E k1 d1;
       Some (buf # bufs, more', k2, d2)
     }
     else Some ([buf], False, k1, d1)
   }"

text \<open>The outer loop, over the objects from \<open>next_profile_data\<close> on.\<close>

fun send_list ::
  "nat \<Rightarrow> serial_env \<Rightarrow> addr list \<Rightarrow> nat \<Rightarrow> profiler_impl \<Rightarrow> (addr \<Rightarrow> profile_data) \<Rightarrow>
     (byte list list \<times> profiler_impl \<times> (addr \<Rightarrow> profile_data)) option" where
  "send_list fuel E [] k p mem = Some ([], p, mem)"
| "send_list fuel E (a # as) k p mem = do {
     (bufs, k1, d) \<leftarrow> send_data fuel E k (mem a);
     (bufs', p', mem') \<leftarrow> send_list fuel E as k1 (p\<lparr>next_profile_data := next_profile_data p + 1\<rparr>) (mem(a := d));
     Some (bufs @ bufs', p', mem')
   }"

definition ProfilerImpl_GatherNSend ::
  "nat \<Rightarrow> serial_env \<Rightarrow> nat \<Rightarrow> profiler_impl \<Rightarrow> (addr \<Rightarrow> profile_data) \<Rightarrow>
     (byte list list \<times> profiler_impl \<times> (addr \<Rightarrow> profile_data)) option" where
  "ProfilerImpl_GatherNSend fuel E k p mem =
     (case compare_exchange (-1) 0 p of (changed, p1) \<Rightarrow>
       if \<not> changed then do { check (debug E) False; Some ([], p1, mem) }
       else do {
         (bufs, p2, mem') \<leftarrow>
           send_list fuel (E\<lparr>buffer_cap := nat (buffer_size p1)\<rparr>) (drop (nat (next_profile_data p1)) (profile_list p1)) k p1 mem;
         Some (bufs, p2\<lparr>next_profile_data := -1\<rparr>, mem')
       })"

text \<open>
  The background thread. The list holds what the successive loads of the shutdown flag return and
  the clock index of the pass that follows.
\<close>

fun SleepNWork ::
  "nat \<Rightarrow> serial_env \<Rightarrow> (bool \<times> nat) list \<Rightarrow> profiler_impl \<Rightarrow> (addr \<Rightarrow> profile_data) \<Rightarrow>
     (byte list list \<times> profiler_impl \<times> (addr \<Rightarrow> profile_data)) option" where
  "SleepNWork fuel E [] p mem = None"
| "SleepNWork fuel E ((shutdown, k) # rs) p mem = do {
     assert_that (aggregation_time_msec p > 0);
     if shutdown then Some ([], p, mem)
     else do {
       (bufs, p1, mem1) \<leftarrow> ProfilerImpl_GatherNSend fuel E k p mem;
       (bufs', p2, mem2) \<leftarrow> SleepNWork fuel E rs p1 mem1;
       Some (bufs @ bufs', p2, mem2)
     }
   }"

subsection \<open>The list of objects\<close>

lemma AddProfileData_ok:
  assumes "a \<noteq> nullptr" and "\<not> worker_joinable p" and "next_profile_data p = -1" and "a \<notin> set (profile_list p)"
  shows "AddProfileData dbg a p = Some (p\<lparr>profile_list := profile_list p @ [a]\<rparr>)"
  using assms by (simp add: AddProfileData_def compare_exchange_def check_def)

lemma RemoveProfileData_ok:
  assumes "a \<noteq> nullptr" and "\<not> worker_joinable p" and "next_profile_data p = -1" and "a \<in> set (profile_list p)"
  shows "\<exists>p'. RemoveProfileData dbg a p = Some p' \<and> mset (profile_list p') = mset (profile_list p) - {#a#} \<and>
    next_profile_data p' = -1 \<and> worker_joinable p' = worker_joinable p"
proof -
  obtain i where i: "find_index a (profile_list p) = Some i" using find_index_ex [OF assms(4)] by blast
  with find_index_Some [OF i] assms show ?thesis
    by (simp add: RemoveProfileData_def compare_exchange_def check_def mset_swap_remove)
qed

text \<open>While a pass is under way the list cannot change.\<close>

lemma list_guarded:
  assumes "next_profile_data p \<noteq> -1"
  shows "AddProfileData True a p = None" "RemoveProfileData True a p = None"
    "AddProfileData False a p = Some p" "RemoveProfileData False a p = Some p"
  using assms by (simp_all add: AddProfileData_def RemoveProfileData_def compare_exchange_def check_def)

subsection \<open>A pass over one object\<close>

lemma send_data_ok:
  assumes "profile_ok d" and "128 \<le> buffer_cap E" and "timely E k (drop (start_of d) (aggregates d))"
    and "length (aggregates d) - start_of d < fuel"
  shows "\<exists>bufs d'. send_data fuel E k d = Some (bufs, k + 2 * (length (aggregates d) - start_of d), d') \<and>
    (\<forall>b\<in>set bufs. length b \<le> buffer_cap E \<and> take (length (group_header E d)) b = group_header E d) \<and>
    concat (map (drop (length (group_header E d))) bufs) =
      (if serialize_next d = length (aggregates d) then sender_part E d else []) @ report E k (drop (start_of d) (aggregates d)) \<and>
    aggregates d' = take (start_of d) (aggregates d) @ cleared E k (drop (start_of d) (aggregates d)) \<and>
    serialize_next d' = length (aggregates d) \<and> data_group_name d' = data_group_name d \<and> profile_ok d'"
  using assms
proof (induction fuel arbitrary: k d)
  case 0
  then show ?case by simp
next
  case (Suc fuel)
  let ?as = "aggregates d" and ?j = "start_of d" and ?h = "group_header E d"
  let ?s = "if serialize_next d = length ?as then sender_part E d else []"
  from GatherNSerialize_ok [OF Suc.prems(1-3)] obtain n d1 where
    g: "GatherNSerialize E k d = Some (?h @ ?s @ report E k (take n (drop ?j ?as)), ?j + n \<noteq> length ?as, k + 2 * n, d1)"
    "?j + n \<le> length ?as" "?j < length ?as \<longrightarrow> 0 < n"
    "aggregates d1 = take ?j ?as @ cleared E k (take n (drop ?j ?as)) @ drop (?j + n) ?as"
    "serialize_next d1 = ?j + n" "data_group_name d1 = data_group_name d" "profile_ok d1"
    "length (?h @ ?s @ report E k (take n (drop ?j ?as))) \<le> buffer_cap E"
    by (elim exE conjE) (rule that)
  have j: "?j \<le> length ?as" using g(2) by simp
  show ?case
  proof (cases "?j + n = length ?as")
    case True
    then have n: "take n (drop ?j ?as) = drop ?j ?as" "n = length ?as - ?j" "drop (?j + n) ?as = []" by simp_all
    have "send_data (Suc fuel) E k d = Some ([?h @ ?s @ report E k (drop ?j ?as)], k + 2 * (length ?as - ?j), d1)"
      using g(1) True n(1,2) by simp
    then show ?thesis using g(4-8) n(1,3) True by auto
  next
    case False
    with g(2) have lt: "?j + n < length ?as" by simp
    with g(3) have n: "0 < n" by simp
    have len: "length (aggregates d1) = length ?as" using g(2) by (simp add: g(4))
    then have start: "start_of d1 = ?j + n" using lt g(5) by (simp add: start_of_def)
    have rest: "drop (start_of d1) (aggregates d1) = drop n (drop ?j ?as)" using j lt by (simp add: start g(4) add.commute)
    have before: "take (start_of d1) (aggregates d1) = take ?j ?as @ cleared E k (take n (drop ?j ?as))"
      using j lt by (simp add: start g(4))
    have tn: "length (take n (drop ?j ?as)) = n" using lt by simp
    have "timely E k (take n (drop ?j ?as) @ drop n (drop ?j ?as))" using Suc.prems(3) by (simp only: append_take_drop_id)
    then have t: "timely E (k + 2 * n) (drop (start_of d1) (aggregates d1))"
      unfolding timely_append tn rest by (rule conjunct2)
    have "length (aggregates d1) - start_of d1 < fuel" using Suc.prems(4) len start n lt by linarith
    from Suc.IH [OF g(7) Suc.prems(2) t this] obtain bufs d2 where
      r: "send_data fuel E (k + 2 * n) d1 = Some (bufs, (k + 2 * n) + 2 * (length (aggregates d1) - start_of d1), d2)"
      "\<forall>b\<in>set bufs. length b \<le> buffer_cap E \<and> take (length (group_header E d1)) b = group_header E d1"
      "concat (map (drop (length (group_header E d1))) bufs) =
        (if serialize_next d1 = length (aggregates d1) then sender_part E d1 else []) @
        report E (k + 2 * n) (drop (start_of d1) (aggregates d1))"
      "aggregates d2 = take (start_of d1) (aggregates d1) @ cleared E (k + 2 * n) (drop (start_of d1) (aggregates d1))"
      "serialize_next d2 = length (aggregates d1)" "data_group_name d2 = data_group_name d1" "profile_ok d2"
      by (elim exE conjE) (rule that)
    have h: "group_header E d1 = ?h" by (simp add: group_header_def g(6))
    have nend: "serialize_next d1 \<noteq> length (aggregates d1)" using g(5) len lt by simp
    have rep: "report E k (drop ?j ?as) = report E k (take n (drop ?j ?as)) @ report E (k + 2 * n) (drop n (drop ?j ?as))"
      using report_append [of E k "take n (drop ?j ?as)" "drop n (drop ?j ?as)"] by (simp only: append_take_drop_id tn)
    have clr: "cleared E k (drop ?j ?as) = cleared E k (take n (drop ?j ?as)) @ cleared E (k + 2 * n) (drop n (drop ?j ?as))"
      using cleared_append [of E k "take n (drop ?j ?as)" "drop n (drop ?j ?as)"] by (simp only: append_take_drop_id tn)
    have kk: "(k + 2 * n) + 2 * (length (aggregates d1) - start_of d1) = k + 2 * (length ?as - ?j)"
      using len start lt by simp
    let ?b = "?h @ ?s @ report E k (take n (drop ?j ?as))"
    show ?thesis
    proof (intro exI conjI)
      show "send_data (Suc fuel) E k d = Some (?b # bufs, k + 2 * (length ?as - ?j), d2)"
        using g(1) False r(1) kk by simp
      show "\<forall>b\<in>set (?b # bufs). length b \<le> buffer_cap E \<and> take (length ?h) b = ?h" using r(2) g(8) h by simp
      show "concat (map (drop (length ?h)) (?b # bufs)) = ?s @ report E k (drop ?j ?as)"
        using r(3) nend unfolding h rest rep by simp
      show "aggregates d2 = take ?j ?as @ cleared E k (drop ?j ?as)"
        unfolding r(4) before rest clr by simp
      show "serialize_next d2 = length ?as" using r(5) len by simp
      show "data_group_name d2 = data_group_name d" using r(6) g(6) by simp
      show "profile_ok d2" by (rule r(7))
    qed
  qed
qed

subsection \<open>A pass over all objects\<close>

text \<open>
  What one ProfileData sends in one pass: the buffers fit, carry its header, and put together
  without the headers are the reference serialization of everything it holds.
\<close>

definition sent_whole :: "serial_env \<Rightarrow> byte list list \<Rightarrow> profile_data \<Rightarrow> bool" where
  "sent_whole E bufs d \<longleftrightarrow>
     (\<forall>b\<in>set bufs. length b \<le> buffer_cap E \<and> take (length (group_header E d)) b = group_header E d) \<and>
     (\<exists>k. concat (map (drop (length (group_header E d))) bufs) = sender_part E d @ report E k (aggregates d))"

definition ready_to_send :: "serial_env \<Rightarrow> nat \<Rightarrow> profile_data \<Rightarrow> bool" where
  "ready_to_send E fuel d \<longleftrightarrow> profile_ok d \<and> serialize_next d = length (aggregates d) \<and>
     length (aggregates d) < fuel \<and> (\<forall>k. timely E k (aggregates d))"

definition emptied :: "profile_data \<Rightarrow> profile_data \<Rightarrow> bool" where
  "emptied d d' \<longleftrightarrow> profile_ok d' \<and> serialize_next d' = length (aggregates d') \<and>
     map fst (aggregates d') = map fst (aggregates d) \<and> (\<forall>(e, a)\<in>set (aggregates d'). log_count a = 0)"

lemma send_data_whole:
  assumes "ready_to_send E fuel d" and "128 \<le> buffer_cap E"
  shows "\<exists>bufs k' d'. send_data fuel E k d = Some (bufs, k', d') \<and> sent_whole E bufs d \<and> emptied d d'"
proof -
  have d: "profile_ok d" "serialize_next d = length (aggregates d)" "start_of d = 0"
    using assms(1) by (simp_all add: ready_to_send_def start_of_def)
  have t: "timely E k (drop (start_of d) (aggregates d))" "length (aggregates d) - start_of d < fuel"
    using assms(1) d(3) by (simp_all add: ready_to_send_def)
  from send_data_ok [OF d(1) assms(2) t] obtain bufs d' where
    r: "send_data fuel E k d = Some (bufs, k + 2 * (length (aggregates d) - start_of d), d')"
    "\<forall>b\<in>set bufs. length b \<le> buffer_cap E \<and> take (length (group_header E d)) b = group_header E d"
    "concat (map (drop (length (group_header E d))) bufs) =
      (if serialize_next d = length (aggregates d) then sender_part E d else []) @ report E k (drop (start_of d) (aggregates d))"
    "aggregates d' = take (start_of d) (aggregates d) @ cleared E k (drop (start_of d) (aggregates d))"
    "serialize_next d' = length (aggregates d)" "profile_ok d'"
    by (elim exE conjE) (rule that)
  have "emptied d d'" using r(4-6) cleared_silent [of E k "aggregates d"] by (simp add: emptied_def d(3))
  moreover have "sent_whole E bufs d" using r(2,3) unfolding sent_whole_def by (auto simp: d)
  ultimately show ?thesis using r(1) by blast
qed

text \<open>What holds of the buffers and the emptied state of every single object holds of the pass over the list.\<close>

lemma send_list_each:
  assumes "\<forall>a\<in>set as. \<forall>k. \<exists>bufs k' d. send_data fuel E k (mem a) = Some (bufs, k', d) \<and> P bufs (mem a) \<and> Q (mem a) d"
    and "distinct as"
  shows "\<exists>bufss mem'. send_list fuel E as k p mem =
      Some (concat bufss, p\<lparr>next_profile_data := next_profile_data p + int (length as)\<rparr>, mem') \<and>
    list_all2 P bufss (map mem as) \<and> (\<forall>a\<in>set as. Q (mem a) (mem' a)) \<and> (\<forall>a. a \<notin> set as \<longrightarrow> mem' a = mem a)"
  using assms
proof (induction as arbitrary: k p mem)
  case Nil
  show ?case by (rule exI [of _ "[]"]) simp
next
  case (Cons a as)
  from Cons.prems(1) obtain bufs k' d where
    s: "send_data fuel E k (mem a) = Some (bufs, k', d)" "P bufs (mem a)" "Q (mem a) d" by fastforce
  let ?p = "p\<lparr>next_profile_data := next_profile_data p + 1\<rparr>"
  have new: "a \<notin> set as" "distinct as" using Cons.prems(2) by simp_all
  have same: "(mem(a := d)) b = mem b" if "b \<in> set as" for b using that new by auto
  have "\<forall>b\<in>set as. \<forall>k. \<exists>bufs k' d'. send_data fuel E k ((mem(a := d)) b) = Some (bufs, k', d') \<and>
      P bufs ((mem(a := d)) b) \<and> Q ((mem(a := d)) b) d'"
    using Cons.prems(1) same by simp
  from Cons.IH [OF this new(2), of k' ?p] obtain bufss mem' where
    r: "send_list fuel E as k' ?p (mem(a := d)) = Some (concat bufss, ?p\<lparr>next_profile_data := next_profile_data ?p + int (length as)\<rparr>, mem')"
    "list_all2 P bufss (map (mem(a := d)) as)" "\<forall>b\<in>set as. Q ((mem(a := d)) b) (mem' b)"
    "\<forall>b. b \<notin> set as \<longrightarrow> mem' b = (mem(a := d)) b"
    by blast
  have m: "map (mem(a := d)) as = map mem as" using same by (intro map_cong) auto
  have "send_list fuel E (a # as) k p mem =
      Some (concat (bufs # bufss), p\<lparr>next_profile_data := next_profile_data p + int (length (a # as))\<rparr>, mem')"
    using s(1) r(1) by (simp add: algebra_simps)
  moreover have "list_all2 P (bufs # bufss) (map mem (a # as))" using s(2) r(2) unfolding m by simp
  moreover have "\<forall>b\<in>set (a # as). Q (mem b) (mem' b)"
    using s(3) r(3,4) new(1) same by (metis fun_upd_same set_ConsD)
  moreover have "\<forall>b. b \<notin> set (a # as) \<longrightarrow> mem' b = mem b" using r(4) by simp
  ultimately show ?case by blast
qed

lemma GatherNSend_each:
  assumes "\<forall>a\<in>set (profile_list p). \<forall>k. \<exists>bufs k' d.
      send_data fuel (E\<lparr>buffer_cap := nat (buffer_size p)\<rparr>) k (mem a) = Some (bufs, k', d) \<and> P bufs (mem a) \<and> Q (mem a) d"
    and "distinct (profile_list p)" and "next_profile_data p = -1"
  shows "\<exists>bufss mem'. ProfilerImpl_GatherNSend fuel E k p mem = Some (concat bufss, p, mem') \<and>
    list_all2 P bufss (map mem (profile_list p)) \<and> (\<forall>a\<in>set (profile_list p). Q (mem a) (mem' a)) \<and>
    (\<forall>a. a \<notin> set (profile_list p) \<longrightarrow> mem' a = mem a)"
proof -
  from send_list_each [OF assms(1,2), of k "p\<lparr>next_profile_data := 0\<rparr>"] obtain bufss mem' where
    r: "send_list fuel (E\<lparr>buffer_cap := nat (buffer_size p)\<rparr>) (profile_list p) k (p\<lparr>next_profile_data := 0\<rparr>) mem =
      Some (concat bufss, p\<lparr>next_profile_data := int (length (profile_list p))\<rparr>, mem')"
    "list_all2 P bufss (map mem (profile_list p))" "\<forall>a\<in>set (profile_list p). Q (mem a) (mem' a)"
    "\<forall>a. a \<notin> set (profile_list p) \<longrightarrow> mem' a = mem a" by auto
  have "ProfilerImpl_GatherNSend fuel E k p mem = Some (concat bufss, p, mem')"
    using r(1) assms(3) by (simp add: ProfilerImpl_GatherNSend_def compare_exchange_def)
  with r(2-4) show ?thesis by blast
qed

text \<open>Fuel runs out exactly where the loop would go on.\<close>

lemma send_data_iterations:
  "send_data fuel E k d =
     (case send_iterations fuel E k d of
        Some (bufs, again, k', d') \<Rightarrow> if again then None else Some (bufs, k', d')
      | None \<Rightarrow> None)"
proof (induction fuel arbitrary: k d)
  case (Suc fuel)
  show ?case
  proof (cases "GatherNSerialize E k d")
    case (Some r)
    obtain buf more k1 d1 where "r = (buf, more, k1, d1)" by (cases r)
    with Some Suc.IH [of k1 d1] show ?thesis by (auto split: option.splits)
  qed simp
qed simp

text \<open>With too small a buffer and no assertions the serialization of one object stands still.\<close>

lemma stuck_GatherNSerialize:
  assumes d: "serialize_next d < length (aggregates d)" and dbg: "\<not> debug E"
    and small: "buffer_cap E < 64 + length (group_header E d)"
  shows "GatherNSerialize E k d = Some (group_header E d, True, k, d)"
proof -
  obtain e a as where as: "drop (serialize_next d) (aggregates d) = (e, a) # as"
    using d by (metis Cons_nth_drop_Suc surj_pair)
  have "serialize_entries E k (group_header E d) ((e, a) # as) = Some (group_header E d, (e, a) # as, 0)"
    using small by simp
  moreover have "take (serialize_next d) (aggregates d) @ (e, a) # as = aggregates d"
    unfolding as [symmetric] by (rule append_take_drop_id)
  ultimately show ?thesis using d dbg by (simp add: GatherNSerialize_def Let_def check_def as)
qed

lemma stuck_iterations:
  assumes "serialize_next d < length (aggregates d)" and "\<not> debug E" and "buffer_cap E < 64 + length (group_header E d)"
  shows "send_iterations n E k d = Some (replicate n (group_header E d), True, k, d)"
  using stuck_GatherNSerialize [OF assms] by (induction n) simp_all

lemma small_buffer_fails:
  assumes "debug E" and "buffer_cap E < 64 + length (group_header E d)"
  shows "GatherNSerialize E k d = None"
  using assms length_group_header(1) [of E d] by (simp add: GatherNSerialize_def check_def)

lemma small_buffer_runs:
  assumes ok: "profile_ok d" and d: "serialize_next d = length (aggregates d)" "aggregates d \<noteq> []"
    and small: "buffer_cap E < 64 + length (group_header E d)" and dbg: "\<not> debug E"
  shows "\<exists>d'. send_iterations (Suc n) E k d =
    Some ((group_header E d @ sender_part E d) # replicate n (group_header E d), True, k, d')"
proof -
  obtain out l' where s: "sender_serialize (text_at E) (sender_log d) = Some (out, l')"
    using sender_serialize_ok [of "sender_log d" "text_at E"] ok by (auto simp: profile_ok_def)
  let ?d = "d\<lparr>sender_log := ClearTopSenders l', serialize_next := 0\<rparr>"
  obtain e a as where as: "aggregates d = (e, a) # as" using d(2) by (cases "aggregates d") auto
  have "serialize_entries E k (group_header E d @ out) ((e, a) # as) = Some (group_header E d @ out, (e, a) # as, 0)"
    using small by simp
  then have g: "GatherNSerialize E k d = Some (group_header E d @ out, True, k, ?d)"
    using d dbg s by (simp add: GatherNSerialize_def Let_def check_def as sender_serialize_n_clear_def)
  have "group_header E ?d = group_header E d" by (simp add: group_header_def)
  then have "send_iterations n E k ?d = Some (replicate n (group_header E d), True, k, ?d)"
    using stuck_iterations [of ?d E n k] small dbg d(2) by simp
  with g s show ?thesis by (simp add: sender_part_def)
qed

lemma stuck_from_start:
  assumes "profile_ok d" and "serialize_next d = length (aggregates d)" "aggregates d \<noteq> []"
    and "buffer_cap E < 64 + length (group_header E d)"
  shows "send_data fuel E k d = None"
proof (cases fuel)
  case (Suc n)
  show ?thesis
  proof (cases "debug E")
    case True
    then show ?thesis using small_buffer_fails [OF _ assms(4)] Suc by simp
  next
    case False
    from small_buffer_runs [OF assms this, of n k] show ?thesis by (auto simp: Suc send_data_iterations)
  qed
qed simp

subsection \<open>An example\<close>

definition ex_env :: serial_env where
  "ex_env = \<lparr>debug = False, big_endian = False, double_bits = (\<lambda>_. 0), rounding = id, text_at = (\<lambda>_. ''video''),
     clock = (\<lambda>_. 5), buffer_cap = 0\<rparr>"

definition ex_profiler :: "int \<Rightarrow> profiler_impl" where
  "ex_profiler bytes = \<lparr>buffer_size = bytes, aggregation_time_msec = 0, worker_joinable = False, worker_shutdown = False,
     profile_list = [3], next_profile_data = -1\<rparr>"

definition ex_mem :: "addr \<Rightarrow> profile_data" where
  "ex_mem a = \<lparr>data_group_name = a, aggregates = [(EventFillTime, aggregate_clear 0 (aggregate_new 0))],
     sender_log = sender_logger_new EventPushed, serialize_next = 1\<rparr>"

lemma ex_mem_ok: "profile_ok (ex_mem a)" "serialize_next (ex_mem a) = length (aggregates (ex_mem a))"
  by (simp_all add: profile_ok_def ex_mem_def sender_logger_new_def ClearTopSenders_def)

subsection \<open>Properties\<close>

text \<open>
  C25: Incremental serialization equals serialization at once. With a buffer of at least 128 bytes a
  pass ends, calls the callback for every object in turn with buffers that fit, and the buffers of an object without their
  headers are, in order, its sender and exactly one entry for every aggregate that is not empty. Afterwards all aggregates
  are empty, and the list of objects can change again. Fuel of one more than the number of event types is enough.
\<close>

theorem gather_sends_everything:
  assumes "\<forall>a\<in>set (profile_list p). ready_to_send (E\<lparr>buffer_cap := nat (buffer_size p)\<rparr>) fuel (mem a)"
    and "128 \<le> buffer_size p" and "distinct (profile_list p)" and "next_profile_data p = -1"
  shows "\<exists>bufss mem'. ProfilerImpl_GatherNSend fuel E k p mem = Some (concat bufss, p, mem') \<and>
    list_all2 (sent_whole (E\<lparr>buffer_cap := nat (buffer_size p)\<rparr>)) bufss (map mem (profile_list p)) \<and>
    (\<forall>a\<in>set (profile_list p). emptied (mem a) (mem' a)) \<and> (\<forall>a. a \<notin> set (profile_list p) \<longrightarrow> mem' a = mem a)"
proof (rule GatherNSend_each [OF _ assms(3,4)])
  have "128 \<le> buffer_cap (E\<lparr>buffer_cap := nat (buffer_size p)\<rparr>)" using assms(2) by simp
  then show "\<forall>a\<in>set (profile_list p). \<forall>k. \<exists>bufs k' d.
      send_data fuel (E\<lparr>buffer_cap := nat (buffer_size p)\<rparr>) k (mem a) = Some (bufs, k', d) \<and>
      sent_whole (E\<lparr>buffer_cap := nat (buffer_size p)\<rparr>) bufs (mem a) \<and> emptied (mem a) d"
    using send_data_whole assms(1) by blast
qed

theorem gather_sends_everything_witness:
  "\<exists>bufss mem'. ProfilerImpl_GatherNSend 2 ex_env 0 (ex_profiler 508) ex_mem = Some (concat bufss, ex_profiler 508, mem') \<and>
    length bufss = 1 \<and> emptied (ex_mem 3) (mem' 3)"
proof -
  have "ready_to_send (ex_env\<lparr>buffer_cap := 508\<rparr>) 2 (ex_mem 3)"
    using ex_mem_ok by (simp add: ready_to_send_def ex_env_def ex_mem_def aggregate_new_def)
  with gather_sends_everything [of "ex_profiler 508" ex_env 2 ex_mem 0] show ?thesis
    by (fastforce simp: ex_profiler_def dest: list_all2_lengthD)
qed

text \<open>
  C26: The constructor accepts buffers from 64 bytes on, but with less than 64 bytes beyond the header of
  the first object to be sent a pass never ends. In a debug build its first assertion fails. In a release build nothing fails:
  after any number of iterations the loop has sent the header with the sender once and then the bare header again and
  again, no event with it, and asks for another iteration.
\<close>

theorem small_buffer_never_ends:
  assumes "profile_list p = a # as" and "next_profile_data p = -1" and "profile_ok (mem a)"
    and "serialize_next (mem a) = length (aggregates (mem a))" and "aggregates (mem a) \<noteq> []"
    and "64 \<le> buffer_size p" and "buffer_size p < 64 + int (length (group_header E (mem a)))"
  shows "profiler_impl_new True (buffer_size p) 0 \<noteq> None \<and>
    (debug E \<longrightarrow> GatherNSerialize (E\<lparr>buffer_cap := nat (buffer_size p)\<rparr>) k (mem a) = None) \<and>
    (\<not> debug E \<longrightarrow> (\<forall>n. \<exists>d'. send_iterations (Suc n) (E\<lparr>buffer_cap := nat (buffer_size p)\<rparr>) k (mem a) =
       Some ((group_header E (mem a) @ sender_part E (mem a)) # replicate n (group_header E (mem a)), True, k, d'))) \<and>
    (\<forall>fuel. ProfilerImpl_GatherNSend fuel E k p mem = None)"
proof -
  let ?E = "E\<lparr>buffer_cap := nat (buffer_size p)\<rparr>"
  have parts: "group_header ?E (mem a) = group_header E (mem a)" "sender_part ?E (mem a) = sender_part E (mem a)"
    by (simp_all add: group_header_def sender_part_def)
  have small: "buffer_cap ?E < 64 + length (group_header ?E (mem a))" using assms(6,7) unfolding parts by simp
  have "debug E \<longrightarrow> GatherNSerialize ?E k (mem a) = None" using small_buffer_fails [OF _ small] by simp
  moreover have "\<not> debug E \<longrightarrow> (\<forall>n. \<exists>d'. send_iterations (Suc n) ?E k (mem a) =
      Some ((group_header E (mem a) @ sender_part E (mem a)) # replicate n (group_header E (mem a)), True, k, d'))"
    using small_buffer_runs [OF assms(3-5) small] by (simp add: parts)
  moreover have "send_data fuel ?E k (mem a) = None" for fuel using stuck_from_start [OF assms(3-5) small] .
  then have "ProfilerImpl_GatherNSend fuel E k p mem = None" for fuel
    using assms(1,2) by (simp add: ProfilerImpl_GatherNSend_def compare_exchange_def)
  ultimately show ?thesis using assms(6) by (simp add: profiler_impl_new_def)
qed

theorem small_buffer_never_ends_witness:
  "profiler_impl_new True 72 0 \<noteq> None \<and> ProfilerImpl_GatherNSend 1000 ex_env 0 (ex_profiler 72) ex_mem = None \<and>
    (\<exists>bufs d'. send_iterations 1000 (ex_env\<lparr>buffer_cap := 72\<rparr>) 0 (ex_mem 3) = Some (bufs, True, 0, d') \<and> length bufs = 1000)"
proof -
  have "length (group_header ex_env (ex_mem 3)) = 10"
    by (simp add: group_header_def SerializeString_def put_string_def kMaxNameLength_def ex_env_def)
  then have h: "profile_list (ex_profiler 72) = 3 # []" "next_profile_data (ex_profiler 72) = -1" "aggregates (ex_mem 3) \<noteq> []"
    "64 \<le> buffer_size (ex_profiler 72)" "buffer_size (ex_profiler 72) < 64 + int (length (group_header ex_env (ex_mem 3)))"
    "buffer_size (ex_profiler 72) = 72" "nat 72 = 72" "\<not> debug ex_env"
    by (simp_all add: ex_profiler_def ex_mem_def ex_env_def)
  note t = small_buffer_never_ends [of "ex_profiler 72" 3 "[]" ex_mem ex_env 0, OF h(1,2) ex_mem_ok h(3-5), unfolded h(6,7)]
  obtain d' where "send_iterations (Suc 999) (ex_env\<lparr>buffer_cap := 72\<rparr>) 0 (ex_mem 3) =
      Some ((group_header ex_env (ex_mem 3) @ sender_part ex_env (ex_mem 3)) # replicate 999 (group_header ex_env (ex_mem 3)), True, 0, d')"
    using t h(8) by blast
  moreover have "Suc 999 = 1000" by simp
  ultimately have "\<exists>bufs d'. send_iterations 1000 (ex_env\<lparr>buffer_cap := 72\<rparr>) 0 (ex_mem 3) = Some (bufs, True, 0, d') \<and> length bufs = 1000"
    by (metis length_Cons length_replicate)
  with t show ?thesis by blast
qed

end
