(* ===== verification/Profiler_Facade.thy ===== *)
theory Profiler_Facade
  imports Profiler_Impl UDP_Connection
begin

text \<open>
  Model of \<^verbatim>\<open>include/pipert/Profiler.h\<close> and \<^verbatim>\<open>src/Profiler.cpp\<close>: the destination URI, the
  ownership of the connection, the file and the implementation, and the way of a buffer to its destination.

  The pointers to owned objects are options. The sender callback is the function that the constructor
  binds, with its bound argument. Results of the operating system are arguments as in \<open>UDP_Connection\<close>;
  \<open>opened\<close> is the stream that \<^verbatim>\<open>fopen\<close> returned, if any, and \<open>written\<close> what \<^verbatim>\<open>fwrite\<close> returns.
\<close>

subsection \<open>State\<close>

datatype sender_callback =
    Bound_SendToUDP udp_connection
  | Bound_SendToFile nat

record profiler =
  profiler_obj :: "(profiler_impl \<times> sender_callback) option"
  destination_file :: "nat option"
  udp_conn :: "udp_connection option"

record io =
  network :: net
  file_content :: "nat \<Rightarrow> byte list"
  open_files :: "nat set"

definition kNoDestination :: string where
  "kNoDestination = ''''"

definition kDestinationUDPScheme :: string where
  "kDestinationUDPScheme = ''udp:''"

definition kDestinationFileScheme :: string where
  "kDestinationFileScheme = ''file:''"

subsection \<open>Construction\<close>

text \<open>The address and the port of a UDP destination; the array for the address has 16 bytes.\<close>

definition parse_udp :: "string \<Rightarrow> (string \<times> int) option" where
  "parse_udp uri = do {
     let address = drop (length kDestinationUDPScheme) uri;
     assert_that (length address > 0);
     separator \<leftarrow> strstr address '':'';
     assert_that (separator > 0);
     let port = drop (separator + 1) address;
     assert_that (length port > 0);
     let port_num = atoi port;
     assert_that (port_num \<noteq> 0);
     assert_that (separator > 0 \<and> separator < 16);
     let addr = take 15 (take separator address);
     assert_that (length addr < 16);
     Some (addr, port_num)
   }"

definition default_packet_size :: int where
  "default_packet_size = 508"

definition default_polling_timeout :: int where
  "default_polling_timeout = 1000"

definition profiler_new ::
  "bool \<Rightarrow> int \<Rightarrow> (string \<Rightarrow> 32 word option) \<Rightarrow> udp_connection \<Rightarrow> nat option \<Rightarrow> string \<Rightarrow> int \<Rightarrow> int \<Rightarrow> io \<Rightarrow>
     (profiler \<times> io) option" where
  "profiler_new big fd aton raw opened destination_uri aggregation_time bytes w =
     (let p = \<lparr>profiler_obj = None, destination_file = None, udp_conn = None\<rparr> in
      if strstr destination_uri kDestinationUDPScheme = Some 0
      then do {
        (addr, port_num) \<leftarrow> parse_udp destination_uri;
        (u, n) \<leftarrow> udp_connect True big fd aton raw port_num addr default_packet_size default_polling_timeout (network w);
        assert_that (IsConnected u);
        let bytes' = (if bytes = 0 then 508 else bytes);
        i \<leftarrow> profiler_impl_new True bytes' aggregation_time;
        Some (p\<lparr>udp_conn := Some u, profiler_obj := Some (i, Bound_SendToUDP u)\<rparr>, w\<lparr>network := n\<rparr>)
      }
      else if strstr destination_uri kDestinationFileScheme = Some 0
      then do {
        let filename = drop (length kDestinationFileScheme) destination_uri;
        assert_that (length filename > 0);
        f \<leftarrow> opened;
        let bytes' = (if bytes = 0 then 4096 else bytes);
        i \<leftarrow> profiler_impl_new True bytes' aggregation_time;
        Some (p\<lparr>destination_file := Some f, profiler_obj := Some (i, Bound_SendToFile f)\<rparr>,
              w\<lparr>file_content := (file_content w)(f := []), open_files := insert f (open_files w)\<rparr>)
      }
      else Some (p, w))"

subsection \<open>Ownership\<close>

definition profiler_destroy :: "profiler \<Rightarrow> io \<Rightarrow> io option" where
  "profiler_destroy p w = do {
     let w1 = (case destination_file p of Some f \<Rightarrow> w\<lparr>open_files := open_files w - {f}\<rparr> | None \<Rightarrow> w);
     let w2 = (case udp_conn p of Some u \<Rightarrow> w1\<lparr>network := udp_destroy u (network w1)\<rparr> | None \<Rightarrow> w1);
     (case profiler_obj p of
        Some (i, f) \<Rightarrow> do { _ \<leftarrow> profiler_impl_destroy i; Some w2 }
      | None \<Rightarrow> Some w2)
   }"

text \<open>The object moved to and the object moved from, before and after.\<close>

definition profiler_Move :: "profiler \<Rightarrow> profiler \<Rightarrow> profiler \<times> profiler" where
  "profiler_Move p o' =
     (p\<lparr>profiler_obj := profiler_obj o', destination_file := destination_file o', udp_conn := udp_conn o'\<rparr>,
      o'\<lparr>profiler_obj := None, destination_file := None, udp_conn := None\<rparr>)"

definition profiler_move_new :: "profiler \<Rightarrow> profiler \<Rightarrow> profiler \<times> profiler" where
  "profiler_move_new raw o' = profiler_Move raw o'"

definition profiler_move_assign :: "profiler \<Rightarrow> profiler \<Rightarrow> profiler \<times> profiler" where
  "profiler_move_assign p o' = profiler_Move p o'"

definition profiler_GetAggregationTime :: "profiler \<Rightarrow> int" where
  "profiler_GetAggregationTime p = (case profiler_obj p of Some (i, _) \<Rightarrow> GetAggregationTime i | None \<Rightarrow> 0)"

definition profiler_GetBufferSize :: "profiler \<Rightarrow> int" where
  "profiler_GetBufferSize p = (case profiler_obj p of Some (i, _) \<Rightarrow> GetBufferSize i | None \<Rightarrow> 0)"

subsection \<open>Sending\<close>

definition SendToUDP :: "bool \<Rightarrow> udp_connection \<Rightarrow> byte list \<Rightarrow> net \<Rightarrow> net option" where
  "SendToUDP dbg u bs n = do {
     check dbg (length bs > 0);
     Send dbg bs u n
   }"

definition SendToFile :: "bool \<Rightarrow> nat \<Rightarrow> nat \<Rightarrow> byte list \<Rightarrow> io \<Rightarrow> io option" where
  "SendToFile dbg written f bs w = do {
     check dbg (length bs > 0);
     let w1 = w\<lparr>file_content := (file_content w)(f := file_content w f @ take written bs)\<rparr>;
     check dbg (written = length bs);
     Some w1
   }"

definition call_sender :: "bool \<Rightarrow> (byte list \<Rightarrow> nat) \<Rightarrow> sender_callback \<Rightarrow> byte list \<Rightarrow> io \<Rightarrow> io option" where
  "call_sender dbg fwrite cb bs w =
     (case cb of
        Bound_SendToUDP u \<Rightarrow> do { n \<leftarrow> SendToUDP dbg u bs (network w); Some (w\<lparr>network := n\<rparr>) }
      | Bound_SendToFile f \<Rightarrow> SendToFile dbg (fwrite bs) f bs w)"

fun deliver :: "bool \<Rightarrow> (byte list \<Rightarrow> nat) \<Rightarrow> sender_callback \<Rightarrow> byte list list \<Rightarrow> io \<Rightarrow> io option" where
  "deliver dbg fwrite cb [] w = Some w"
| "deliver dbg fwrite cb (bs # bufs) w = do { w' \<leftarrow> call_sender dbg fwrite cb bs w; deliver dbg fwrite cb bufs w' }"

definition profiler_GatherNSend ::
  "nat \<Rightarrow> serial_env \<Rightarrow> nat \<Rightarrow> (byte list \<Rightarrow> nat) \<Rightarrow> profiler \<Rightarrow> (addr \<Rightarrow> profile_data) \<Rightarrow> io \<Rightarrow>
     (profiler \<times> (addr \<Rightarrow> profile_data) \<times> io) option" where
  "profiler_GatherNSend fuel E k fwrite p mem w =
     (case profiler_obj p of
        Some (i, cb) \<Rightarrow> do {
          (bufs, i', mem') \<leftarrow> ProfilerImpl_GatherNSend fuel E k i mem;
          w' \<leftarrow> deliver (debug E) fwrite cb bufs w;
          Some (p\<lparr>profiler_obj := Some (i', cb)\<rparr>, mem', w')
        }
      | None \<Rightarrow> Some (p, mem, w))"

subsection \<open>Lemmas\<close>

lemma parse_udp_ok:
  assumes "CHR '':'' \<notin> set a" and "0 < length a" and "length a < 16" and "0 < port"
  shows "parse_udp (''udp:'' @ a @ '':'' @ decimal port) = Some (a, int port)"
proof -
  have s: "strstr (a @ CHR '':'' # decimal port) '':'' = Some (length a)" using assms(1) by (rule strstr_char)
  have d: "decimal port \<noteq> []" by (rule decimal_digits)
  show ?thesis using assms s d by (simp add: parse_udp_def kDestinationUDPScheme_def atoi_decimal)
qed

lemma deliver_udp:
  assumes "IsConnected u" and "\<forall>b\<in>set bufs. 0 < length b \<and> int (length b) \<le> max_packet_size u"
  shows "deliver dbg fw (Bound_SendToUDP u) bufs w =
    Some (w\<lparr>network := (network w)\<lparr>datagrams := datagrams (network w) @ map (Pair (remote_address u)) bufs\<rparr>\<rparr>)"
  using assms(2)
proof (induction bufs arbitrary: w)
  case (Cons b bufs)
  then show ?case using assms(1) by (simp add: call_sender_def SendToUDP_def Send_def check_def)
qed simp

lemma deliver_file:
  assumes "\<forall>b\<in>set bufs. 0 < length b \<and> fw b = length b"
  shows "deliver dbg fw (Bound_SendToFile f) bufs w =
    Some (w\<lparr>file_content := (file_content w)(f := file_content w f @ concat bufs)\<rparr>)"
  using assms
proof (induction bufs arbitrary: w)
  case (Cons b bufs)
  then show ?case by (simp add: call_sender_def SendToFile_def check_def cong: if_cong)
qed simp

lemma sent_whole_sizes:
  assumes "sent_whole E bufs d" and "b \<in> set bufs"
  shows "5 \<le> length b" "length b \<le> buffer_cap E"
proof -
  have b: "length b \<le> buffer_cap E" "take (length (group_header E d)) b = group_header E d"
    using assms by (auto simp: sent_whole_def)
  have "length (group_header E d) = min (length b) (length (group_header E d))"
    using arg_cong [OF b(2), of length] by simp
  then show "5 \<le> length b" using length_group_header(2) [of E d] by simp
  show "length b \<le> buffer_cap E" by (rule b(1))
qed

text \<open>A pass over UDP, given what holds of the buffers of every single object.\<close>

lemma udp_pass_each:
  assumes "profiler_obj p = Some (i, Bound_SendToUDP u)" and "IsConnected u"
    and each: "\<forall>a\<in>set (profile_list i). \<forall>k. \<exists>bufs k' d.
      send_data fuel (E\<lparr>buffer_cap := nat (buffer_size i)\<rparr>) k (mem a) = Some (bufs, k', d) \<and> P bufs (mem a) \<and> Q (mem a) d"
    and fits: "\<forall>bufs d. P bufs d \<longrightarrow> (\<forall>b\<in>set bufs. 0 < length b \<and> int (length b) \<le> max_packet_size u)"
    and "distinct (profile_list i)" and "next_profile_data i = -1"
  shows "\<exists>bufss mem' w'. profiler_GatherNSend fuel E k fw p mem w = Some (p, mem', w') \<and>
    datagrams (network w') = datagrams (network w) @ map (Pair (remote_address u)) (concat bufss) \<and>
    list_all2 P bufss (map mem (profile_list i)) \<and> (\<forall>a\<in>set (profile_list i). Q (mem a) (mem' a))"
proof -
  from GatherNSend_each [OF each assms(5,6), of k] obtain bufss mem' where
    g: "ProfilerImpl_GatherNSend fuel E k i mem = Some (concat bufss, i, mem')"
      "list_all2 P bufss (map mem (profile_list i))" "\<forall>a\<in>set (profile_list i). Q (mem a) (mem' a)" by blast
  have "0 < length b \<and> int (length b) \<le> max_packet_size u" if b: "b \<in> set (concat bufss)" for b
  proof -
    from b obtain bufs where bufs: "bufs \<in> set bufss" "b \<in> set bufs" by auto
    then obtain d where "P bufs d" using g(2) by (metis in_set_conv_nth list_all2_conv_all_nth)
    with fits bufs(2) show ?thesis by blast
  qed
  then have "deliver (debug E) fw (Bound_SendToUDP u) (concat bufss) w =
      Some (w\<lparr>network := (network w)\<lparr>datagrams := datagrams (network w) @ map (Pair (remote_address u)) (concat bufss)\<rparr>\<rparr>)"
    by (intro deliver_udp [OF assms(2)] ballI)
  moreover have "p\<lparr>profiler_obj := Some (i, Bound_SendToUDP u)\<rparr> = p" using assms(1) by simp
  ultimately have "profiler_GatherNSend fuel E k fw p mem w = Some (p, mem',
      w\<lparr>network := (network w)\<lparr>datagrams := datagrams (network w) @ map (Pair (remote_address u)) (concat bufss)\<rparr>\<rparr>)"
    using assms(1) g(1) by (simp add: profiler_GatherNSend_def)
  with g(2,3) show ?thesis by fastforce
qed

subsection \<open>Properties\<close>

text \<open>
  A destination written as scheme, address, colon and port is taken apart into the same address and
  port, for every address of 1 to 15 characters without a colon and every positive port.
\<close>

theorem udp_destination_round_trip:
  assumes "CHR '':'' \<notin> set a" and "0 < length a" and "length a < 16" and "0 < port"
  shows "parse_udp (''udp:'' @ a @ '':'' @ decimal port) = Some (a, int port)"
  using assms by (rule parse_udp_ok)

theorem udp_destination_round_trip_witness:
  "parse_udp (''udp:'' @ ''127.0.0.1'' @ '':'' @ decimal 8000) = Some (''127.0.0.1'', 8000)"
  using udp_destination_round_trip [of "''127.0.0.1''" 8000] by simp

text \<open>
  Profiling over UDP from end to end. If the buffer has at least 128 bytes and no more than the
  connection's packets, a pass hands every buffer of every channel to the network as one datagram to the destination, in
  order, and no assertion of the serializer, the profiler or the connection fails on the way.
\<close>

theorem profiler_over_udp:
  assumes "profiler_obj p = Some (i, Bound_SendToUDP u)" and "IsConnected u"
    and "128 \<le> buffer_size i" and "buffer_size i \<le> max_packet_size u"
    and "\<forall>a\<in>set (profile_list i). ready_to_send (E\<lparr>buffer_cap := nat (buffer_size i)\<rparr>) fuel (mem a)"
    and "distinct (profile_list i)" and "next_profile_data i = -1"
  shows "\<exists>bufss mem' w'. profiler_GatherNSend fuel E k fw p mem w = Some (p, mem', w') \<and>
    datagrams (network w') = datagrams (network w) @ map (Pair (remote_address u)) (concat bufss) \<and>
    list_all2 (sent_whole (E\<lparr>buffer_cap := nat (buffer_size i)\<rparr>)) bufss (map mem (profile_list i)) \<and>
    (\<forall>a\<in>set (profile_list i). emptied (mem a) (mem' a))"
proof (rule udp_pass_each [OF assms(1,2) _ _ assms(6,7)])
  let ?E = "E\<lparr>buffer_cap := nat (buffer_size i)\<rparr>"
  have "128 \<le> buffer_cap ?E" using assms(3) by simp
  then show "\<forall>a\<in>set (profile_list i). \<forall>k. \<exists>bufs k' d.
      send_data fuel ?E k (mem a) = Some (bufs, k', d) \<and> sent_whole ?E bufs (mem a) \<and> emptied (mem a) d"
    using send_data_whole assms(5) by blast
next
  have "0 < length b \<and> int (length b) \<le> max_packet_size u"
    if "sent_whole (E\<lparr>buffer_cap := nat (buffer_size i)\<rparr>) bufs d" and "b \<in> set bufs" for bufs d b
    using sent_whole_sizes [OF that] assms(3,4) by (cases b) simp_all
  then show "\<forall>bufs d. sent_whole (E\<lparr>buffer_cap := nat (buffer_size i)\<rparr>) bufs d \<longrightarrow>
      (\<forall>b\<in>set bufs. 0 < length b \<and> int (length b) \<le> max_packet_size u)" by blast
qed

definition ex_io :: io where
  "ex_io = \<lparr>network = \<lparr>open_fds = {3}, fd_flags = (\<lambda>_. 0), mtu_discover = {}, datagrams = []\<rparr>, file_content = (\<lambda>_. []),
     open_files = {}\<rparr>"

theorem profiler_over_udp_witness:
  "\<exists>bufss mem' w'. profiler_GatherNSend 2 ex_env 0 length
      \<lparr>profiler_obj = Some (ex_profiler 508, Bound_SendToUDP ex_udp), destination_file = None, udp_conn = Some ex_udp\<rparr> ex_mem ex_io =
      Some (\<lparr>profiler_obj = Some (ex_profiler 508, Bound_SendToUDP ex_udp), destination_file = None, udp_conn = Some ex_udp\<rparr>, mem', w') \<and>
    length bufss = 1 \<and> datagrams (network w') = map (Pair (remote_address ex_udp)) (concat bufss)"
proof -
  have r: "ready_to_send (ex_env\<lparr>buffer_cap := 508\<rparr>) 2 (ex_mem 3)"
    using ex_mem_ok by (simp add: ready_to_send_def ex_env_def ex_mem_def aggregate_new_def)
  let ?p = "\<lparr>profiler_obj = Some (ex_profiler 508, Bound_SendToUDP ex_udp), destination_file = None, udp_conn = Some ex_udp\<rparr>"
  have "IsConnected ex_udp" by (simp add: IsConnected_def ex_udp_def)
  with profiler_over_udp [of ?p "ex_profiler 508" ex_udp ex_env 2 ex_mem 0 length ex_io] r obtain bufss mem' w' where
    g: "profiler_GatherNSend 2 ex_env 0 length ?p ex_mem ex_io = Some (?p, mem', w')"
    "datagrams (network w') = datagrams (network ex_io) @ map (Pair (remote_address ex_udp)) (concat bufss)"
    "list_all2 (sent_whole (ex_env\<lparr>buffer_cap := 508\<rparr>)) bufss (map ex_mem (profile_list (ex_profiler 508)))"
    by (auto simp: ex_profiler_def ex_udp_def)
  from list_all2_lengthD [OF g(3)] have "length bufss = 1" by (simp add: ex_profiler_def)
  with g(1,2) show ?thesis by (auto simp: ex_io_def)
qed

end
