(* ===== verification/Scheduler_Facade.thy ===== *)
theory Scheduler_Facade
  imports Channel_Facade Profiler_Facade
begin

text \<open>
  Model of \<^verbatim>\<open>include/pipert/Scheduler.h\<close> and \<^verbatim>\<open>src/Scheduler.cpp\<close>, and of
  \<^verbatim>\<open>include/pipert/Receiver.h\<close> with \<^verbatim>\<open>ReceiverBase.h\<close>.

  There is one scheduler implementation, the one in the pipeline of the \<open>objects\<close>; a front has its
  \<^verbatim>\<open>impl_\<close> as long as it is \<open>alive\<close>. The addresses of new objects (the implementation, its pool,
  its ProfileData, the channel object) are arguments, and so is the datagram that a receiving call finds.
\<close>

subsection \<open>The front\<close>

record sched_front =
  alive :: bool
  front_profiler :: profiler

text \<open>\<open>hw\<close> is \<^verbatim>\<open>hardware_concurrency()\<close>; the profiler is moved into the front.\<close>

definition Scheduler_new ::
  "nat \<Rightarrow> profiler \<Rightarrow> int \<Rightarrow> profiler \<Rightarrow> objects \<Rightarrow> (sched_front \<times> profiler \<times> objects) option" where
  "Scheduler_new hw raw worker_num prof s =
     (case profiler_move_new raw prof of (p, prof') \<Rightarrow> do {
        sc \<leftarrow> scheduler_new (if worker_num \<le> 0 then hw else nat worker_num) (profiler_obj p \<noteq> None);
        Some (\<lparr>alive = True, front_profiler = p\<rparr>, prof', s\<lparr>pipe_of := (pipe_of s)\<lparr>sched := sc\<rparr>\<rparr>)
      })"

text \<open>A call of a function of the implementation, with the assertion that there is one.\<close>

definition on_impl :: "(scheduler \<Rightarrow> scheduler option) \<Rightarrow> sched_front \<Rightarrow> objects \<Rightarrow> objects option" where
  "on_impl f F s = do {
     assert_that (alive F);
     sc \<leftarrow> f (sched (pipe_of s));
     Some (s\<lparr>pipe_of := (pipe_of s)\<lparr>sched := sc\<rparr>\<rparr>)
   }"

definition Scheduler_destroy :: "bool \<Rightarrow> sched_front \<Rightarrow> objects \<Rightarrow> io \<Rightarrow> (sched_front \<times> objects \<times> io) option" where
  "Scheduler_destroy dbg F s w = do {
     s1 \<leftarrow> on_impl (scheduler_destroy dbg) F s;
     w1 \<leftarrow> profiler_destroy (front_profiler F) w;
     Some (F\<lparr>alive := False\<rparr>, s1, w1)
   }"

definition Scheduler_Start :: "bool \<Rightarrow> sched_front \<Rightarrow> objects \<Rightarrow> objects option" where
  "Scheduler_Start dbg F s = on_impl (Start dbg) F s"

definition Scheduler_Stop :: "bool \<Rightarrow> sched_front \<Rightarrow> objects \<Rightarrow> objects option" where
  "Scheduler_Stop dbg F s = on_impl (Stop dbg) F s"

definition Scheduler_SetStateInvalid :: "bool \<Rightarrow> sched_front \<Rightarrow> objects \<Rightarrow> objects option" where
  "Scheduler_SetStateInvalid dbg F s = on_impl (SetStateInvalid dbg) F s"

definition Scheduler_IsRunning :: "sched_front \<Rightarrow> objects \<Rightarrow> bool option" where
  "Scheduler_IsRunning F s = do { assert_that (alive F); Some (running (sched (pipe_of s))) }"

definition Scheduler_GetWorkerNumber :: "sched_front \<Rightarrow> objects \<Rightarrow> nat option" where
  "Scheduler_GetWorkerNumber F s = do { assert_that (alive F); Some (workers_number (sched (pipe_of s))) }"

definition Scheduler_GetProfiler :: "sched_front \<Rightarrow> profiler" where
  "Scheduler_GetProfiler F = front_profiler F"

definition Scheduler_AddReceiver :: "addr \<Rightarrow> sched_front \<Rightarrow> objects \<Rightarrow> objects option" where
  "Scheduler_AddReceiver r F s = on_impl (AddReceiver r) F s"

subsection \<open>Creating channels\<close>

text \<open>The addresses of what is allocated: the pool, the ProfileData, the implementation, the object.\<close>

record fresh =
  new_pool :: addr
  new_profile_data :: addr
  new_impl :: addr
  new_object :: addr

definition CreateChannelImpl ::
  "fresh \<Rightarrow> cptr \<Rightarrow> nat \<Rightarrow> nat \<Rightarrow> addr \<Rightarrow> bool \<Rightarrow> sched_front \<Rightarrow> objects \<Rightarrow> objects option" where
  "CreateChannelImpl A name capacity psize single_thread has_cb F s = do {
     assert_that (alive F);
     w \<leftarrow> ChannelImpl_new name capacity psize single_thread has_cb (new_pool A) (new_profile_data A) (new_impl A) (pipe_of s);
     Some (s\<lparr>pipe_of := w\<rparr>)
   }"

definition CreatePolledChannel :: "fresh \<Rightarrow> nat \<Rightarrow> cptr \<Rightarrow> nat \<Rightarrow> sched_front \<Rightarrow> objects \<Rightarrow> objects option" where
  "CreatePolledChannel A psize name capacity F s = do {
     s1 \<leftarrow> CreateChannelImpl A name capacity psize nullptr False F s;
     PolledChannel_new (new_object A) (new_impl A) s1
   }"

definition CreateScheduledChannel ::
  "fresh \<Rightarrow> nat \<Rightarrow> cptr \<Rightarrow> nat \<Rightarrow> addr \<Rightarrow> nat \<Rightarrow> sched_front \<Rightarrow> objects \<Rightarrow> objects option" where
  "CreateScheduledChannel A psize name capacity single_thread callback F s = do {
     s1 \<leftarrow> CreateChannelImpl A name capacity psize single_thread True F s;
     ScheduledChannel_new (new_object A) (new_impl A) (UserFunction callback) s1
   }"

definition CreateSenderChannel ::
  "bool \<Rightarrow> bool \<Rightarrow> compat \<Rightarrow> compat \<Rightarrow> byte list \<Rightarrow> (sock_addr \<times> byte list) option \<Rightarrow>
     fresh \<Rightarrow> nat \<Rightarrow> cptr \<Rightarrow> nat \<Rightarrow> addr \<Rightarrow> sched_front \<Rightarrow> objects \<Rightarrow> objects option" where
  "CreateSenderChannel dbg big host raw junk answer A psize name capacity connection F s = do {
     let (r, n) = SetBlockingMode False (udp_at s connection) (net_of s);
     (ok, u, n1) \<leftarrow> SenderSideHandshake dbg big host raw junk answer (udp_at s connection) n;
     let s1 = s\<lparr>net_of := n1, udp_at := (udp_at s)(connection := u)\<rparr>;
     s2 \<leftarrow> (if \<not> ok then Scheduler_SetStateInvalid dbg F s1 else Some s1);
     s3 \<leftarrow> CreateChannelImpl A name capacity psize nullptr True F s2;
     SenderChannel_new (new_object A) (new_impl A) connection s3
   }"

subsection \<open>Receivers\<close>

record receiver =
  recv_connection :: addr
  recv_joinable :: bool
  recv_running :: bool
  ch_to_write :: addr

text \<open>\<open>this\<close> is the address of the receiver, \<open>running0\<close> what its flag holds before the constructor.\<close>

definition Receiver_new ::
  "bool \<Rightarrow> bool \<Rightarrow> compat \<Rightarrow> compat \<Rightarrow> byte list \<Rightarrow> (sock_addr \<times> byte list) option \<Rightarrow>
     bool \<Rightarrow> addr \<Rightarrow> addr \<Rightarrow> addr \<Rightarrow> sched_front \<Rightarrow> objects \<Rightarrow> (receiver \<times> objects) option" where
  "Receiver_new dbg big host raw junk request running0 this connection ch F s = do {
     let r = \<lparr>recv_connection = connection, recv_joinable = False, recv_running = running0, ch_to_write = ch\<rparr>;
     (ok, u, n1) \<leftarrow> ReceiverSideHandshake dbg big host raw junk request (udp_at s connection) (net_of s);
     let s1 = s\<lparr>net_of := n1, udp_at := (udp_at s)(connection := u)\<rparr>;
     s2 \<leftarrow> (if ok then Scheduler_AddReceiver this F s1 else Scheduler_SetStateInvalid dbg F s1);
     Some (r, s2)
   }"

definition Receiver_Start :: "bool \<Rightarrow> receiver \<Rightarrow> receiver option" where
  "Receiver_Start dbg r = do {
     check dbg (\<not> recv_running r);
     if recv_running r then Some r
     else Some (r\<lparr>recv_running := True, recv_joinable := True\<rparr>)
   }"

text \<open>The join returns when the loop below has seen the flag.\<close>

definition Receiver_Stop :: "bool \<Rightarrow> receiver \<Rightarrow> receiver option" where
  "Receiver_Stop dbg r = do {
     check dbg (recv_running r);
     if \<not> recv_running r then Some r
     else Some (r\<lparr>recv_running := False, recv_joinable := False\<rparr>)
   }"

text \<open>
  What happens around one iteration of the receiver's loop: the load of the flag, the result of
  polling, the memory of the new packet object, the datagram, and the clock when the packet is acquired and when
  the temporary stub is destroyed.
\<close>

record recv_event =
  ev_running :: bool
  ev_polled :: int
  ev_memory :: "byte list"
  ev_datagram :: "(sock_addr \<times> byte list) option"
  ev_acquired :: time
  ev_pushed :: time

definition receive_one :: "bool \<Rightarrow> bool \<Rightarrow> recv_event \<Rightarrow> receiver \<Rightarrow> objects \<Rightarrow> objects option" where
  "receive_one dbg big e r s =
     (if udp_Poll (ev_polled e) (udp_at s (recv_connection r)) > 0
      then do {
        (n, buf, u) \<leftarrow> Receive dbg (ev_datagram e) (ev_memory e) (udp_at s (recv_connection r));
        let s1 = s\<lparr>udp_at := (udp_at s)(recv_connection r := u)\<rparr>;
        (k, s2) \<leftarrow> Channel_Acquire (ev_acquired e) (sint (network_packet_timestamp big buf)) (network_packet_data buf)
                    (ch_to_write r) s1;
        PacketToFill_destroy (ev_pushed e) k s2
      }
      else Some s)"

fun ReceivePacket :: "bool \<Rightarrow> bool \<Rightarrow> recv_event list \<Rightarrow> receiver \<Rightarrow> objects \<Rightarrow> objects option" where
  "ReceivePacket dbg big [] r s = None"
| "ReceivePacket dbg big (e # es) r s =
     (if ev_running e
      then do { s1 \<leftarrow> receive_one dbg big e r s; ReceivePacket dbg big es r s1 }
      else Some s)"

subsection \<open>Lemmas\<close>

lemma sint_word_of_time: "- (2 ^ 63) \<le> x \<Longrightarrow> x < 2 ^ 63 \<Longrightarrow> sint (word_of_int x :: 64 word) = x"
  unfolding sint_sbintrunc' by (rule signed_take_bit_int_eq_self) simp_all

lemma network_packet_read:
  "network_packet_timestamp big (network_packet_bytes big ts op d) = ts"
  "network_packet_data (network_packet_bytes big ts op d) = d"
  by (simp_all add: network_packet_timestamp_def network_packet_bytes_def network_packet_data_def read_64_def
      load_store_64 del: length_store)

lemma length_network_packet: "length (network_packet_bytes big ts op d) = 16 + length d"
  by (simp add: network_packet_bytes_def del: length_store)

lemma receive_one_ok:
  assumes o: "owns s (ch_to_write r) x" and free: "free_packets (chan (pipe_of s) x) = fs @ [p]"
    and u: "UDP_Connection.IsConnected (udp_at s (recv_connection r))" "0 < ev_polled e"
    and d: "ev_datagram e = Some (a, network_packet_bytes big (word_of_int ts) op d)"
      "length (ev_memory e) = 16 + length d" "int (16 + length d) \<le> max_packet_size (udp_at s (recv_connection r))"
    and t: "- (2 ^ 63) \<le> ts" "ts \<le> ev_pushed e" "ev_acquired e \<le> ev_pushed e" "ev_pushed e < kMaxTime"
  shows "\<exists>s'. receive_one dbg big e r s = Some s' \<and> owns s' (ch_to_write r) x \<and>
    queued_set (chan (pipe_of s') x) = insert p (queued_set (chan (pipe_of s) x)) \<and>
    free_packets (chan (pipe_of s') x) = fs \<and>
    packet_time (chan (pipe_of s') x) = (packet_time (chan (pipe_of s) x))(p := ts) \<and> data_at s' = (data_at s)(p := d) \<and>
    udp_at s' (recv_connection r) = (udp_at s (recv_connection r))\<lparr>remote_address := a\<rparr> \<and> frame x s (s'\<lparr>udp_at := udp_at s\<rparr>)"
proof -
  let ?c = "recv_connection r" and ?bs = "network_packet_bytes big (word_of_int ts) op d"
  have "ts < 2 ^ 63" using t(2,4) by (simp add: kMaxTime_def)
  then have ts: "sint (word_of_int ts :: 64 word) = ts" using t(1) by (intro sint_word_of_time)
  have rcv: "Receive dbg (Some (a, ?bs)) (ev_memory e) (udp_at s ?c) =
      Some (int (length ?bs), ?bs, (udp_at s ?c)\<lparr>remote_address := a\<rparr>)"
    using Receive_ok(2) [OF u(1), of "ev_memory e" ?bs dbg a] d(2,3) by (simp add: length_network_packet)
  let ?s1 = "s\<lparr>udp_at := (udp_at s)(?c := (udp_at s ?c)\<lparr>remote_address := a\<rparr>)\<rparr>"
  have o1: "owns ?s1 (ch_to_write r) x" using o by (simp add: owns_def)
  have f1: "free_packets (chan (pipe_of ?s1) x) = fs @ [p]" using free by simp
  from Channel_Acquire_ok [OF o1 f1, of "ev_acquired e" ts d] obtain s2 where
    s2: "Channel_Acquire (ev_acquired e) ts d (ch_to_write r) ?s1 = Some (stub_new p (ch_to_write r), s2)"
    "owns s2 (ch_to_write r) x" "in_transit (pipe_of s2) x p" "free_packets (chan (pipe_of s2) x) = fs"
    "queued_set (chan (pipe_of s2) x) = queued_set (chan (pipe_of ?s1) x)" "op_time (chan (pipe_of s2) x) p = ev_acquired e"
    "packet_time (chan (pipe_of s2) x) = (packet_time (chan (pipe_of ?s1) x))(p := ts)" "data_at s2 = (data_at ?s1)(p := d)"
    "frame x ?s1 s2" by blast
  have k: "stub_channel (stub_new p (ch_to_write r)) = ch_to_write r" "stub_packet (stub_new p (ch_to_write r)) = p"
    by (simp_all add: stub_new_def)
  have pt: "packet_time (chan (pipe_of s2) x) p = ts" "data_at s2 p = d" using s2(7,8) by simp_all
  from PacketToFill_destroy_ok [OF s2(2,3) _ _ t(4) k] pt(1) s2(6) t(2,3) obtain s3 where
    s3: "PacketToFill_destroy (ev_pushed e) (stub_new p (ch_to_write r)) s2 = Some s3" "owns s3 (ch_to_write r) x"
    "queued_set (chan (pipe_of s3) x) = insert p (queued_set (chan (pipe_of s2) x))"
    "free_packets (chan (pipe_of s3) x) = free_packets (chan (pipe_of s2) x)"
    "packet_time (chan (pipe_of s3) x) = packet_time (chan (pipe_of s2) x)" "data_at s3 = data_at s2"
    "frame x s2 s3" by auto
  have fr: "frame x ?s1 s3" using s2(9) s3(7) by (rule frame_trans)
  then have "frame x s (s3\<lparr>udp_at := udp_at s\<rparr>)" "udp_at s3 = udp_at ?s1" by (simp_all add: frame_def)
  have "receive_one dbg big e r s = Some s3"
    using u d(1) rcv s2(1) s3(1) by (simp add: receive_one_def udp_Poll_def network_packet_read ts Let_def)
  with s3 s2(4,5,7,8) \<open>frame x s (s3\<lparr>udp_at := udp_at s\<rparr>)\<close> \<open>udp_at s3 = udp_at ?s1\<close> show ?thesis
    by (intro exI [of _ s3]) simp
qed

text \<open>A channel created through the front is registered, owned by its object and empty.\<close>

lemma CreatePolledChannel_ok:
  assumes "alive F" and "pipeline_inv (pipe_of s)" and "\<not> running (sched (pipe_of s))"
    and "new_impl A \<notin> set (channels (sched (pipe_of s)))" and "new_impl A \<noteq> nullptr" and "new_object A \<noteq> nullptr"
    and "capacity * psize < 2 ^ 31" and "new_pool A \<noteq> nullptr" and "0 < psize"
  shows "\<exists>s'. CreatePolledChannel A psize name capacity F s = Some s' \<and> owns s' (new_object A) (new_impl A) \<and>
    channels (sched (pipe_of s')) = channels (sched (pipe_of s)) @ [new_impl A] \<and>
    (\<forall>b. b \<noteq> new_object A \<longrightarrow> impl_at s' b = impl_at s b)"
proof -
  from ChannelImpl_new_ok [OF assms(2-4,7-9), of name nullptr False "new_profile_data A"] obtain w where
    w: "ChannelImpl_new name capacity psize nullptr False (new_pool A) (new_profile_data A) (new_impl A) (pipe_of s) = Some w"
    "pipeline_inv w" "channels (sched w) = channels (sched (pipe_of s)) @ [new_impl A]" by blast
  have x: "new_impl A \<in> set (channels (sched w))" using w(3) by simp
  let ?s = "set_base (new_impl A) (new_object A) (s\<lparr>pipe_of := w, impl_at := (impl_at s)(new_object A := new_impl A)\<rparr>)"
  have "CreatePolledChannel A psize name capacity F s = Some ?s"
    using assms(1,5) w(1) by (simp add: CreatePolledChannel_def CreateChannelImpl_def PolledChannel_new_def ChannelBase_new_def)
  moreover have "owns ?s (new_object A) (new_impl A)"
    using assms(5,6) x SetBase_ok [OF w(2) x, of "new_object A"] by (simp add: owns_def set_base_def)
  ultimately show ?thesis using w(3) by (simp add: set_base_def)
qed

subsection \<open>One hop over the network\<close>

text \<open>
  A packet that a sender channel is given is one datagram; when a receiver
  on a computer of the same byte order takes that datagram from its socket, exactly one packet is queued in the channel
  it writes to, with the timestamp and the data that the packet had at the sender, while the sender's packet is free again.
\<close>

theorem network_hop:
  assumes "owns s b x" and "in_transit (pipe_of s) x p" and "op_time (chan (pipe_of s) x) p \<le> t"
    and "handlers s b = Some (BoundSendPacket b)" and "connections s b = Some c"
    and "UDP_Connection.IsConnected (udp_at s c)" and "int (16 + length (data_at s p)) \<le> max_packet_size (udp_at s c)"
    and "- (2 ^ 63) \<le> packet_time (chan (pipe_of s) x) p"
    and "owns r (ch_to_write rcv) y" and "free_packets (chan (pipe_of r) y) = fs @ [q]"
    and "UDP_Connection.IsConnected (udp_at r (recv_connection rcv))" and "0 < ev_polled e"
    and "length (ev_memory e) = 16 + length (data_at s p)"
    and "int (16 + length (data_at s p)) \<le> max_packet_size (udp_at r (recv_connection rcv))"
    and "packet_time (chan (pipe_of s) x) p \<le> ev_pushed e" and "ev_acquired e \<le> ev_pushed e" and "ev_pushed e < kMaxTime"
    and "bs = network_packet_bytes big (word_of_int (packet_time (chan (pipe_of s) x) p)) op (data_at s p)"
  shows "\<exists>s'. CallbackTranslator user dbg big op t b p s = Some s' \<and>
    datagrams (net_of s') = datagrams (net_of s) @ [(remote_address (udp_at s c), bs)] \<and>
    p \<in> set (free_packets (chan (pipe_of s') x)) \<and>
    (ev_datagram e = Some (a, bs) \<longrightarrow>
      (\<exists>r'. receive_one dbg big e rcv r = Some r' \<and>
         queued_set (chan (pipe_of r') y) = insert q (queued_set (chan (pipe_of r) y)) \<and>
         packet_time (chan (pipe_of r') y) q = packet_time (chan (pipe_of s) x) p \<and> data_at r' q = data_at s p))"
proof -
  let ?bs = "network_packet_bytes big (word_of_int (packet_time (chan (pipe_of s) x) p)) op (data_at s p)"
  have nn: "b \<noteq> nullptr" using assms(1) by (simp add: owns_def)
  from SendPacket_ok [OF assms(1-3,5-7), of dbg big op] nn assms(4) obtain s' where
    s': "CallbackTranslator user dbg big op t b p s = Some s'"
    "free_packets (chan (pipe_of s') x) = free_packets (chan (pipe_of s) x) @ [p]"
    "datagrams (net_of s') = datagrams (net_of s) @ [(remote_address (udp_at s c), ?bs)]"
    by (auto simp: CallbackTranslator_def call_handler_def PacketToProcess_new_def)
  have "\<exists>r'. receive_one dbg big e rcv r = Some r' \<and>
         queued_set (chan (pipe_of r') y) = insert q (queued_set (chan (pipe_of r) y)) \<and>
         packet_time (chan (pipe_of r') y) q = packet_time (chan (pipe_of s) x) p \<and> data_at r' q = data_at s p"
    if "ev_datagram e = Some (a, ?bs)"
    using receive_one_ok [OF assms(9-12) that assms(13,14,8,15-17), of dbg] by auto
  with s' assms(18) show ?thesis by auto
qed

definition ex_bytes :: "byte list" where
  "ex_bytes = network_packet_bytes False 3 0 [7]"

definition ex_event :: recv_event where
  "ex_event = \<lparr>ev_running = True, ev_polled = 1, ev_memory = replicate 17 0,
     ev_datagram = Some (\<lparr>sin_port = 1, sin_addr = 2\<rparr>, ex_bytes), ev_acquired = 8, ev_pushed = 9\<rparr>"

definition ex_receiver :: receiver where
  "ex_receiver = \<lparr>recv_connection = 9, recv_joinable = True, recv_running = True, ch_to_write = 41\<rparr>"

theorem network_hop_witness:
  "\<exists>s' r'. CallbackTranslator (\<lambda>_ _ _. None) True False 0 5 40 1000 ex_sender = Some s' \<and>
    datagrams (net_of s') = [(remote_address ex_udp, ex_bytes)] \<and> receive_one True False ex_event ex_receiver ex_objects = Some r' \<and>
    queued_set (chan (pipe_of r') 22) = {2000} \<and> packet_time (chan (pipe_of r') 22) 2000 = 3 \<and> data_at r' 2000 = [7]"
proof -
  have own: "owns ex_sender 40 21" using ex_filling_facts(1,7) by (simp add: owns_def ex_sender_def nullptr_def)
  have tr: "in_transit (pipe_of ex_sender) 21 1000" "op_time (chan (pipe_of ex_sender) 21) 1000 \<le> 5"
    using ex_filling_facts(2,5) by (simp_all add: ex_sender_def)
  have c: "handlers ex_sender 40 = Some (BoundSendPacket 40)" "connections ex_sender 40 = Some 9"
    "UDP_Connection.IsConnected (udp_at ex_sender 9)"
    "int (16 + length (data_at ex_sender 1000)) \<le> max_packet_size (udp_at ex_sender 9)"
    by (simp_all add: ex_sender_def ex_udp_def UDP_Connection.IsConnected_def)
  have time: "packet_time (chan (pipe_of ex_sender) 21) 1000 = 3" and data: "data_at ex_sender 1000 = [7]"
    using ex_filling_facts(6) by (simp_all add: ex_sender_def)
  have own2: "owns ex_objects (ch_to_write ex_receiver) 22" using ex_objects_owns by (simp add: ex_receiver_def)
  have free: "free_packets (chan (pipe_of ex_objects) 22) = [] @ [2000]" "queued_set (chan (pipe_of ex_objects) 22) = {}"
    using ex_built_chan(2) ex_two_chan(2,3) by (simp_all add: ex_objects_def)
  have u: "UDP_Connection.IsConnected (udp_at ex_objects (recv_connection ex_receiver))"
    "max_packet_size (udp_at ex_objects (recv_connection ex_receiver)) = 508" "udp_at ex_sender 9 = ex_udp"
    "datagrams (net_of ex_sender) = []"
    by (simp_all add: ex_objects_def ex_sender_def ex_udp_def UDP_Connection.IsConnected_def ex_net_def)
  have ev: "0 < ev_polled ex_event" "length (ev_memory ex_event) = 16 + length (data_at ex_sender 1000)"
    "packet_time (chan (pipe_of ex_sender) 21) 1000 \<le> ev_pushed ex_event" "ev_acquired ex_event \<le> ev_pushed ex_event"
    "ev_pushed ex_event < kMaxTime" "- (2 ^ 63) \<le> packet_time (chan (pipe_of ex_sender) 21) 1000"
    "int (16 + length (data_at ex_sender 1000)) \<le> max_packet_size (udp_at ex_objects (recv_connection ex_receiver))"
    using time data u(2) by (simp_all add: ex_event_def kMaxTime_def)
  have bytes: "ex_bytes = network_packet_bytes False (word_of_int (packet_time (chan (pipe_of ex_sender) 21) 1000)) 0 (data_at ex_sender 1000)"
    by (simp only: time data ex_bytes_def) simp
  from network_hop [OF own tr c ev(6) own2 free(1) u(1) ev(1,2,7,3,4,5) bytes, of "\<lambda>_ _ _. None" True "\<lparr>sin_port = 1, sin_addr = 2\<rparr>"]
  obtain s' where s': "CallbackTranslator (\<lambda>_ _ _. None) True False 0 5 40 1000 ex_sender = Some s'"
    "datagrams (net_of s') = datagrams (net_of ex_sender) @ [(remote_address (udp_at ex_sender 9), ex_bytes)]"
    "ev_datagram ex_event = Some (\<lparr>sin_port = 1, sin_addr = 2\<rparr>, ex_bytes) \<longrightarrow>
      (\<exists>r'. receive_one True False ex_event ex_receiver ex_objects = Some r' \<and>
         queued_set (chan (pipe_of r') 22) = insert 2000 (queued_set (chan (pipe_of ex_objects) 22)) \<and>
         packet_time (chan (pipe_of r') 22) 2000 = packet_time (chan (pipe_of ex_sender) 21) 1000 \<and>
         data_at r' 2000 = data_at ex_sender 1000)" by (elim exE conjE) (rule that)
  then show ?thesis using time data free(2) u(3,4) by (auto simp: ex_event_def)
qed

end
