(* ===== verification/Dataflow.thy ===== *)
theory Dataflow
  imports Scheduler_Facade
begin

text \<open>
  A pipeline at work, from end to end: the worker's loop over the objects that users see, with the
  callbacks that go through \<^verbatim>\<open>ScheduledChannel::CallbackTranslator\<close> into user functions. The theorem is about the
  processing function that the README describes: it acquires a packet of the next channel with the timestamp of
  the packet it got, fills it, and lets both stubs go out of scope.
\<close>

subsection \<open>The worker over objects\<close>

type_synonym user = "time \<Rightarrow> nat \<Rightarrow> stub \<Rightarrow> objects \<Rightarrow> objects option"

definition Execute_packet :: "user \<Rightarrow> bool \<Rightarrow> bool \<Rightarrow> 64 word \<Rightarrow> time \<Rightarrow> time \<Rightarrow> addr \<Rightarrow> addr \<Rightarrow> objects \<Rightarrow> objects option" where
  "Execute_packet user dbg big op t1 t2 x p s = do {
     assert_that (channel_base (chan (pipe_of s) x) \<noteq> nullptr);
     assert_that (p \<noteq> nullptr);
     s1 \<leftarrow> CallbackTranslator (user t2) dbg big op t2 (channel_base (chan (pipe_of s) x)) p s;
     Some (s1\<lparr>pipe_of :=
       set_channel x (Log (log_event EventExecuteTime (of_int (t2 - t1))) (chan (pipe_of s1) x)) (pipe_of s1)\<rparr>)
   }"

text \<open>As in \<open>Worker_Loop\<close>: \<open>clk k\<close> is the clock, the bound is fuel, and the loop ends where the worker would go to sleep.\<close>

fun work_on :: "user \<Rightarrow> bool \<Rightarrow> bool \<Rightarrow> 64 word \<Rightarrow> (nat \<Rightarrow> time) \<Rightarrow> nat \<Rightarrow> nat \<Rightarrow> objects \<Rightarrow> ((addr \<times> addr) list \<times> objects) option" where
  "work_on user dbg big op clk 0 k s = None"
| "work_on user dbg big op clk (Suc n) k s =
     (if keep_running (sched (pipe_of s))
      then do {
        (job, w1) \<leftarrow> pick_task (clk k) (pipe_of s);
        (case job of
           None \<Rightarrow> Some ([], s\<lparr>pipe_of := w1\<rparr>)
         | Some (st, x, p) \<Rightarrow> do {
             s2 \<leftarrow> Execute_packet user dbg big op (clk k) (clk (Suc k)) x p (s\<lparr>pipe_of := w1\<rparr>);
             w3 \<leftarrow> finish_task st (pipe_of s2);
             (js, s4) \<leftarrow> work_on user dbg big op clk n (Suc k) (s2\<lparr>pipe_of := w3\<rparr>);
             Some ((x, p) # js, s4)
           })
      }
      else Some ([], s))"

text \<open>The processing function, \<open>c\<close> being the next channel and \<open>f\<close> what it does with the data.\<close>

definition forward :: "addr \<Rightarrow> (byte list \<Rightarrow> byte list) \<Rightarrow> time \<Rightarrow> stub \<Rightarrow> objects \<Rightarrow> objects option" where
  "forward c f t k s = do {
     ts \<leftarrow> stub_timestamp k s;
     d \<leftarrow> stub_data k s;
     (out, s1) \<leftarrow> Channel_Acquire t ts (f d) c s;
     s2 \<leftarrow> PacketToFill_destroy t out s1;
     PacketToProcess_destroy t k s2
   }"

subsection \<open>One call of the processing function\<close>

lemma owns_frame: "frame z s s' \<Longrightarrow> owns s' c y \<Longrightarrow> owns s b x \<Longrightarrow> owns s' b x"
  by (auto simp: frame_def owns_def same_config_def)

definition frame2 :: "addr \<Rightarrow> addr \<Rightarrow> objects \<Rightarrow> objects \<Rightarrow> bool" where
  "frame2 x y s s' \<longleftrightarrow>
     same_config (sched (pipe_of s)) (sched (pipe_of s')) \<and>
     (\<forall>z. z \<noteq> x \<longrightarrow> z \<noteq> y \<longrightarrow> chan (pipe_of s') z = chan (pipe_of s) z) \<and>
     (\<forall>z. same_static (chan (pipe_of s') z) (chan (pipe_of s) z)) \<and> impl_at s' = impl_at s \<and> handlers s' = handlers s"

lemma frame_static: "frame x s s' \<Longrightarrow> same_static (chan (pipe_of s') z) (chan (pipe_of s) z)"
  by (cases "z = x") (simp_all add: frame_def)

lemma forward_ok:
  assumes ox: "owns s b x" and oy: "owns s c y" and ne: "x \<noteq> y" and tr: "in_transit (pipe_of s) x p"
    and t: "op_time (chan (pipe_of s) x) p \<le> t" "packet_time (chan (pipe_of s) x) p \<le> t" "t < kMaxTime"
    and free: "free_packets (chan (pipe_of s) y) = fs @ [q]"
  shows "\<exists>s'. forward c f t (stub_new p b) s = Some s' \<and> owns s' b x \<and> owns s' c y \<and> frame2 x y s s' \<and>
    free_packets (chan (pipe_of s') y) = fs \<and> queued_set (chan (pipe_of s') y) = insert q (queued_set (chan (pipe_of s) y)) \<and>
    packet_time (chan (pipe_of s') y) = (packet_time (chan (pipe_of s) y))(q := packet_time (chan (pipe_of s) x) p) \<and>
    free_packets (chan (pipe_of s') x) = free_packets (chan (pipe_of s) x) @ [p] \<and>
    queued_set (chan (pipe_of s') x) = queued_set (chan (pipe_of s) x) \<and>
    packet_time (chan (pipe_of s') x) = packet_time (chan (pipe_of s) x) \<and>
    data_at s' = (data_at s)(q := f (data_at s p))"
proof -
  let ?ts = "packet_time (chan (pipe_of s) x) p" and ?d = "f (data_at s p)"
  have p: "p \<noteq> nullptr" using owns_slot [OF ox] tr by (simp add: in_transit_def)
  have read: "stub_timestamp (stub_new p b) s = Some ?ts" "stub_data (stub_new p b) s = Some (data_at s p)"
    using p ox by (simp_all add: stub_timestamp_def stub_data_def stub_new_def IsEmpty_def owns_def)
  from Channel_Acquire_ok [OF oy free, of t ?ts ?d] obtain s1 where
    s1: "Channel_Acquire t ?ts ?d c s = Some (stub_new q c, s1)" "owns s1 c y" "in_transit (pipe_of s1) y q"
    "free_packets (chan (pipe_of s1) y) = fs" "queued_set (chan (pipe_of s1) y) = queued_set (chan (pipe_of s) y)"
    "op_time (chan (pipe_of s1) y) q = t" "packet_time (chan (pipe_of s1) y) = (packet_time (chan (pipe_of s) y))(q := ?ts)"
    "data_at s1 = (data_at s)(q := ?d)" "frame y s s1" by blast
  have stub: "stub_channel (stub_new r a) = a" "stub_packet (stub_new r a) = r" for r a by (simp_all add: stub_new_def)
  have "packet_time (chan (pipe_of s1) y) q \<le> t" "op_time (chan (pipe_of s1) y) q \<le> t" using s1(6,7) t(2) by simp_all
  from PacketToFill_destroy_ok [OF s1(2,3) this t(3) stub] obtain s2 where
    s2: "PacketToFill_destroy t (stub_new q c) s1 = Some s2" "owns s2 c y"
    "queued_set (chan (pipe_of s2) y) = insert q (queued_set (chan (pipe_of s1) y))"
    "free_packets (chan (pipe_of s2) y) = free_packets (chan (pipe_of s1) y)"
    "packet_time (chan (pipe_of s2) y) = packet_time (chan (pipe_of s1) y)" "data_at s2 = data_at s1" "frame y s1 s2" by blast
  have x2: "chan (pipe_of s2) x = chan (pipe_of s) x" using s1(9) s2(7) ne by (simp add: frame_def)
  have ox2: "owns s2 b x" using owns_frame [OF s2(7,2) owns_frame [OF s1(9,2) ox]] .
  have tr2: "in_transit (pipe_of s2) x p" "op_time (chan (pipe_of s2) x) p \<le> t" using tr t(1) by (simp_all add: in_transit_def x2)
  from PacketToProcess_destroy_ok [OF ox2 tr2 stub] obtain s3 where
    s3: "PacketToProcess_destroy t (stub_new p b) s2 = Some s3" "owns s3 b x"
    "free_packets (chan (pipe_of s3) x) = free_packets (chan (pipe_of s2) x) @ [p]"
    "queued_set (chan (pipe_of s3) x) = queued_set (chan (pipe_of s2) x)" "data_at s3 = data_at s2"
    "packet_time (chan (pipe_of s3) x) = packet_time (chan (pipe_of s2) x)" "frame x s2 s3" by blast
  have y3: "chan (pipe_of s3) y = chan (pipe_of s2) y" using s3(7) ne by (simp add: frame_def)
  have "same_static (chan (pipe_of s3) z) (chan (pipe_of s) z)" for z
    using frame_static [OF s1(9)] frame_static [OF s2(7)] frame_static [OF s3(7)] same_static_trans by metis
  moreover have "same_config (sched (pipe_of s)) (sched (pipe_of s3))"
    using s1(9) s2(7) s3(7) same_config_trans unfolding frame_def by metis
  ultimately have "frame2 x y s s3" using s1(9) s2(7) s3(7) by (simp add: frame_def frame2_def)
  moreover have "forward c f t (stub_new p b) s = Some s3" using read s1(1) s2(1) s3(1) by (simp add: forward_def)
  ultimately show ?thesis
    using s3 owns_frame [OF s3(7,2) s2(2)] s2(3-6) s1(4,5,7,8) x2 y3 by (intro exI [of _ s3]) simp
qed

subsection \<open>One iteration of the worker\<close>

lemma finish_after:
  assumes inv: "pipeline_inv w" and x: "x \<in> set (channels (sched w))" "single_thread_object (chan w x) = st"
    and en: "is_enabled (sched w) st \<longleftrightarrow> st = nullptr"
  shows "\<exists>w'. finish_task st w = Some w' \<and> pipeline_inv w' \<and> same_setup (sched w) (sched w') \<and> chan w' = chan w \<and>
    is_enabled (sched w') st"
proof (cases "st = nullptr")
  case True
  with inv en show ?thesis by (simp add: finish_task_def)
next
  case False
  have "heaps_inv (chan w) (sched w)" using inv by (simp add: pipeline_inv_def sched_inv_def)
  then obtain q where q: "state_queues (sched w) st = Some q" using x by (auto simp: heaps_inv_def)
  with en False have "\<not> enabled q" by (simp add: is_enabled_def)
  from finish_task_ok [OF inv q this] False show ?thesis by auto
qed

text \<open>
  The channel \<open>x\<close> with its front \<open>b\<close> is scheduled, and every other channel is polled or has nothing queued.
\<close>

definition stage :: "addr \<Rightarrow> addr \<Rightarrow> time \<Rightarrow> objects \<Rightarrow> bool" where
  "stage b x t s \<longleftrightarrow>
     owns s b x \<and> channel_base (chan (pipe_of s) x) = b \<and> has_callback (chan (pipe_of s) x) \<and>
     (\<forall>z\<in>set (channels (sched (pipe_of s))). z \<noteq> x \<longrightarrow> has_callback (chan (pipe_of s) z) \<longrightarrow> queued_set (chan (pipe_of s) z) = {}) \<and>
     is_enabled (sched (pipe_of s)) (single_thread_object (chan (pipe_of s) x)) \<and> keep_running (sched (pipe_of s)) \<and>
     past t (pipe_of s)"

definition packet_of :: "objects \<Rightarrow> addr \<Rightarrow> addr \<Rightarrow> time \<times> byte list" where
  "packet_of s x p = (packet_time (chan (pipe_of s) x) p, data_at s p)"

text \<open>What the worker itself does to the pipeline between two callbacks.\<close>

definition around :: "addr \<Rightarrow> pipeline \<Rightarrow> pipeline \<Rightarrow> bool" where
  "around x w w' \<longleftrightarrow>
     pipeline_inv w' \<and> same_setup (sched w) (sched w') \<and> (\<forall>z. z \<noteq> x \<longrightarrow> chan w' z = chan w z) \<and>
     same_static (chan w' x) (chan w x)"

text \<open>What a callback of channel \<open>x\<close> may do at time \<open>t\<close>: anything that makes no other job and does not touch the queue of \<open>x\<close>.\<close>

definition polite :: "addr \<Rightarrow> time \<Rightarrow> objects \<Rightarrow> objects \<Rightarrow> bool" where
  "polite x t s s' \<longleftrightarrow>
     same_config (sched (pipe_of s)) (sched (pipe_of s')) \<and> impl_at s' = impl_at s \<and>
     (\<forall>z. same_static (chan (pipe_of s') z) (chan (pipe_of s) z)) \<and>
     queued_set (chan (pipe_of s') x) = queued_set (chan (pipe_of s) x) \<and>
     (\<forall>r\<in>queued_set (chan (pipe_of s) x). packet_of s' x r = packet_of s x r) \<and>
     (\<forall>z. z \<noteq> x \<longrightarrow> has_callback (chan (pipe_of s) z) \<longrightarrow> queued_set (chan (pipe_of s') z) = queued_set (chan (pipe_of s) z)) \<and>
     (past t (pipe_of s) \<longrightarrow> past t (pipe_of s'))"

lemma stage_pick:
  assumes st: "stage b x t s" and ne: "queued_set (chan (pipe_of s) x) \<noteq> {}"
  shows "\<exists>p w. pick_task t (pipe_of s) = Some (Some (single_thread_object (chan (pipe_of s) x), x, p), w) \<and>
    p \<in> queued_set (chan (pipe_of s) x) \<and>
    (\<forall>r\<in>queued_set (chan (pipe_of s) x). packet_time (chan (pipe_of s) x) p \<le> packet_time (chan (pipe_of s) x) r) \<and>
    around x (pipe_of s) w \<and>
    (\<forall>st'. is_enabled (sched w) st' \<longleftrightarrow> is_enabled (sched (pipe_of s)) st' \<and>
       (st' \<noteq> single_thread_object (chan (pipe_of s) x) \<or> st' = nullptr)) \<and>
    queued_set (chan w x) = queued_set (chan (pipe_of s) x) - {p} \<and>
    packet_time (chan w x) = packet_time (chan (pipe_of s) x) \<and> op_time (chan w x) p = t \<and> in_transit w x p"
proof -
  let ?w = "pipe_of s"
  have x: "x \<in> set (channels (sched ?w))" and inv: "pipeline_inv ?w" and past: "past t ?w"
    and cb: "\<And>z. z \<in> set (channels (sched ?w)) \<Longrightarrow> z \<noteq> x \<Longrightarrow> has_callback (chan ?w z) \<Longrightarrow> queued_set (chan ?w z) = {}"
    and cbx: "has_callback (chan ?w x)"
    and en: "is_enabled (sched ?w) (single_thread_object (chan ?w x))"
    using st by (simp_all add: stage_def owns_def)
  have "ready_states (sched ?w) \<noteq> {}" using no_ready_no_job [OF inv _ x en cbx] ne by blast
  from pick_task_ok [OF inv this past] obtain st' x' p w where
    pick: "pick_task t ?w = Some (Some (st', x', p), w)" and ej: "earliest_job ?w x' p"
    and w: "st' = single_thread_object (chan ?w x')" "pipeline_inv w" "same_setup (sched ?w) (sched w)"
      "\<forall>a. is_enabled (sched w) a \<longleftrightarrow> is_enabled (sched ?w) a \<and> (a \<noteq> st' \<or> st' = nullptr)"
      "\<forall>z. z \<noteq> x' \<longrightarrow> chan w z = chan ?w z" "same_static (chan w x') (chan ?w x')"
      "free_packets (chan w x') = free_packets (chan ?w x')" "queued_set (chan w x') = queued_set (chan ?w x') - {p}"
      "packet_time (chan w x') = packet_time (chan ?w x')" "op_time (chan w x') p = t"
    by (elim exE conjE) (rule that)
  have "x' \<in> set (channels (sched ?w))" "has_callback (chan ?w x')" "p \<in> queued_set (chan ?w x')"
    using ej by (simp_all add: earliest_job_def)
  then have x': "x' = x" using cb [of x'] by blast
  have p: "p \<in> queued_set (chan ?w x)" using ej x' by (simp add: earliest_job_def)
  have "channel_inv (chan ?w x)" using inv x by (simp add: pipeline_inv_def)
  then have "in_transit w x p"
    using p w(7,8) same_staticD(3) [OF w(6)] x' by (auto simp: in_transit_def channel_inv_def)
  moreover have "\<forall>r\<in>queued_set (chan ?w x). packet_time (chan ?w x) p \<le> packet_time (chan ?w x) r"
    using ej x x' cbx en by (simp add: earliest_job_def)
  ultimately show ?thesis using pick p w unfolding x' around_def by (intro exI [of _ p] exI [of _ w]) auto
qed

lemma stage_around:
  assumes st: "stage b x t s" and w: "around x (pipe_of s) w" and le: "t \<le> t'"
    and q: "queued_set (chan w x) \<subseteq> queued_set (chan (pipe_of s) x)"
      "\<And>r. r \<in> queued_set (chan w x) \<Longrightarrow> packet_time (chan w x) r = packet_time (chan (pipe_of s) x) r"
  shows "owns (s\<lparr>pipe_of := w\<rparr>) b x" "past t' w" "channel_base (chan w x) = b" "has_callback (chan w x)" "keep_running (sched w)"
    "z \<in> set (channels (sched w)) \<Longrightarrow> z \<noteq> x \<Longrightarrow> has_callback (chan w z) \<Longrightarrow> queued_set (chan w z) = {}"
    "single_thread_object (chan w x) = single_thread_object (chan (pipe_of s) x)"
proof -
  have w': "pipeline_inv w" "channels (sched w) = channels (sched (pipe_of s))" "keep_running (sched w) = keep_running (sched (pipe_of s))"
    "\<And>z. z \<noteq> x \<Longrightarrow> chan w z = chan (pipe_of s) z" and static: "same_static (chan w x) (chan (pipe_of s) x)"
    using w by (simp_all add: around_def same_setup_def)
  show "owns (s\<lparr>pipe_of := w\<rparr>) b x" "keep_running (sched w)" using st w'(1-3) by (simp_all add: stage_def owns_def)
  show "channel_base (chan w x) = b" "has_callback (chan w x)" "single_thread_object (chan w x) = single_thread_object (chan (pipe_of s) x)"
    using st static by (simp_all add: stage_def same_static_def)
  show "z \<in> set (channels (sched w)) \<Longrightarrow> z \<noteq> x \<Longrightarrow> has_callback (chan w z) \<Longrightarrow> queued_set (chan w z) = {}"
    using st w'(2,4) by (simp add: stage_def)
  have past: "past t (pipe_of s)" using st by (simp add: stage_def)
  show "past t' w"
    unfolding past_def w'(2)
  proof (intro ballI)
    fix z r assume z: "z \<in> set (channels (sched (pipe_of s)))" "r \<in> queued_set (chan w z)"
    have "r \<in> queued_set (chan (pipe_of s) z) \<and> packet_time (chan w z) r = packet_time (chan (pipe_of s) z) r"
      using z(2) q w'(4) [of z] by (cases "z = x") auto
    with pastD [OF past z(1), of r] le show "packet_time (chan w z) r \<le> t'" by simp
  qed
qed

text \<open>What is in a channel: timestamps and data of its queued packets.\<close>

definition contents :: "objects \<Rightarrow> addr \<Rightarrow> (time \<times> byte list) multiset" where
  "contents s x =
     image_mset (packet_of s x) (mset_set (queued_set (chan (pipe_of s) x)))"

lemma finite_queued_set [simp]: "finite (queued_set c)"
  by (simp add: queued_set_def)

lemma contents_insert:
  assumes "q \<notin> queued_set (chan (pipe_of s) y)" and "queued_set (chan (pipe_of s') y) = insert q (queued_set (chan (pipe_of s) y))"
    and "packet_time (chan (pipe_of s') y) = (packet_time (chan (pipe_of s) y))(q := ts)"
    and "\<And>r. r \<noteq> q \<Longrightarrow> data_at s' r = data_at s r"
  shows "contents s' y = add_mset (ts, data_at s' q) (contents s y)"
proof -
  have "mset_set (queued_set (chan (pipe_of s') y)) = add_mset q (mset_set (queued_set (chan (pipe_of s) y)))"
    unfolding assms(2) using assms(1) by (intro mset_set.insert) simp_all
  moreover have "image_mset (packet_of s' y) (mset_set (queued_set (chan (pipe_of s) y))) = contents s y"
    unfolding contents_def by (rule image_mset_cong) (use assms(1,3,4) in \<open>auto simp: packet_of_def\<close>)
  moreover have "packet_of s' y q = (ts, data_at s' q)" using assms(3) by (simp add: packet_of_def)
  ultimately show ?thesis by (simp add: contents_def)
qed

subsection \<open>Callbacks that take their packet\<close>

text \<open>
  The contract between the worker's loop and a user function that takes one packet per call. \<open>fine n s\<close> says that the user
  function can take \<open>n\<close> more packets, \<open>obs\<close> is where their contents go and \<open>eat\<close> what one packet does to it.
\<close>

locale consumer =
  fixes user :: user and dbg big :: bool and op :: "64 word" and b x :: addr
    and fine :: "nat \<Rightarrow> objects \<Rightarrow> bool" and obs :: "objects \<Rightarrow> 'a" and eat :: "time \<times> byte list \<Rightarrow> 'a \<Rightarrow> 'a"
  assumes called: "fine (Suc n) s \<Longrightarrow> owns s b x \<Longrightarrow> in_transit (pipe_of s) x p \<Longrightarrow>
      op_time (chan (pipe_of s) x) p \<le> t \<Longrightarrow> packet_time (chan (pipe_of s) x) p \<le> t \<Longrightarrow> t < kMaxTime \<Longrightarrow>
      \<exists>s'. CallbackTranslator (user t) dbg big op t b p s = Some s' \<and> owns s' b x \<and> polite x t s s' \<and> fine n s' \<and>
        obs s' = eat (packet_of s x p) (obs s)"
    and kept: "fine n s \<Longrightarrow> around x (pipe_of s) w \<Longrightarrow> fine n (s\<lparr>pipe_of := w\<rparr>) \<and> obs (s\<lparr>pipe_of := w\<rparr>) = obs s"
begin

lemma executes:
  assumes st: "stage b x t s" and fine: "fine (Suc n) s" and t: "t \<le> t'" "t' < kMaxTime"
    and w1: "around x (pipe_of s) w1" "queued_set (chan w1 x) \<subseteq> queued_set (chan (pipe_of s) x)"
      "packet_time (chan w1 x) = packet_time (chan (pipe_of s) x)" "packet_time (chan w1 x) p \<le> t" "op_time (chan w1 x) p = t"
      "in_transit w1 x p"
  shows "\<exists>s1. CallbackTranslator (user t') dbg big op t' b p (s\<lparr>pipe_of := w1\<rparr>) = Some s1 \<and> owns s1 b x \<and>
    polite x t' (s\<lparr>pipe_of := w1\<rparr>) s1 \<and> fine n s1 \<and> obs s1 = eat (packet_of s x p) (obs s) \<and>
    Execute_packet user dbg big op t t' x p (s\<lparr>pipe_of := w1\<rparr>) =
      Some (s1\<lparr>pipe_of := set_channel x (Log (log_event EventExecuteTime (of_int (t' - t))) (chan (pipe_of s1) x)) (pipe_of s1)\<rparr>)"
proof -
  let ?s1 = "s\<lparr>pipe_of := w1\<rparr>"
  have time: "packet_time (chan w1 x) r = packet_time (chan (pipe_of s) x) r" for r by (simp add: w1(3))
  note ar = stage_around [OF st w1(1) t(1) w1(2) time]
  have k: "fine (Suc n) ?s1" "obs ?s1 = obs s" using kept [OF fine w1(1)] by simp_all
  have "in_transit (pipe_of ?s1) x p" "op_time (chan (pipe_of ?s1) x) p \<le> t'" "packet_time (chan (pipe_of ?s1) x) p \<le> t'"
    using w1(4-6) t(1) by simp_all
  from called [OF k(1) ar(1) this t(2)] obtain s1 where
    s1: "CallbackTranslator (user t') dbg big op t' b p ?s1 = Some s1" "owns s1 b x" "polite x t' ?s1 s1" "fine n s1"
      "obs s1 = eat (packet_of ?s1 x p) (obs ?s1)" by blast
  have "packet_of ?s1 x p = packet_of s x p" by (simp add: packet_of_def w1(3))
  moreover have "p \<noteq> nullptr" using owns_slot [OF ar(1)] w1(6) by (simp add: in_transit_def)
  moreover have "b \<noteq> nullptr" using st by (simp add: stage_def owns_def)
  ultimately show ?thesis using s1 k(2) ar(3) by (simp add: Execute_packet_def)
qed

lemma stepped:
  assumes st: "stage b x t s" and ne: "queued_set (chan (pipe_of s) x) \<noteq> {}" and fine: "fine (Suc n) s"
    and t: "t \<le> t'" "t' < kMaxTime"
  shows "\<exists>p w1 s2 w3. pick_task t (pipe_of s) = Some (Some (single_thread_object (chan (pipe_of s) x), x, p), w1) \<and>
    Execute_packet user dbg big op t t' x p (s\<lparr>pipe_of := w1\<rparr>) = Some s2 \<and>
    finish_task (single_thread_object (chan (pipe_of s) x)) (pipe_of s2) = Some w3 \<and>
    stage b x t' (s2\<lparr>pipe_of := w3\<rparr>) \<and> fine n (s2\<lparr>pipe_of := w3\<rparr>) \<and>
    obs (s2\<lparr>pipe_of := w3\<rparr>) = eat (packet_of s x p) (obs s) \<and> p \<in> queued_set (chan (pipe_of s) x) \<and>
    (\<forall>r\<in>queued_set (chan (pipe_of s) x). packet_time (chan (pipe_of s) x) p \<le> packet_time (chan (pipe_of s) x) r) \<and>
    queued_set (chan w3 x) = queued_set (chan (pipe_of s) x) - {p} \<and>
    (\<forall>r\<in>queued_set (chan w3 x). packet_of (s2\<lparr>pipe_of := w3\<rparr>) x r = packet_of s x r)"
proof -
  let ?st = "single_thread_object (chan (pipe_of s) x)"
  from stage_pick [OF st ne] obtain p w1 where
    w1: "pick_task t (pipe_of s) = Some (Some (?st, x, p), w1)" "p \<in> queued_set (chan (pipe_of s) x)"
      "\<forall>r\<in>queued_set (chan (pipe_of s) x). packet_time (chan (pipe_of s) x) p \<le> packet_time (chan (pipe_of s) x) r"
      "around x (pipe_of s) w1"
      "\<forall>a. is_enabled (sched w1) a \<longleftrightarrow> is_enabled (sched (pipe_of s)) a \<and> (a \<noteq> ?st \<or> a = nullptr)"
      "queued_set (chan w1 x) = queued_set (chan (pipe_of s) x) - {p}"
      "packet_time (chan w1 x) = packet_time (chan (pipe_of s) x)" "op_time (chan w1 x) p = t" "in_transit w1 x p"
    by (elim exE conjE) (rule that)
  have sub: "queued_set (chan w1 x) \<subseteq> queued_set (chan (pipe_of s) x)" using w1(6) by blast
  have x: "x \<in> set (channels (sched (pipe_of s)))" "past t (pipe_of s)" "is_enabled (sched (pipe_of s)) ?st"
    using st by (simp_all add: stage_def owns_def)
  have pt: "packet_time (chan w1 x) p \<le> t" using pastD [OF x(2,1) w1(2)] w1(7) by simp
  have time: "packet_time (chan w1 x) r = packet_time (chan (pipe_of s) x) r" for r by (simp add: w1(7))
  note ar = stage_around [OF st w1(4) t(1) sub time]
  let ?s1 = "s\<lparr>pipe_of := w1\<rparr>"
  from executes [OF st fine t w1(4) sub w1(7) pt w1(8,9)] obtain s1 where
    s1: "owns s1 b x" "polite x t' ?s1 s1" "fine n s1" "obs s1 = eat (packet_of s x p) (obs s)"
      "Execute_packet user dbg big op t t' x p ?s1 =
        Some (s1\<lparr>pipe_of := set_channel x (Log (log_event EventExecuteTime (of_int (t' - t))) (chan (pipe_of s1) x)) (pipe_of s1)\<rparr>)"
    by blast
  let ?c = "Log (log_event EventExecuteTime (of_int (t' - t))) (chan (pipe_of s1) x)"
  let ?w2 = "set_channel x ?c (pipe_of s1)"
  have pol: "same_config (sched w1) (sched (pipe_of s1))" "\<And>z. same_static (chan (pipe_of s1) z) (chan w1 z)"
    "queued_set (chan (pipe_of s1) x) = queued_set (chan w1 x)"
    "\<And>r. r \<in> queued_set (chan w1 x) \<Longrightarrow> packet_of s1 x r = packet_of ?s1 x r"
    "\<And>z. z \<noteq> x \<Longrightarrow> has_callback (chan w1 z) \<Longrightarrow> queued_set (chan (pipe_of s1) z) = queued_set (chan w1 z)"
    "past t' w1 \<Longrightarrow> past t' (pipe_of s1)"
    using s1(2) by (simp_all add: polite_def)
  have own1: "x \<in> set (channels (sched (pipe_of s1)))" "pipeline_inv (pipe_of s1)" using s1(1) by (simp_all add: owns_def)
  then have "channel_inv (chan (pipe_of s1) x)" by (simp add: pipeline_inv_def)
  then have inv2: "pipeline_inv ?w2" using own1(2) by (intro pipeline_inv_set_channel) simp_all
  have "same_static ?c (chan (pipe_of s1) x)" by simp
  then have stc: "same_static (chan ?w2 z) (chan (pipe_of s1) z)" for z by (cases "z = x") simp_all
  note obj = same_staticD(1,2) [OF same_static_trans [OF stc pol(2)]]
  have x2: "x \<in> set (channels (sched ?w2))" using own1(1) by simp
  have so: "single_thread_object (chan ?w2 x) = ?st" using obj(1) ar(7) by (rule trans)
  have "is_enabled (sched ?w2) ?st \<longleftrightarrow> ?st = nullptr" using same_config_enabled [OF pol(1)] w1(5) x(3) by auto
  from finish_after [OF inv2 x2 so this] obtain w3 where
    w3: "finish_task ?st ?w2 = Some w3" "pipeline_inv w3" "same_setup (sched ?w2) (sched w3)" "chan w3 = chan ?w2" "is_enabled (sched w3) ?st"
    by blast
  have "around x (pipe_of s1) w3"
    using w3(2-4) stc [of x] by (simp add: around_def)
  from kept [OF s1(3) this] have k: "fine n (s1\<lparr>pipe_of := w3\<rparr>)" "obs (s1\<lparr>pipe_of := w3\<rparr>) = obs s1" by simp_all
  have chs: "channels (sched w3) = channels (sched w1)" "keep_running (sched w3)"
    using w3(3) pol(1) ar(5) by (simp_all add: same_setup_def same_config_def)
  have q3: "queued_set (chan w3 z) = queued_set (chan (pipe_of s1) z)" "packet_time (chan w3 z) = packet_time (chan (pipe_of s1) z)" for z
    using w3(4) by (cases "z = x"; simp)+
  have "past t' (pipe_of s1)" using pol(6) ar(2) by simp
  then have "past t' w3" using w3(3) by (simp add: past_def q3 same_setup_def)
  moreover have "channel_base (chan w3 x) = b" "has_callback (chan w3 x)" "single_thread_object (chan w3 x) = ?st"
    using same_static_trans [OF stc pol(2), of x] ar(3,4,7) w3(4) by (simp_all add: same_static_def)
  moreover have "queued_set (chan w3 z) = {}" if "z \<in> set (channels (sched w3))" "z \<noteq> x" "has_callback (chan w3 z)" for z
    using that ar(6) [of z] pol(5) [of z] obj(2) [of z] chs(1) w3(4) q3(1) by simp
  moreover have "owns (s1\<lparr>pipe_of := w3\<rparr>) b x" using s1(1) w3(2,3) by (simp add: owns_def same_setup_def)
  ultimately have stage: "stage b x t' (s1\<lparr>pipe_of := w3\<rparr>)" using chs(2) w3(5) by (simp add: stage_def)
  have pk: "\<forall>r\<in>queued_set (chan w3 x). packet_of (s1\<lparr>pipe_of := w3\<rparr>) x r = packet_of s x r"
  proof
    fix r assume "r \<in> queued_set (chan w3 x)"
    with pol(3,4) q3 have "packet_of s1 x r = packet_of ?s1 x r" by simp
    then show "packet_of (s1\<lparr>pipe_of := w3\<rparr>) x r = packet_of s x r" by (simp add: packet_of_def q3 w1(7))
  qed
  have "queued_set (chan w3 x) = queued_set (chan (pipe_of s) x) - {p}" using q3(1) pol(3) w1(6) by simp
  with w1(1-3) s1(4,5) w3(1) stage k pk show ?thesis
    by (intro exI [of _ p] exI [of _ w1] exI [of _ "s1\<lparr>pipe_of := ?w2\<rparr>"] exI [of _ w3]) simp
qed

lemma drains:
  assumes "stage b x (clk k) s" and "fine (card (queued_set (chan (pipe_of s) x))) s" and "mono clk" and "\<And>k. clk k < kMaxTime"
    and "card (queued_set (chan (pipe_of s) x)) < N"
  shows "\<exists>js s'. work_on user dbg big op clk N k s = Some (js, s') \<and> contents s' x = {#} \<and>
    obs s' = fold eat (map (\<lambda>j. packet_of s x (snd j)) js) (obs s) \<and> sorted (map (\<lambda>j. fst (packet_of s x (snd j))) js) \<and>
    mset js = image_mset (Pair x) (mset_set (queued_set (chan (pipe_of s) x)))"
  using assms(1,2,5)
proof (induction N arbitrary: k s)
  case 0
  then show ?case by simp
next
  case (Suc N)
  note st = Suc.prems(1) and fine = Suc.prems(2)
  have run: "keep_running (sched (pipe_of s))" and inv: "pipeline_inv (pipe_of s)" using st by (simp_all add: stage_def owns_def)
  show ?case
  proof (cases "queued_set (chan (pipe_of s) x) = {}")
    case True
    have "ready_states (sched (pipe_of s)) = {}"
      using inv by (rule no_job_no_ready) (use st True in \<open>auto simp: stage_def\<close>)
    from pick_none [OF this inv] run True show ?thesis by (simp add: contents_def)
  next
    case False
    then obtain n where n: "card (queued_set (chan (pipe_of s) x)) = Suc n" by (cases "card (queued_set (chan (pipe_of s) x))") auto
    have t: "clk k \<le> clk (Suc k)" using assms(3) by (simp add: monoD)
    from stepped [OF st False fine [unfolded n] t assms(4)] obtain p w1 s2 w3 where
      d: "pick_task (clk k) (pipe_of s) = Some (Some (single_thread_object (chan (pipe_of s) x), x, p), w1)"
      "Execute_packet user dbg big op (clk k) (clk (Suc k)) x p (s\<lparr>pipe_of := w1\<rparr>) = Some s2"
      "finish_task (single_thread_object (chan (pipe_of s) x)) (pipe_of s2) = Some w3"
      "stage b x (clk (Suc k)) (s2\<lparr>pipe_of := w3\<rparr>)" "fine n (s2\<lparr>pipe_of := w3\<rparr>)"
      "obs (s2\<lparr>pipe_of := w3\<rparr>) = eat (packet_of s x p) (obs s)" "p \<in> queued_set (chan (pipe_of s) x)"
      "\<forall>r\<in>queued_set (chan (pipe_of s) x). packet_time (chan (pipe_of s) x) p \<le> packet_time (chan (pipe_of s) x) r"
      "queued_set (chan w3 x) = queued_set (chan (pipe_of s) x) - {p}"
      "\<forall>r\<in>queued_set (chan w3 x). packet_of (s2\<lparr>pipe_of := w3\<rparr>) x r = packet_of s x r"
      by (elim exE conjE) (rule that)
    let ?s' = "s2\<lparr>pipe_of := w3\<rparr>"
    have card: "card (queued_set (chan (pipe_of ?s') x)) = n" using d(7,9) n by simp
    then have "card (queued_set (chan (pipe_of ?s') x)) < N" "fine (card (queued_set (chan (pipe_of ?s') x))) ?s'"
      using Suc.prems(3) n d(5) by simp_all
    from Suc.IH [OF d(4) this(2,1)] obtain js s4 where
      js: "work_on user dbg big op clk N (Suc k) ?s' = Some (js, s4)" "contents s4 x = {#}"
      "obs s4 = fold eat (map (\<lambda>j. packet_of ?s' x (snd j)) js) (obs ?s')"
      "sorted (map (\<lambda>j. fst (packet_of ?s' x (snd j))) js)"
      "mset js = image_mset (Pair x) (mset_set (queued_set (chan (pipe_of ?s') x)))" by blast
    have set: "set js = Pair x ` queued_set (chan w3 x)"
      using arg_cong [OF js(5), of set_mset] by simp
    then have same: "map (\<lambda>j. packet_of ?s' x (snd j)) js = map (\<lambda>j. packet_of s x (snd j)) js"
      "map (\<lambda>j. fst (packet_of ?s' x (snd j))) js = map (\<lambda>j. fst (packet_of s x (snd j))) js"
      using d(10) by auto
    have "work_on user dbg big op clk (Suc N) k s = Some ((x, p) # js, s4)" using run d(1-3) js(1) by simp
    moreover have "sorted (map (\<lambda>j. fst (packet_of s x (snd j))) ((x, p) # js))"
      using js(4)[unfolded same(2)] d(8,9) set by (auto simp: packet_of_def)
    moreover have "mset ((x, p) # js) = image_mset (Pair x) (mset_set (queued_set (chan (pipe_of s) x)))"
      using js(5) d(7,9) by (simp add: mset_set.remove [of _ p])
    ultimately show ?thesis using js(2,3) d(6) same(1) by (intro exI [of _ "(x, p) # js"] exI [of _ s4]) simp
  qed
qed

end

lemma contents_jobs:
  assumes "mset js = image_mset (Pair x) (mset_set (queued_set (chan (pipe_of s) x)))"
  shows "mset (map (\<lambda>j. packet_of s x (snd j)) js) = contents s x"
  using arg_cong [OF assms, of "image_mset (\<lambda>j. packet_of s x (snd j))"]
  by (simp add: contents_def multiset.map_comp comp_def)

lemma fold_add_mset:
  "fold (\<lambda>(ts, d). add_mset (ts, f d)) ks M = M + image_mset (\<lambda>(ts, d). (ts, f d)) (mset ks)"
  by (induction ks arbitrary: M) auto

subsection \<open>A user function that forwards\<close>

text \<open>\<open>y\<close> with its front \<open>c\<close>, a polled channel with a pool of its own, is where the packets go; \<open>n\<close> of them fit.\<close>

definition can_forward :: "addr \<Rightarrow> addr \<Rightarrow> addr \<Rightarrow> addr \<Rightarrow> nat \<Rightarrow> nat \<Rightarrow> objects \<Rightarrow> bool" where
  "can_forward b x c y m n s \<longleftrightarrow>
     handlers s b = Some (UserFunction m) \<and> owns s c y \<and> x \<noteq> y \<and> \<not> has_callback (chan (pipe_of s) y) \<and>
     slots (chan (pipe_of s) x) \<inter> slots (chan (pipe_of s) y) = {} \<and> n \<le> length (free_packets (chan (pipe_of s) y))"

definition with_fun :: "user \<Rightarrow> nat \<Rightarrow> (time \<Rightarrow> stub \<Rightarrow> objects \<Rightarrow> objects option) \<Rightarrow> user" where
  "with_fun user m g = (\<lambda>t. (user t)(m := g t))"

lemma forward_called:
  assumes can: "can_forward b x c y m (Suc n) s" and ox: "owns s b x" and tr: "in_transit (pipe_of s) x p"
    and t: "op_time (chan (pipe_of s) x) p \<le> t" "packet_time (chan (pipe_of s) x) p \<le> t" "t < kMaxTime"
  shows "\<exists>s'. CallbackTranslator (with_fun user m (forward c f) t) dbg big op t b p s = Some s' \<and> owns s' b x \<and> polite x t s s' \<and>
    can_forward b x c y m n s' \<and>
    contents s' y = (case packet_of s x p of (ts, d) \<Rightarrow> add_mset (ts, f d)) (contents s y)"
proof -
  have s: "handlers s b = Some (UserFunction m)" "owns s c y" "x \<noteq> y" "\<not> has_callback (chan (pipe_of s) y)"
    "slots (chan (pipe_of s) x) \<inter> slots (chan (pipe_of s) y) = {}" "Suc n \<le> length (free_packets (chan (pipe_of s) y))"
    using can by (simp_all add: can_forward_def)
  have ci: "channel_inv (chan (pipe_of s) x)" "channel_inv (chan (pipe_of s) y)"
    using ox s(2) by (simp_all add: owns_def pipeline_inv_def)
  from s(6) have "free_packets (chan (pipe_of s) y) \<noteq> []" by auto
  then obtain fs q where free: "free_packets (chan (pipe_of s) y) = fs @ [q]" by (metis append_butlast_last_id)
  have q: "q \<notin> queued_set (chan (pipe_of s) y)" "q \<notin> queued_set (chan (pipe_of s) x)"
    using ci s(5) free by (auto simp: channel_inv_def)
  from forward_ok [OF ox s(2,3) tr t free, of f] obtain s' where
    s': "forward c f t (stub_new p b) s = Some s'" "owns s' b x" "owns s' c y" "frame2 x y s s'"
      "free_packets (chan (pipe_of s') y) = fs" "queued_set (chan (pipe_of s') y) = insert q (queued_set (chan (pipe_of s) y))"
      "packet_time (chan (pipe_of s') y) = (packet_time (chan (pipe_of s) y))(q := packet_time (chan (pipe_of s) x) p)"
      "queued_set (chan (pipe_of s') x) = queued_set (chan (pipe_of s) x)"
      "packet_time (chan (pipe_of s') x) = packet_time (chan (pipe_of s) x)" "data_at s' = (data_at s)(q := f (data_at s p))"
    by (elim exE conjE) (rule that)
  have fr: "same_config (sched (pipe_of s)) (sched (pipe_of s'))" "impl_at s' = impl_at s" "handlers s' = handlers s"
    "\<And>z. same_static (chan (pipe_of s') z) (chan (pipe_of s) z)" "\<And>z. z \<noteq> x \<Longrightarrow> z \<noteq> y \<Longrightarrow> chan (pipe_of s') z = chan (pipe_of s) z"
    using s'(4) by (simp_all add: frame2_def)
  have b: "b \<noteq> nullptr" using ox by (simp add: owns_def)
  have "CallbackTranslator (with_fun user m (forward c f) t) dbg big op t b p s = Some s'"
    using b s(1) s'(1) by (simp add: CallbackTranslator_def PacketToProcess_new_def call_handler_def with_fun_def)
  moreover have "past t (pipe_of s')" if past: "past t (pipe_of s)"
    unfolding past_def
  proof (intro ballI)
    fix z r assume z: "z \<in> set (channels (sched (pipe_of s')))" "r \<in> queued_set (chan (pipe_of s') z)"
    have zc: "z \<in> set (channels (sched (pipe_of s)))" using z(1) fr(1) by (simp add: same_config_def)
    have "z = y \<and> r = q \<or> r \<in> queued_set (chan (pipe_of s) z) \<and> packet_time (chan (pipe_of s') z) r = packet_time (chan (pipe_of s) z) r"
      using z(2) s'(6-9) fr(5) [of z] q(1) by (cases "z = x"; cases "z = y") auto
    then show "packet_time (chan (pipe_of s') z) r \<le> t" using s'(7) t(2) pastD [OF past zc, of r] by auto
  qed
  moreover have "packet_of s' x r = packet_of s x r" if "r \<in> queued_set (chan (pipe_of s) x)" for r
    using that q(2) s'(9,10) by (auto simp: packet_of_def)
  moreover have "queued_set (chan (pipe_of s') z) = queued_set (chan (pipe_of s) z)"
    if "z \<noteq> x" "has_callback (chan (pipe_of s) z)" for z
    using that s(4) fr(5) [of z] by (cases "z = y") auto
  ultimately have "polite x t s s'" "CallbackTranslator (with_fun user m (forward c f) t) dbg big op t b p s = Some s'"
    using fr(1,2,4) s'(8) by (simp_all add: polite_def)
  moreover have "can_forward b x c y m n s'"
    using s s'(3,5) fr(3) same_staticD(2,3) [OF fr(4)] free by (simp add: can_forward_def)
  moreover have "contents s' y = add_mset (packet_time (chan (pipe_of s) x) p, data_at s' q) (contents s y)"
    by (rule contents_insert [OF q(1) s'(6,7)]) (simp add: s'(10))
  ultimately show ?thesis using s'(2,10) by (simp add: packet_of_def)
qed

lemma around_owns: "around x (pipe_of s) w \<Longrightarrow> owns s c y \<Longrightarrow> owns (s\<lparr>pipe_of := w\<rparr>) c y"
  by (simp add: around_def owns_def same_setup_def)

lemma contents_cong:
  "chan w y = chan (pipe_of s) y \<Longrightarrow> contents (s\<lparr>pipe_of := w\<rparr>) y = contents s y"
  unfolding contents_def by (simp add: packet_of_def [abs_def])

interpretation forwarding: consumer "with_fun user m (forward c f)" dbg big op b x "can_forward b x c y m"
  "\<lambda>s. contents s y" "\<lambda>(ts, d). add_mset (ts, f d)" for user m c f dbg big op b x y
proof unfold_locales
  fix n s p t
  assume "can_forward b x c y m (Suc n) s" "owns s b x" "in_transit (pipe_of s) x p" "op_time (chan (pipe_of s) x) p \<le> t"
    "packet_time (chan (pipe_of s) x) p \<le> t" "t < kMaxTime"
  then show "\<exists>s'. CallbackTranslator (with_fun user m (forward c f) t) dbg big op t b p s = Some s' \<and> owns s' b x \<and>
    polite x t s s' \<and> can_forward b x c y m n s' \<and>
    contents s' y = (case packet_of s x p of (ts, d) \<Rightarrow> add_mset (ts, f d)) (contents s y)"
    by (rule forward_called)
next
  fix n s w assume can: "can_forward b x c y m n s" and w: "around x (pipe_of s) w"
  have "chan w y = chan (pipe_of s) y" "slots (chan w x) = slots (chan (pipe_of s) x)"
    using can w same_staticD(3) by (auto simp: can_forward_def around_def)
  then show "can_forward b x c y m n (s\<lparr>pipe_of := w\<rparr>) \<and> contents (s\<lparr>pipe_of := w\<rparr>) y = contents s y"
    using can around_owns [OF w] contents_cong by (simp add: can_forward_def)
qed

subsection \<open>Properties\<close>

text \<open>
  C33: A stage of a dataflow, end to end. A worker that starts on a channel whose callback forwards every packet, with the
  data transformed, to a polled channel with enough room calls the callback once for each queued packet, in the
  order of their timestamps, and then has nothing left to do: the source is empty, and the target has gained, for each packet
  of the source, one with the same timestamp and the transformed data, and has kept what it had.
\<close>

theorem forwarding_stage:
  assumes "stage b x (clk k) s" and "can_forward b x c y m (card (queued_set (chan (pipe_of s) x))) s"
    and "mono clk" and "\<And>k. clk k < kMaxTime" and "\<And>t. user t m = forward c f t"
    and "card (queued_set (chan (pipe_of s) x)) < N"
  shows "\<exists>js s'. work_on user dbg big op clk N k s = Some (js, s') \<and> contents s' x = {#} \<and>
    contents s' y = contents s y + image_mset (\<lambda>(ts, d). (ts, f d)) (contents s x) \<and>
    sorted (map (\<lambda>j. packet_time (chan (pipe_of s) x) (snd j)) js) \<and>
    mset js = image_mset (Pair x) (mset_set (queued_set (chan (pipe_of s) x)))"
proof -
  have user: "with_fun user m (forward c f) = user" using assms(5) by (auto simp: with_fun_def fun_upd_idem)
  from forwarding.drains [OF assms(1-4,6), of user f dbg big op] obtain js s' where
    js: "work_on user dbg big op clk N k s = Some (js, s')" "contents s' x = {#}"
      "contents s' y = fold (\<lambda>(ts, d). add_mset (ts, f d)) (map (\<lambda>j. packet_of s x (snd j)) js) (contents s y)"
      "sorted (map (\<lambda>j. fst (packet_of s x (snd j))) js)"
      "mset js = image_mset (Pair x) (mset_set (queued_set (chan (pipe_of s) x)))" unfolding user by blast
  from js(3) have "contents s' y = contents s y + image_mset (\<lambda>(ts, d). (ts, f d)) (contents s x)"
    unfolding fold_add_mset contents_jobs [OF js(5)] .
  with js(1,2,4,5) show ?thesis by (simp add: packet_of_def)
qed

definition ex_flow :: objects where
  "ex_flow = \<lparr>pipe_of = ex_idle, impl_at = ex_impl, handlers = [521 \<mapsto> UserFunction 0], connections = Map.empty,
     udp_at = (\<lambda>_. ex_udp), net_of = ex_net, data_at = (\<lambda>_. [7, 8])\<rparr>"

lemma ex_flow_chan:
  "queued_set (chan ex_idle 21) = {1000}" "packet_time (chan ex_idle 21) = packet_time (chan ex_queued 21)"
  "queued_set (chan ex_idle 22) = {}" "queued_set (chan ex_idle 23) = {}" "free_packets (chan ex_idle 23) = [3000]"
  "has_callback (chan ex_idle 21)" "\<not> has_callback (chan ex_idle 23)" "slots (chan ex_idle 21) = {1000, 1008}"
  "slots (chan ex_idle 23) = {3000}" "channel_base (chan ex_idle 21) = 521"
  using ex_idle_chan [of 21] ex_idle_chan [of 22] ex_idle_chan [of 23] ex_queued_facts(4) ex_frames(2,3) ex_two_chan(3)
    ex_built_chan(3-5) same_staticD(2,3) [OF ex_frames(4)] ex_one_chan(4) ex_slots
  by (simp_all add: SetBase_def queued_set_def slots_def)

lemma ex_flow_stage: "stage 521 21 6 ex_flow" "can_forward 521 21 523 23 0 1 ex_flow"
proof -
  have i: "pipeline_inv ex_idle" "past 6 ex_idle" "keep_running (sched ex_idle)"
    and e: "is_enabled (sched ex_idle) (single_thread_object (chan ex_idle 21))" and ch: "channels (sched ex_idle) = [21, 22, 23]"
    using ex_idle_ok ex_world_facts(7) by (simp_all add: idle_def ex_idle_sched)
  then show "stage 521 21 6 ex_flow" "can_forward 521 21 523 23 0 1 ex_flow"
    using ex_flow_chan by (simp_all add: stage_def can_forward_def owns_def ex_flow_def ex_impl_def nullptr_def)
qed

theorem forwarding_stage_witness:
  "\<exists>js s'. work_on (\<lambda>t _. forward 523 rev t) True False 0 (\<lambda>_. 6) 2 0 ex_flow = Some (js, s') \<and>
    contents s' 21 = {#} \<and> contents s' 23 = {#(3, [8, 7])#} \<and> js = [(21, 1000)]"
proof -
  have q: "queued_set (chan (pipe_of ex_flow) 21) = {1000}"
    using ex_flow_chan(1) by (simp_all add: ex_flow_def)
  have c: "contents ex_flow 21 = {#(3, [7, 8])#}" "contents ex_flow 23 = {#}"
    using ex_flow_chan(1,2,4) ex_queued_facts(6) by (simp_all add: contents_def packet_of_def ex_flow_def)
  have n: "card (queued_set (chan (pipe_of ex_flow) 21)) = 1" "card (queued_set (chan (pipe_of ex_flow) 21)) < 2" using q by simp_all
  have can: "can_forward 521 21 523 23 0 (card (queued_set (chan (pipe_of ex_flow) 21))) ex_flow"
    unfolding n(1) by (rule ex_flow_stage(2))
  have clk: "mono (\<lambda>_::nat. 6::time)" "(6::time) < kMaxTime" by (simp_all add: monoI kMaxTime_def)
  from forwarding_stage [where clk = "\<lambda>_. 6" and f = rev and user = "\<lambda>t _. forward 523 rev t" and dbg = True and big = False
      and op = 0 and k = 0, OF ex_flow_stage(1) can clk(1,2) refl n(2)]
  obtain js s' where w: "work_on (\<lambda>t _. forward 523 rev t) True False 0 (\<lambda>_. 6) 2 0 ex_flow = Some (js, s')"
    "contents s' 21 = {#}" "contents s' 23 = {#(3, [8, 7])#}" "mset js = {#(21, 1000)#}"
    using q c by auto
  then show ?thesis by (intro exI [of _ js] exI [of _ s']) simp
qed

end
