(* ===== verification/Distributed.thy ===== *)
theory Distributed
  imports Dataflow
begin

text \<open>
  Two computers: the scheduler of one drains a sender channel into the network, the receiver of the other fills a
  channel from what arrives. What the network does in between is arbitrary as long as it invents and duplicates nothing: it
  may lose and reorder datagrams.
\<close>

lemma fold_append_map: "fold (\<lambda>k l. l @ [g k]) ks l = l @ map g ks"
  by (induction ks arbitrary: l) simp_all

subsection \<open>A sender channel\<close>

text \<open>The connection \<open>c\<close> of the channel is in the state \<open>u\<close>, and the data of every packet fit into a datagram.\<close>

definition can_send :: "addr \<Rightarrow> addr \<Rightarrow> addr \<Rightarrow> udp_connection \<Rightarrow> nat \<Rightarrow> objects \<Rightarrow> bool" where
  "can_send b x c u n s \<longleftrightarrow>
     handlers s b = Some (BoundSendPacket b) \<and> connections s b = Some c \<and> udp_at s c = u \<and> UDP_Connection.IsConnected u \<and>
     (\<forall>p\<in>slots (chan (pipe_of s) x). int (16 + length (data_at s p)) \<le> max_packet_size u)"

definition datagram_of :: "bool \<Rightarrow> 64 word \<Rightarrow> sock_addr \<Rightarrow> time \<times> byte list \<Rightarrow> sock_addr \<times> byte list" where
  "datagram_of big op a = (\<lambda>(ts, d). (a, network_packet_bytes big (word_of_int ts) op d))"

lemma send_called:
  assumes can: "can_send b x c u (Suc n) s" and o: "owns s b x" and tr: "in_transit (pipe_of s) x p"
    and t: "op_time (chan (pipe_of s) x) p \<le> t"
  shows "\<exists>s'. CallbackTranslator user dbg big op t b p s = Some s' \<and> owns s' b x \<and> polite x t s s' \<and> can_send b x c u n s' \<and>
    datagrams (net_of s') = datagrams (net_of s) @ [datagram_of big op (remote_address u) (packet_of s x p)]"
proof -
  have s: "handlers s b = Some (BoundSendPacket b)" "connections s b = Some c" "udp_at s c = u" "UDP_Connection.IsConnected (udp_at s c)"
    "int (16 + length (data_at s p)) \<le> max_packet_size (udp_at s c)" "b \<noteq> nullptr"
    using can tr o by (simp_all add: can_send_def in_transit_def owns_def)
  from SendPacket_ok [OF o tr t s(2,4,5), of dbg big op] obtain s' where
    s': "SendPacket dbg big op t b (stub_new p b) s = Some s'" "owns s' b x" "frame x s s'" "data_at s' = data_at s"
      "queued_set (chan (pipe_of s') x) = queued_set (chan (pipe_of s) x)"
      "packet_time (chan (pipe_of s') x) = packet_time (chan (pipe_of s) x)"
      "datagrams (net_of s') = datagrams (net_of s) @ [(remote_address (udp_at s c),
        network_packet_bytes big (word_of_int (packet_time (chan (pipe_of s) x) p)) op (data_at s p))]" by blast
  have call: "CallbackTranslator user dbg big op t b p s = Some s'"
    using s(1,6) s'(1) by (simp add: CallbackTranslator_def PacketToProcess_new_def call_handler_def)
  have fr: "same_config (sched (pipe_of s)) (sched (pipe_of s'))" "\<And>z. z \<noteq> x \<Longrightarrow> chan (pipe_of s') z = chan (pipe_of s) z"
    "same_static (chan (pipe_of s') x) (chan (pipe_of s) x)" "impl_at s' = impl_at s" "handlers s' = handlers s"
    "connections s' = connections s" "udp_at s' = udp_at s"
    using s'(3) by (simp_all add: frame_def)
  have q: "queued_set (chan (pipe_of s') z) = queued_set (chan (pipe_of s) z)"
    "packet_time (chan (pipe_of s') z) = packet_time (chan (pipe_of s) z)" for z
    using fr(2) s'(5,6) by (cases "z = x"; simp)+
  have "past t (pipe_of s) \<longrightarrow> past t (pipe_of s')" using fr(1) by (simp add: past_def q same_config_def)
  moreover have "packet_of s' x r = packet_of s x r" for r by (simp add: packet_of_def q(2) s'(4))
  ultimately have "polite x t s s'" using fr(1,4) frame_static [OF s'(3)] q(1) by (simp add: polite_def)
  moreover have "can_send b x c u n s'"
    using can fr(5-7) s'(4) same_staticD(3) [OF fr(3)] by (simp add: can_send_def)
  ultimately show ?thesis using call s'(2,7) s(3) by (simp add: packet_of_def datagram_of_def)
qed

interpretation sending: consumer user dbg big op b x "can_send b x c u" "\<lambda>s. datagrams (net_of s)"
  "\<lambda>k l. l @ [datagram_of big op (remote_address u) k]" for user dbg big op b x c u
proof unfold_locales
  fix n s p t
  assume "can_send b x c u (Suc n) s" "owns s b x" "in_transit (pipe_of s) x p" "op_time (chan (pipe_of s) x) p \<le> t"
  then show "\<exists>s'. CallbackTranslator (user t) dbg big op t b p s = Some s' \<and> owns s' b x \<and> polite x t s s' \<and> can_send b x c u n s' \<and>
    datagrams (net_of s') = datagrams (net_of s) @ [datagram_of big op (remote_address u) (packet_of s x p)]"
    by (rule send_called)
next
  fix n s w assume can: "can_send b x c u n s" and w: "around x (pipe_of s) w"
  have "slots (chan w x) = slots (chan (pipe_of s) x)" using w same_staticD(3) by (auto simp: around_def)
  then show "can_send b x c u n (s\<lparr>pipe_of := w\<rparr>) \<and> datagrams (net_of (s\<lparr>pipe_of := w\<rparr>)) = datagrams (net_of s)"
    using can by (simp add: can_send_def)
qed

subsection \<open>A receiver\<close>

text \<open>The event \<open>e\<close> brings the datagram of the packet \<open>k\<close>, in time for its timestamp.\<close>

definition brings :: "bool \<Rightarrow> recv_event \<Rightarrow> time \<times> byte list \<Rightarrow> bool" where
  "brings big e k \<longleftrightarrow>
     (\<exists>a op. ev_datagram e = Some (datagram_of big op a k)) \<and> length (ev_memory e) = 16 + length (snd k) \<and>
     - (2 ^ 63) \<le> fst k \<and> fst k \<le> ev_pushed e \<and> ev_acquired e \<le> ev_pushed e \<and> ev_pushed e < kMaxTime"

definition receives_into :: "receiver \<Rightarrow> addr \<Rightarrow> nat \<Rightarrow> objects \<Rightarrow> bool" where
  "receives_into r y n s \<longleftrightarrow>
     owns s (ch_to_write r) y \<and> UDP_Connection.IsConnected (udp_at s (recv_connection r)) \<and>
     n \<le> length (free_packets (chan (pipe_of s) y))"

lemma receive_one_brings:
  assumes r: "receives_into r y (Suc n) s" and e: "0 < ev_polled e" "brings big e k"
    and fits: "int (16 + length (snd k)) \<le> max_packet_size (udp_at s (recv_connection r))"
  shows "\<exists>s'. receive_one dbg big e r s = Some s' \<and> receives_into r y n s' \<and> contents s' y = add_mset k (contents s y) \<and>
    max_packet_size (udp_at s' (recv_connection r)) = max_packet_size (udp_at s (recv_connection r))"
proof -
  have o: "owns s (ch_to_write r) y" and u: "UDP_Connection.IsConnected (udp_at s (recv_connection r))"
    and n: "Suc n \<le> length (free_packets (chan (pipe_of s) y))" using r by (simp_all add: receives_into_def)
  from n have "free_packets (chan (pipe_of s) y) \<noteq> []" by auto
  then obtain fs q where free: "free_packets (chan (pipe_of s) y) = fs @ [q]" by (metis append_butlast_last_id)
  have "channel_inv (chan (pipe_of s) y)" using o by (simp add: owns_def pipeline_inv_def)
  then have q: "q \<notin> queued_set (chan (pipe_of s) y)" using free by (auto simp: channel_inv_def)
  from e(2) obtain a op where d: "ev_datagram e = Some (a, network_packet_bytes big (word_of_int (fst k)) op (snd k))"
    "length (ev_memory e) = 16 + length (snd k)" "- (2 ^ 63) \<le> fst k" "fst k \<le> ev_pushed e" "ev_acquired e \<le> ev_pushed e"
    "ev_pushed e < kMaxTime" by (auto simp: brings_def datagram_of_def case_prod_beta)
  from receive_one_ok [OF o free u e(1) d(1,2) fits d(3-6), of dbg] obtain s' where
    s': "receive_one dbg big e r s = Some s'" "owns s' (ch_to_write r) y"
    "queued_set (chan (pipe_of s') y) = insert q (queued_set (chan (pipe_of s) y))" "free_packets (chan (pipe_of s') y) = fs"
    "packet_time (chan (pipe_of s') y) = (packet_time (chan (pipe_of s) y))(q := fst k)" "data_at s' = (data_at s)(q := snd k)"
    "udp_at s' (recv_connection r) = (udp_at s (recv_connection r))\<lparr>remote_address := a\<rparr>" by blast
  have "contents s' y = add_mset (fst k, data_at s' q) (contents s y)"
    by (rule contents_insert [OF q s'(3,5)]) (simp add: s'(6))
  then have "contents s' y = add_mset k (contents s y)" by (simp add: s'(6))
  moreover have "receives_into r y n s'"
    using s'(2,4,7) u n free by (simp add: receives_into_def UDP_Connection.IsConnected_def)
  ultimately show ?thesis using s'(1,7) by simp
qed

lemma ReceivePacket_brings:
  assumes "receives_into r y (length ks) s" and "list_all2 (brings big) (filter (\<lambda>e. 0 < ev_polled e) es) ks"
    and "\<forall>e\<in>set es. ev_running e" and "\<not> ev_running z"
    and "\<forall>k\<in>set ks. int (16 + length (snd k)) \<le> max_packet_size (udp_at s (recv_connection r))"
  shows "\<exists>s'. ReceivePacket dbg big (es @ [z]) r s = Some s' \<and> receives_into r y 0 s' \<and> contents s' y = contents s y + mset ks"
  using assms(1-3,5)
proof (induction es arbitrary: ks s)
  case Nil
  then show ?case using assms(4) by (intro exI [of _ s]) simp
next
  case (Cons e es)
  show ?case
  proof (cases "0 < ev_polled e")
    case False
    have "UDP_Connection.IsConnected (udp_at s (recv_connection r))" using Cons.prems(1) by (simp add: receives_into_def)
    with False have "receive_one dbg big e r s = Some s" by (simp add: receive_one_def udp_Poll_def)
    with Cons.IH [OF Cons.prems(1) _ _ Cons.prems(4)] Cons.prems(2,3) False show ?thesis by simp
  next
    case True
    with Cons.prems(2) obtain k ks' where k: "ks = k # ks'" "brings big e k"
      "list_all2 (brings big) (filter (\<lambda>e. 0 < ev_polled e) es) ks'" by (auto simp: list_all2_Cons1)
    have "receives_into r y (Suc (length ks')) s" "int (16 + length (snd k)) \<le> max_packet_size (udp_at s (recv_connection r))"
      using Cons.prems(1,4) k(1) by simp_all
    from receive_one_brings [OF this(1) True k(2) this(2), of dbg] obtain s1 where
      s1: "receive_one dbg big e r s = Some s1" "receives_into r y (length ks') s1" "contents s1 y = add_mset k (contents s y)"
        "max_packet_size (udp_at s1 (recv_connection r)) = max_packet_size (udp_at s (recv_connection r))" by blast
    have "\<forall>k\<in>set ks'. int (16 + length (snd k)) \<le> max_packet_size (udp_at s1 (recv_connection r))"
      using Cons.prems(4) k(1) s1(4) by simp
    from Cons.IH [OF s1(2) k(3) _ this] Cons.prems(3) obtain s' where
      "ReceivePacket dbg big (es @ [z]) r s1 = Some s'" "receives_into r y 0 s'" "contents s' y = contents s1 y + mset ks'" by auto
    with s1(1,3) Cons.prems(3) k(1) show ?thesis by simp
  qed
qed

subsection \<open>Two computers\<close>

text \<open>
  The bytes that arrive during the events, and what is asked of an event with a datagram: the packet object
  has the size of the datagram, and the clocks of the two computers agree well enough.
\<close>

definition arrivals :: "recv_event list \<Rightarrow> byte list list" where
  "arrivals es = map (\<lambda>e. snd (the (ev_datagram e))) (filter (\<lambda>e. 0 < ev_polled e) es)"

definition in_time :: "bool \<Rightarrow> recv_event \<Rightarrow> bool" where
  "in_time big e \<longleftrightarrow>
     ev_running e \<and>
     (0 < ev_polled e \<longrightarrow>
        ev_datagram e \<noteq> None \<and> length (ev_memory e) = length (snd (the (ev_datagram e))) \<and>
        sint (network_packet_timestamp big (snd (the (ev_datagram e)))) \<le> ev_pushed e \<and>
        ev_acquired e \<le> ev_pushed e \<and> ev_pushed e < kMaxTime)"

text \<open>The packet in a datagram, as the receiver's constructor of the packet reads it.\<close>

definition packet_in :: "bool \<Rightarrow> byte list \<Rightarrow> time \<times> byte list" where
  "packet_in big bs = (sint (network_packet_timestamp big bs), network_packet_data bs)"

lemma packet_in_datagram:
  "- (2 ^ 63) \<le> fst k \<Longrightarrow> fst k < 2 ^ 63 \<Longrightarrow> packet_in big (snd (datagram_of big op a k)) = k"
  by (cases k) (simp add: packet_in_def datagram_of_def network_packet_read sint_word_of_time)

lemma in_time_brings:
  assumes "in_time big e" and "0 < ev_polled e" and "snd (the (ev_datagram e)) = snd (datagram_of big op a k)"
    and "- (2 ^ 63) \<le> fst k" and "fst k < 2 ^ 63"
  shows "brings big e k"
proof -
  from assms(1,2) obtain a' bs where e: "ev_datagram e = Some (a', bs)" by (auto simp: in_time_def)
  have "ev_datagram e = Some (datagram_of big op a' k)" using e assms(3) by (simp add: datagram_of_def case_prod_beta)
  then have ex: "\<exists>a op. ev_datagram e = Some (datagram_of big op a k)" by blast
  have ts: "fst (packet_in big bs) = fst k" using packet_in_datagram [OF assms(4,5), of big op a] assms(3) e by simp
  have len: "length bs = 16 + length (snd k)" using assms(3) e by (simp add: datagram_of_def case_prod_beta length_network_packet)
  have "length (ev_memory e) = 16 + length (snd k)" "fst k \<le> ev_pushed e" "ev_acquired e \<le> ev_pushed e" "ev_pushed e < kMaxTime"
    using assms(1,2) e ts len by (simp_all add: in_time_def packet_in_def)
  with ex assms(4) show ?thesis unfolding brings_def by blast
qed

lemma sent_over:
  assumes ms: "mset (arrivals es) \<subseteq># mset (map snd sent)" and sent: "mset sent = image_mset (datagram_of big op a) K"
    and range: "\<And>k. k \<in># K \<Longrightarrow> - (2 ^ 63) \<le> fst k \<and> fst k < 2 ^ 63"
    and es: "\<forall>e\<in>set es. in_time big e"
  shows "list_all2 (brings big) (filter (\<lambda>e. 0 < ev_polled e) es) (map (packet_in big) (arrivals es))"
    and "mset (map (packet_in big) (arrivals es)) \<subseteq># K"
    and "mset (arrivals es) = mset (map snd sent) \<Longrightarrow> mset (map (packet_in big) (arrivals es)) = K"
    and "bs \<in> set (arrivals es) \<Longrightarrow> length bs = 16 + length (snd (packet_in big bs))"
proof -
  have bytes: "mset (map snd sent) = image_mset (\<lambda>k. snd (datagram_of big op a k)) K"
    using sent by (simp add: multiset.map_comp comp_def)
  have inv: "packet_in big (snd (datagram_of big op a k)) = k" if "k \<in># K" for k
    using range [OF that] by (simp add: packet_in_datagram)
  have "image_mset (packet_in big) (mset (map snd sent)) = image_mset (\<lambda>k. k) K"
    unfolding bytes multiset.map_comp by (rule image_mset_cong) (simp add: inv)
  then have dec: "image_mset (packet_in big) (mset (map snd sent)) = K" by simp
  then show "mset (map (packet_in big) (arrivals es)) \<subseteq># K" using image_mset_subseteq_mono [OF ms, of "packet_in big"] by simp
  show "mset (arrivals es) = mset (map snd sent) \<Longrightarrow> mset (map (packet_in big) (arrivals es)) = K" using dec by simp
  have origin: "\<exists>k. k \<in># K \<and> bs = snd (datagram_of big op a k) \<and> packet_in big bs = k" if "bs \<in> set (arrivals es)" for bs
  proof -
    have "bs \<in># mset (map snd sent)" using that mset_subset_eqD [OF ms] by simp
    then show ?thesis unfolding bytes using inv by auto
  qed
  show "bs \<in> set (arrivals es) \<Longrightarrow> length bs = 16 + length (snd (packet_in big bs))"
    using origin [of bs] by (auto simp: datagram_of_def case_prod_beta length_network_packet)
  show "list_all2 (brings big) (filter (\<lambda>e. 0 < ev_polled e) es) (map (packet_in big) (arrivals es))"
    unfolding arrivals_def map_map list_all2_map2
  proof (rule list.rel_refl_strong)
    fix e assume e: "e \<in> set (filter (\<lambda>e. 0 < ev_polled e) es)"
    then have "snd (the (ev_datagram e)) \<in> set (arrivals es)" by (auto simp: arrivals_def)
    from origin [OF this] obtain k where k: "k \<in># K" "snd (the (ev_datagram e)) = snd (datagram_of big op a k)"
      "packet_in big (snd (the (ev_datagram e))) = k" by blast
    with in_time_brings [of big e op a k] range [OF k(1)] e es
    show "brings big e ((packet_in big \<circ> (\<lambda>e. snd (the (ev_datagram e)))) e)" by simp
  qed
qed

subsection \<open>Properties\<close>

text \<open>
  C34: A dataflow over two computers of the same byte order. A worker that starts on a sender channel, when no other scheduled
  channel has packets queued, sends each queued packet
  in one datagram, in the order of the timestamps, and leaves the channel empty; the data fit into the datagrams of both connections, and timestamps are numbers of 64 bits. If what the receiver's
  loop takes from its socket until it is stopped are those datagrams, some of them perhaps lost and in any order but none twice, if the
  channel behind the receiver has a free packet for each packet of the source, and if the clocks agree well enough that no
  packet arrives before the time of its timestamp, then that channel
  gains exactly the packets in the datagrams that arrived, one for each, with the timestamps and data read from them; these are
  packets of the source, and if all arrive, everything that was in the source is in the target.
\<close>

theorem distributed_dataflow:
  assumes "stage b x (clk k) s" and "can_send b x c u N s" and "mono clk" and "\<And>k. clk k < kMaxTime"
    and "card (queued_set (chan (pipe_of s) x)) < N" and "\<forall>p\<in>queued_set (chan (pipe_of s) x). - (2 ^ 63) \<le> packet_time (chan (pipe_of s) x) p"
    and "receives_into rcv y (card (queued_set (chan (pipe_of s) x))) r"
    and "max_packet_size u \<le> max_packet_size (udp_at r (recv_connection rcv))"
    and "\<forall>e\<in>set es. in_time big e" and "\<not> ev_running z"
  shows "\<exists>js s' sent. work_on user dbg big op clk N k s = Some (js, s') \<and> contents s' x = {#} \<and>
    datagrams (net_of s') = datagrams (net_of s) @ sent \<and>
    sent = map (\<lambda>j. datagram_of big op (remote_address u) (packet_of s x (snd j))) js \<and>
    sorted (map (\<lambda>j. packet_time (chan (pipe_of s) x) (snd j)) js) \<and> mset js = image_mset (Pair x) (mset_set (queued_set (chan (pipe_of s) x))) \<and>
    (mset (arrivals es) \<subseteq># mset (map snd sent) \<longrightarrow>
      (\<exists>r'. ReceivePacket dbg big (es @ [z]) rcv r = Some r' \<and>
         contents r' y = contents r y + image_mset (packet_in big) (mset (arrivals es))) \<and>
      image_mset (packet_in big) (mset (arrivals es)) \<subseteq># contents s x \<and>
      (mset (arrivals es) = mset (map snd sent) \<longrightarrow> image_mset (packet_in big) (mset (arrivals es)) = contents s x))"
proof -
  let ?Q = "queued_set (chan (pipe_of s) x)"
  have can: "can_send b x c u (card ?Q) s" using assms(2) by (simp add: can_send_def)
  from sending.drains [OF assms(1) can assms(3-5), of user dbg big op] obtain js s' where
    js: "work_on user dbg big op clk N k s = Some (js, s')" "contents s' x = {#}"
      "datagrams (net_of s') = datagrams (net_of s) @ map (datagram_of big op (remote_address u)) (map (\<lambda>j. packet_of s x (snd j)) js)"
      "sorted (map (\<lambda>j. fst (packet_of s x (snd j))) js)" "mset js = image_mset (Pair x) (mset_set ?Q)"
    unfolding fold_append_map by blast
  define sent where "sent = map (\<lambda>j. datagram_of big op (remote_address u) (packet_of s x (snd j))) js"
  have sent: "mset sent = image_mset (datagram_of big op (remote_address u)) (contents s x)"
    unfolding contents_jobs [OF js(5), symmetric] sent_def by (simp add: multiset.map_comp comp_def)
  have own: "owns s b x" "past (clk k) (pipe_of s)" using assms(1) by (simp_all add: stage_def)
  then have x: "x \<in> set (channels (sched (pipe_of s)))" "channel_inv (chan (pipe_of s) x)" by (simp_all add: owns_def pipeline_inv_def)
  have elem: "- (2 ^ 63) \<le> fst q \<and> fst q < 2 ^ 63 \<and> int (16 + length (snd q)) \<le> max_packet_size u" if q: "q \<in># contents s x" for q
  proof -
    from q obtain p where p: "p \<in> ?Q" "q = packet_of s x p" by (auto simp: contents_def)
    have "p \<in> slots (chan (pipe_of s) x)" using p(1) x(2) by (auto simp: channel_inv_def)
    moreover have "packet_time (chan (pipe_of s) x) p < 2 ^ 63"
      using pastD [OF own(2) x(1) p(1)] assms(4) [of k] by (simp add: kMaxTime_def)
    ultimately show ?thesis using assms(2,6) p by (simp add: packet_of_def can_send_def)
  qed
  have "(\<exists>r'. ReceivePacket dbg big (es @ [z]) rcv r = Some r' \<and>
         contents r' y = contents r y + image_mset (packet_in big) (mset (arrivals es))) \<and>
      image_mset (packet_in big) (mset (arrivals es)) \<subseteq># contents s x \<and>
      (mset (arrivals es) = mset (map snd sent) \<longrightarrow> image_mset (packet_in big) (mset (arrivals es)) = contents s x)"
    if ms: "mset (arrivals es) \<subseteq># mset (map snd sent)"
  proof -
    let ?ks = "map (packet_in big) (arrivals es)"
    have "\<forall>e\<in>set es. in_time big e" using assms(9) by blast
    note over = sent_over [OF ms sent _ this]
    have ks: "list_all2 (brings big) (filter (\<lambda>e. 0 < ev_polled e) es) ?ks" "mset ?ks \<subseteq># contents s x"
      "mset (arrivals es) = mset (map snd sent) \<longrightarrow> mset ?ks = contents s x"
      using over(1-3) elem by blast+
    have "length ?ks \<le> card ?Q"
      using size_mset_mono [OF ks(2)] by (simp add: contents_def)
    then have "receives_into rcv y (length ?ks) r" using assms(7) by (simp add: receives_into_def)
    moreover have "\<forall>q\<in>set ?ks. int (16 + length (snd q)) \<le> max_packet_size (udp_at r (recv_connection rcv))"
    proof
      fix q assume "q \<in> set ?ks"
      then have "q \<in># contents s x" using mset_subset_eqD [OF ks(2), of q] by simp
      from elem [OF this] assms(8) show "int (16 + length (snd q)) \<le> max_packet_size (udp_at r (recv_connection rcv))" by simp
    qed
    moreover have "\<forall>e\<in>set es. ev_running e" using assms(9) by (simp add: in_time_def)
    ultimately obtain r' where "ReceivePacket dbg big (es @ [z]) rcv r = Some r'" "contents r' y = contents r y + mset ?ks"
      using ReceivePacket_brings [of rcv y ?ks r big es z dbg] ks(1) assms(10) by blast
    with ks(2,3) show ?thesis by simp
  qed
  then show ?thesis using js sent_def
    by (intro exI [of _ js] exI [of _ s'] exI [of _ sent]) (simp add: packet_of_def comp_def)
qed

definition ex_sending :: objects where
  "ex_sending = ex_flow\<lparr>handlers := [521 \<mapsto> BoundSendPacket 521], connections := [521 \<mapsto> 9], data_at := (\<lambda>_. [7])\<rparr>"

lemma ex_sending_stage: "stage 521 21 6 ex_sending" "can_send 521 21 9 ex_udp 2 ex_sending"
  using ex_flow_stage(1)
  by (simp_all add: stage_def owns_def can_send_def ex_sending_def ex_flow_def ex_udp_def UDP_Connection.IsConnected_def)

theorem distributed_dataflow_witness:
  "\<exists>js s' r'. work_on (\<lambda>_ _ _. Map.empty) True False 0 (\<lambda>_. 6) 2 0 ex_sending = Some (js, s') \<and>
    datagrams (net_of s') = [(remote_address ex_udp, ex_bytes)] \<and>
    ReceivePacket True False [ex_event, ex_event\<lparr>ev_running := False\<rparr>] ex_receiver ex_objects = Some r' \<and>
    contents s' 21 = {#} \<and> contents r' 22 = {#(3, [7])#}"
proof -
  have q: "queued_set (chan (pipe_of ex_sending) 21) = {1000}" "packet_time (chan (pipe_of ex_sending) 21) 1000 = 3"
    using ex_flow_chan(1,2) ex_queued_facts(6) by (simp_all add: ex_sending_def ex_flow_def)
  then have c: "contents ex_sending 21 = {#(3, [7])#}" by (simp add: contents_def packet_of_def ex_sending_def)
  have "free_packets (chan (pipe_of ex_objects) 22) = [2000]" "queued_set (chan (pipe_of ex_objects) 22) = {}"
    using ex_built_chan(2) ex_two_chan(2,3) by (simp_all add: ex_objects_def)
  then have r: "receives_into ex_receiver 22 (card (queued_set (chan (pipe_of ex_sending) 21))) ex_objects" "contents ex_objects 22 = {#}"
    using ex_objects_owns q(1)
    by (simp_all add: receives_into_def contents_def ex_receiver_def) (simp add: ex_objects_def ex_udp_def UDP_Connection.IsConnected_def)
  have size: "max_packet_size ex_udp \<le> max_packet_size (udp_at ex_objects (recv_connection ex_receiver))" by (simp add: ex_objects_def)
  have ts: "sint (network_packet_timestamp False ex_bytes) = 3"
    unfolding ex_bytes_def network_packet_read by simp
  have in_time: "\<forall>e\<in>set [ex_event]. in_time False e"
    using ts length_network_packet [of False 3 0 "[7]"] by (simp add: in_time_def ex_event_def ex_bytes_def kMaxTime_def)
  have clk: "mono (\<lambda>_::nat. 6::time)" "(6::time) < kMaxTime" by (simp_all add: monoI kMaxTime_def)
  have n: "card (queued_set (chan (pipe_of ex_sending) 21)) < 2" using q(1) by simp
  have low: "\<forall>p\<in>queued_set (chan (pipe_of ex_sending) 21). - (2 ^ 63) \<le> packet_time (chan (pipe_of ex_sending) 21) p" using q by simp
  have z: "\<not> ev_running (ex_event\<lparr>ev_running := False\<rparr>)" by simp
  from distributed_dataflow [where clk = "\<lambda>_. 6" and k = 0 and user = "\<lambda>_ _ _. Map.empty" and dbg = True and op = 0
      and es = "[ex_event]", OF ex_sending_stage(1,2) clk n low r(1) size in_time z]
  obtain js s' sent where w: "work_on (\<lambda>_ _ _. Map.empty) True False 0 (\<lambda>_. 6) 2 0 ex_sending = Some (js, s')"
    "contents s' 21 = {#}" "datagrams (net_of s') = datagrams (net_of ex_sending) @ sent"
    "sent = map (\<lambda>j. datagram_of False 0 (remote_address ex_udp) (packet_of ex_sending 21 (snd j))) js"
    "mset js = image_mset (Pair 21) (mset_set (queued_set (chan (pipe_of ex_sending) 21)))"
    "mset (arrivals [ex_event]) \<subseteq># mset (map snd sent) \<longrightarrow>
      (\<exists>r'. ReceivePacket True False ([ex_event] @ [ex_event\<lparr>ev_running := False\<rparr>]) ex_receiver ex_objects = Some r' \<and>
         contents r' 22 = contents ex_objects 22 + image_mset (packet_in False) (mset (arrivals [ex_event]))) \<and>
      image_mset (packet_in False) (mset (arrivals [ex_event])) \<subseteq># contents ex_sending 21 \<and>
      (mset (arrivals [ex_event]) = mset (map snd sent) \<longrightarrow>
         image_mset (packet_in False) (mset (arrivals [ex_event])) = contents ex_sending 21)"
    by (elim exE conjE) (rule that)
  have "js = [(21, 1000)]" using w(5) q(1) by simp
  then have sent: "sent = [(remote_address ex_udp, ex_bytes)]"
    using w(4) q(2) by (simp add: packet_of_def datagram_of_def ex_bytes_def ex_sending_def)
  have "arrivals [ex_event] = [ex_bytes]" by (simp add: arrivals_def ex_event_def)
  then have all: "mset (arrivals [ex_event]) = mset (map snd sent)" using sent by simp
  with w(6) obtain r' where
    "ReceivePacket True False ([ex_event] @ [ex_event\<lparr>ev_running := False\<rparr>]) ex_receiver ex_objects = Some r'"
    "contents r' 22 = contents ex_objects 22 + contents ex_sending 21" by auto
  then have "ReceivePacket True False [ex_event, ex_event\<lparr>ev_running := False\<rparr>] ex_receiver ex_objects = Some r'"
    "contents r' 22 = {#(3, [7])#}" using r(2) c by simp_all
  moreover have "datagrams (net_of ex_sending) = []" by (simp add: ex_sending_def ex_flow_def ex_net_def)
  ultimately show ?thesis using w(1-3) sent by auto
qed

end
