(* ===== verification/Memory_Bounds.thy ===== *)
theory Memory_Bounds
  imports Example_Pipelines
begin

text \<open>
  The memory of the job queues. The constructors of channels and the registration in the scheduler
  reserve room in every vector (\<^verbatim>\<open>SteadyHeap::reserve\<close>); the lemmas show that this room is enough: no step of
  the running system makes a vector grow, so that, as the README promises, nothing is allocated while the scheduler runs.
\<close>

subsection \<open>Capacities\<close>

text \<open>The capacities of the scheduler's vectors, and those of the whole pipeline.\<close>

definition capacities :: "scheduler \<Rightarrow> nat \<times> (addr \<rightharpoonup> nat)" where
  "capacities s = (heap_capacity (state_queue s), \<lambda>st. map_option (\<lambda>q. heap_capacity (channel_heap q)) (state_queues s st))"

definition memory_of :: "pipeline \<Rightarrow> (nat \<times> (addr \<rightharpoonup> nat)) \<times> (addr \<Rightarrow> nat)" where
  "memory_of w = (capacities (sched w), \<lambda>x. heap_capacity (queued_packets (chan w x)))"

text \<open>What registration reserves: room for every state, and in every state for every channel.\<close>

definition channels_of :: "pipeline \<Rightarrow> addr \<Rightarrow> addr set" where
  "channels_of w st = {x \<in> set (channels (sched w)). single_thread_object (chan w x) = st}"

definition reserved :: "pipeline \<Rightarrow> bool" where
  "reserved w \<longleftrightarrow>
     finite (dom (state_queues (sched w))) \<and>
     card (dom (state_queues (sched w))) \<le> heap_capacity (state_queue (sched w)) \<and>
     (\<forall>st q. state_queues (sched w) st = Some q \<longrightarrow> card (channels_of w st) \<le> heap_capacity (channel_heap q))"

lemma push_room: "heap_size (push_heap cmp v h) \<le> heap_capacity h \<Longrightarrow> heap_capacity (push_heap cmp v h) = heap_capacity h"
  by (rule heap_capacity_push) (simp add: push_heap_def push_back_def heap_size_def Let_def std_push_heap_def)

lemma pop_room: "pop_heap cmp h = Some h' \<Longrightarrow> heap_capacity h' = heap_capacity h"
  by (auto simp: pop_heap_def split: if_splits)

lemma force_pop_room: "force_pop_heap cmp v h = Some h' \<Longrightarrow> heap_capacity h' = heap_capacity h"
  by (auto simp: force_pop_heap_def force_to_top_def bind_eq_Some_conv dest: pop_room)

text \<open>
  A section that keeps the states, and whose vectors grow only if what they hold at the end does not fit.
\<close>

definition roomy :: "scheduler \<Rightarrow> scheduler \<Rightarrow> bool" where
  "roomy s s' \<longleftrightarrow>
     same_setup s s' \<and> dom (state_queues s') = dom (state_queues s) \<and>
     (heap_size (state_queue s') \<le> heap_capacity (state_queue s) \<longrightarrow>
        heap_capacity (state_queue s') = heap_capacity (state_queue s)) \<and>
     (\<forall>st q q'. state_queues s st = Some q \<longrightarrow> state_queues s' st = Some q' \<longrightarrow>
        heap_size (channel_heap q') \<le> heap_capacity (channel_heap q) \<longrightarrow>
        heap_capacity (channel_heap q') = heap_capacity (channel_heap q))"

lemma roomy_refl [simp]: "roomy s s"
  by (simp add: roomy_def)

lemma roomy_after:
  assumes "capacities s1 = capacities s" and "same_setup s s1" and "roomy s1 s'"
  shows "roomy s s'"
proof -
  have c: "map_option (\<lambda>q. heap_capacity (channel_heap q)) (state_queues s1 st) =
      map_option (\<lambda>q. heap_capacity (channel_heap q)) (state_queues s st)" for st
    using assms(1) by (simp add: capacities_def fun_eq_iff)
  have "\<exists>q1. state_queues s1 st = Some q1 \<and> heap_capacity (channel_heap q1) = heap_capacity (channel_heap q)"
    if "state_queues s st = Some q" for st q using c [of st] that by auto
  moreover have "dom (state_queues s1) = dom (state_queues s)"
  proof (intro set_eqI)
    fix st show "st \<in> dom (state_queues s1) \<longleftrightarrow> st \<in> dom (state_queues s)"
      using c [of st] by (cases "state_queues s1 st"; cases "state_queues s st") auto
  qed
  moreover have "heap_capacity (state_queue s1) = heap_capacity (state_queue s)" using assms(1) by (simp add: capacities_def)
  ultimately show ?thesis
    using assms(3) same_setup_trans [OF assms(2)] unfolding roomy_def by (metis (no_types, lifting))
qed

subsection \<open>The notifications\<close>

lemma roomy_queue:
  assumes "state_queues s st = Some q" and "state_queues s' = (state_queues s)(st \<mapsto> q')" and "same_setup s s'"
    and "heap_size (channel_heap q') \<le> heap_capacity (channel_heap q) \<Longrightarrow>
      heap_capacity (channel_heap q') = heap_capacity (channel_heap q)"
    and "heap_size (state_queue s') \<le> heap_capacity (state_queue s) \<Longrightarrow>
      heap_capacity (state_queue s') = heap_capacity (state_queue s)"
  shows "roomy s s'"
  using assms by (auto simp: roomy_def)

lemma queue_of_dom: "st \<in> dom (state_queues s) \<Longrightarrow> state_queues s st = Some (queue_of s st)"
  by (auto simp: queue_of_def)

lemma emit_frame: "state_queues (emit e s) = state_queues s" "state_queue (emit e s) = state_queue s" "same_setup s (emit e s') = same_setup s s'"
  "same_setup s (set_queue st q s') = same_setup s s'" "same_setup s (s'\<lparr>state_queue := h\<rparr>) = same_setup s s'"
  by (simp_all add: emit_def same_setup_def set_queue_def)

lemma JobsArrived_roomy:
  assumes "single_thread_object (ch x) \<in> dom (state_queues s)" and "JobsArrived ch x s = Some s'"
  shows "roomy s s'"
proof -
  let ?st = "single_thread_object (ch x)"
  let ?q = "queue_of s ?st"
  let ?h = "push_heap (ChannelOrdering ch) x (channel_heap ?q)"
  have s': "state_queues s' = (state_queues s)(?st \<mapsto> ?q\<lparr>channel_heap := ?h\<rparr>)" "same_setup s s'"
    using assms(2) by (auto simp: JobsArrived_def Let_def bind_eq_Some_conv emit_frame split: if_splits)
  have "heap_capacity (state_queue s') = heap_capacity (state_queue s)"
    if "heap_size (state_queue s') \<le> heap_capacity (state_queue s)"
    using assms(2) that
    by (auto simp: JobsArrived_def Let_def bind_eq_Some_conv emit_frame push_room split: if_splits dest!: force_pop_room)
  then show ?thesis
    by (intro roomy_queue [OF queue_of_dom [OF assms(1)] s']) (simp_all add: push_room)
qed

lemma JobsUpdated_roomy:
  assumes "single_thread_object (ch x) \<in> dom (state_queues s)" and "JobsUpdated ch x was_push s = Some s'"
  shows "roomy s s'"
proof -
  let ?st = "single_thread_object (ch x)"
  let ?q = "queue_of s ?st"
  obtain h where h: "force_pop_heap (ChannelOrdering ch) x (channel_heap ?q) = Some h"
    and s': "state_queues s' = (state_queues s)(?st \<mapsto> ?q\<lparr>channel_heap := push_heap (ChannelOrdering ch) x h\<rparr>)"
      "same_setup s s'"
    using assms(2) by (auto simp: JobsUpdated_def Let_def bind_eq_Some_conv emit_frame split: if_splits)
  have "heap_capacity (state_queue s') = heap_capacity (state_queue s)"
    if "heap_size (state_queue s') \<le> heap_capacity (state_queue s)"
    using assms(2) that
    by (auto simp: JobsUpdated_def Let_def bind_eq_Some_conv emit_frame push_room split: if_splits dest!: force_pop_room)
  then show ?thesis
    using force_pop_room [OF h] push_room [of "ChannelOrdering ch" x h]
    by (intro roomy_queue [OF queue_of_dom [OF assms(1)] s']) simp_all
qed

lemma JobsDropped_roomy:
  assumes "single_thread_object (ch x) \<in> dom (state_queues s)" and "JobsDropped ch x s = Some s'"
  shows "roomy s s'"
proof -
  let ?st = "single_thread_object (ch x)"
  let ?q = "queue_of s ?st"
  obtain h where h: "force_pop_heap (ChannelOrdering ch) x (channel_heap ?q) = Some h"
    and s': "state_queues s' = (state_queues s)(?st \<mapsto> ?q\<lparr>channel_heap := h\<rparr>)" "same_setup s s'"
    using assms(2) by (auto simp: JobsDropped_def Let_def bind_eq_Some_conv emit_frame split: if_splits)
  have "heap_capacity (state_queue s') = heap_capacity (state_queue s)"
    if "heap_size (state_queue s') \<le> heap_capacity (state_queue s)"
    using assms(2) that
    by (auto simp: JobsDropped_def Let_def bind_eq_Some_conv push_room split: if_splits dest!: force_pop_room)
  then show ?thesis
    using force_pop_room [OF h] by (intro roomy_queue [OF queue_of_dom [OF assms(1)] s']) simp_all
qed

subsection \<open>The sections\<close>

lemma Push_memory:
  assumes inv: "pipeline_inv w" and x: "x \<in> set (channels (sched w))" and push: "Push t x p w = Some w'"
  shows "roomy (sched w) (sched w')"
    and "heap_capacity (queued_packets (chan w' y)) = heap_capacity (queued_packets (chan w y))"
    and "single_thread_object (chan w' y) = single_thread_object (chan w y)"
proof -
  have d: "single_thread_object (chan w x) \<in> dom (state_queues (sched w))"
    and cap: "channel_capacity (chan w x) \<le> heap_capacity (queued_packets (chan w x))"
    using inv x by (simp_all add: pipeline_inv_def sched_inv_def heaps_inv_def channel_inv_def)
  have s: "sched w' = sched w \<or> JobsArrived (chan w') x (sched w) = Some (sched w') \<or>
      JobsUpdated (chan w') x True (sched w) = Some (sched w')"
    using push unfolding Push_def Let_def by (auto simp: assert_that_eq bind_eq_Some_conv split: if_splits)
  have o: "single_thread_object (chan w' x) = single_thread_object (chan w x)"
    and other: "\<And>y. y \<noteq> x \<Longrightarrow> chan w' y = chan w y"
    using push unfolding Push_def Let_def by (auto simp: assert_that_eq bind_eq_Some_conv split: if_splits)
  have "heap_size (queued_packets (chan w x)) < channel_capacity (chan w x) \<Longrightarrow>
      heap_capacity (queued_packets (chan w' x)) = heap_capacity (queued_packets (chan w x))"
    and "heap_size (queued_packets (chan w x)) < channel_capacity (chan w x)"
    using push cap unfolding Push_def Let_def by (auto simp: assert_that_eq bind_eq_Some_conv split: if_splits)
  then show "heap_capacity (queued_packets (chan w' y)) = heap_capacity (queued_packets (chan w y))"
    using other [of y] by (cases "y = x") simp_all
  show "roomy (sched w) (sched w')"
    using s JobsArrived_roomy [of "chan w'" x] JobsUpdated_roomy [of "chan w'" x] d unfolding o by (metis roomy_refl)
  show "single_thread_object (chan w' y) = single_thread_object (chan w y)" using o other [of y] by (cases "y = x") simp_all
qed

lemma PopNext_memory:
  assumes d: "single_thread_object (chan w x) \<in> dom (state_queues (sched w))" and pop: "PopNext t x dropping w = Some (p, w')"
  shows "roomy (sched w) (sched w')"
    and "heap_capacity (queued_packets (chan w' y)) = heap_capacity (queued_packets (chan w y))"
    and "single_thread_object (chan w' y) = single_thread_object (chan w y)"
proof -
  obtain q where q: "pop_heap (PacketOrdering (chan w x)) (queued_packets (chan w x)) = Some q"
    and s: "sched w' = sched w \<or> JobsDropped ((chan w)(x := (chan w x)\<lparr>queued_packets := q\<rparr>)) x (sched w) = Some (sched w') \<or>
      JobsUpdated ((chan w)(x := (chan w x)\<lparr>queued_packets := q\<rparr>)) x False (sched w) = Some (sched w')"
    and c: "queued_packets (chan w' x) = q" "single_thread_object (chan w' x) = single_thread_object (chan w x)"
      "\<forall>y. y \<noteq> x \<longrightarrow> chan w' y = chan w y"
    using pop by (auto simp: PopNext_def Let_def bind_eq_Some_conv stamp_operation_def split: if_splits)
  show "roomy (sched w) (sched w')"
    using s
  proof (elim disjE)
    assume j: "JobsDropped ((chan w)(x := (chan w x)\<lparr>queued_packets := q\<rparr>)) x (sched w) = Some (sched w')"
    show ?thesis by (rule JobsDropped_roomy [OF _ j]) (use d in simp)
  next
    assume j: "JobsUpdated ((chan w)(x := (chan w x)\<lparr>queued_packets := q\<rparr>)) x False (sched w) = Some (sched w')"
    show ?thesis by (rule JobsUpdated_roomy [OF _ j]) (use d in simp)
  qed simp
  show "heap_capacity (queued_packets (chan w' y)) = heap_capacity (queued_packets (chan w y))"
    "single_thread_object (chan w' y) = single_thread_object (chan w y)"
    using c pop_room [OF q] by (cases "y = x"; simp)+
qed

lemma GetNext_memory:
  assumes d: "single_thread_object (chan w x) \<in> dom (state_queues (sched w))" and get: "GetNext t x dropping w = Some (Some p, w')"
  shows "roomy (sched w) (sched w')"
    and "heap_capacity (queued_packets (chan w' y)) = heap_capacity (queued_packets (chan w y))"
    and "single_thread_object (chan w' y) = single_thread_object (chan w y)"
proof -
  have "PopNext t x dropping w = Some (p, w')" using get by (auto simp: GetNext_def bind_eq_Some_conv split: if_splits)
  from PopNext_memory [OF d this] show "roomy (sched w) (sched w')"
    "heap_capacity (queued_packets (chan w' y)) = heap_capacity (queued_packets (chan w y))"
    "single_thread_object (chan w' y) = single_thread_object (chan w y)" by blast+
qed

lemma disable_state_memory:
  assumes "state_queues s st = Some q" and "disable_state ch st q s = Some s'"
  shows "capacities s' = capacities s" and "same_setup s s'" and "dom (state_queues s') = dom (state_queues s)"
  using assms by (auto simp: disable_state_def same_setup_def set_queue_def Let_def bind_eq_Some_conv capacities_def dom_def dest: pop_room split: if_splits)

lemma pick_task_memory:
  assumes pick: "pick_task t w = Some (Some (st, x, p), w')"
  shows "roomy (sched w) (sched w')"
    and "heap_capacity (queued_packets (chan w' y)) = heap_capacity (queued_packets (chan w y))"
    and "single_thread_object (chan w' y) = single_thread_object (chan w y)"
proof -
  obtain q s1 where q: "state_queues (sched w) st = Some q" "single_thread_object (chan w x) = st"
    and s1: "(if st \<noteq> nullptr then disable_state (chan w) st q (sched w) else Some (sched w)) = Some s1"
    and pop: "PopNext t x False (w\<lparr>sched := s1\<rparr>) = Some (p, w')"
    using pick unfolding pick_task_def by (auto simp: assert_that_eq bind_eq_Some_conv split: if_splits intro: that)
  have c: "capacities s1 = capacities (sched w)" "same_setup (sched w) s1" "dom (state_queues s1) = dom (state_queues (sched w))"
    using s1 disable_state_memory [OF q(1)] by (auto split: if_splits)
  have d: "single_thread_object (chan (w\<lparr>sched := s1\<rparr>) x) \<in> dom (state_queues (sched (w\<lparr>sched := s1\<rparr>)))"
    using q c(3) by auto
  from PopNext_memory [OF d pop] have "roomy s1 (sched w')"
    "heap_capacity (queued_packets (chan w' y)) = heap_capacity (queued_packets (chan w y))"
    "single_thread_object (chan w' y) = single_thread_object (chan w y)" by simp_all
  then show "roomy (sched w) (sched w')" "heap_capacity (queued_packets (chan w' y)) = heap_capacity (queued_packets (chan w y))"
    "single_thread_object (chan w' y) = single_thread_object (chan w y)"
    using roomy_after [OF c(1,2)] by simp_all
qed

lemma finish_task_memory:
  assumes "finish_task st w = Some w'"
  shows "roomy (sched w) (sched w')" and "chan w' = chan w"
proof -
  show "chan w' = chan w" using assms by (auto simp: finish_task_def Let_def bind_eq_Some_conv split: if_splits)
  show "roomy (sched w) (sched w')"
  proof (cases "st = nullptr")
    case True
    with assms show ?thesis by (simp add: finish_task_def)
  next
    case False
    with assms obtain q where q: "state_queues (sched w) st = Some q"
      and s: "sched w' = (let s1 = set_queue st (q\<lparr>enabled := True\<rparr>) (sched w) in
          if \<not> heap_empty (channel_heap q)
          then s1\<lparr>state_queue := push_heap (StateOrdering (chan w) (state_queues s1)) st (state_queue s1)\<rparr> else s1)"
      by (auto simp: finish_task_def assert_that_eq bind_eq_Some_conv Let_def cong: if_cong intro!: that)
    show ?thesis
      by (rule roomy_queue [OF q, where q' = "q\<lparr>enabled := True\<rparr>"]) (auto simp: s Let_def push_room same_setup_def set_queue_def split: if_splits)
  qed
qed

text \<open>Reserved memory is enough for what the invariant allows at the end of a section.\<close>

lemma reserved_enough:
  assumes res: "reserved w" and inv: "pipeline_inv w'" and room: "roomy (sched w) (sched w')"
    and obj: "\<And>y. single_thread_object (chan w' y) = single_thread_object (chan w y)"
  shows "capacities (sched w') = capacities (sched w)" and "reserved w'"
proof -
  let ?s = "sched w" and ?s' = "sched w'"
  have dm: "dom (state_queues ?s') = dom (state_queues ?s)" and ch: "channels ?s' = channels ?s"
    using room by (simp_all add: roomy_def same_setup_def)
  have sq: "queue_inv (state_key (chan w') (state_queues ?s')) (state_queue ?s')" "heap_set (state_queue ?s') = ready_states ?s'"
    and hi: "heaps_inv (chan w') ?s'" using inv by (simp_all add: pipeline_inv_def sched_inv_def states_inv_def)
  have fin: "finite (dom (state_queues ?s))" "card (dom (state_queues ?s)) \<le> heap_capacity (state_queue ?s)"
    using res by (simp_all add: reserved_def)
  have "heap_size (state_queue ?s') = card (ready_states ?s')" using heap_size_card [OF sq(1)] sq(2) by simp
  also have "\<dots> \<le> card (dom (state_queues ?s'))" using fin(1) dm by (intro card_mono) (auto simp: ready_states_def)
  finally have top: "heap_capacity (state_queue ?s') = heap_capacity (state_queue ?s)"
    using room fin(2) dm by (simp add: roomy_def)
  have sub: "heap_capacity (channel_heap q') = heap_capacity (channel_heap q)"
    if q: "state_queues ?s st = Some q" "state_queues ?s' st = Some q'" for st q q'
  proof -
    have h: "queue_inv (channel_key (chan w')) (channel_heap q')" "heap_set (channel_heap q') = jobs_of (chan w') ?s' st"
      using hi q(2) by (simp_all add: heaps_inv_def)
    have "heap_size (channel_heap q') = card (jobs_of (chan w') ?s' st)" using heap_size_card [OF h(1)] h(2) by simp
    also have "\<dots> \<le> card (channels_of w st)"
      using ch obj by (intro card_mono) (auto simp: jobs_of_def channels_of_def)
    finally show ?thesis using room res q by (force simp: roomy_def reserved_def)
  qed
  have eq: "map_option (\<lambda>q. heap_capacity (channel_heap q)) (state_queues ?s' st) =
      map_option (\<lambda>q. heap_capacity (channel_heap q)) (state_queues ?s st)" for st
  proof (cases "state_queues ?s st")
    case None
    then have "st \<notin> dom (state_queues ?s')" by (simp add: dm domIff)
    with None show ?thesis by (simp add: domIff)
  next
    case (Some q)
    then have "st \<in> dom (state_queues ?s')" by (auto simp: dm)
    with Some sub show ?thesis by auto
  qed
  then show "capacities ?s' = capacities ?s" using top by (simp add: capacities_def)
  have "card (channels_of w' st) \<le> heap_capacity (channel_heap q')" if q': "state_queues ?s' st = Some q'" for st q'
  proof -
    from q' dm obtain q where q: "state_queues ?s st = Some q" by blast
    have "channels_of w' st = channels_of w st" by (simp add: channels_of_def ch obj)
    with q q' sub [OF q q'] res show ?thesis by (simp add: reserved_def)
  qed
  then show "reserved w'" using fin top dm by (simp add: reserved_def)
qed

subsection \<open>The running system\<close>

definition same_memory :: "world \<Rightarrow> world \<Rightarrow> bool" where
  "same_memory W W' \<longleftrightarrow> memory_of (pipe W') = memory_of (pipe W) \<and> reserved (pipe W')"

text \<open>What a step may do to the scheduler: run one such section, or clear the flag.\<close>

definition section_step :: "world \<Rightarrow> world \<Rightarrow> bool" where
  "section_step W W' \<longleftrightarrow>
     (roomy (sched (pipe W)) (sched (pipe W')) \<or> sched (pipe W') = (sched (pipe W))\<lparr>keep_running := False\<rparr>) \<and>
     (\<forall>y. single_thread_object (chan (pipe W') y) = single_thread_object (chan (pipe W) y) \<and>
        heap_capacity (queued_packets (chan (pipe W') y)) = heap_capacity (queued_packets (chan (pipe W) y)))"

lemma section_stepI:
  assumes "roomy (sched (pipe W)) (sched (pipe W'))"
    and "\<And>y. single_thread_object (chan (pipe W') y) = single_thread_object (chan (pipe W) y)"
    and "\<And>y. heap_capacity (queued_packets (chan (pipe W') y)) = heap_capacity (queued_packets (chan (pipe W) y))"
  shows "section_step W W'"
  using assms by (simp add: section_step_def)

lemma section_step_pcs: "pipe W' = pipe W \<Longrightarrow> section_step W W'"
  by (simp add: section_step_def)

lemma registered_object:
  assumes "world_inv W" and "x \<in> registered W"
  shows "single_thread_object (chan (pipe W) x) \<in> dom (state_queues (sched (pipe W)))"
  using assms by (simp add: world_inv_def pipeline_inv_def sched_inv_def heaps_inv_def registered_def)

lemma Release_frame:
  assumes "ReleaseAt t x p dropping w = Some w'"
  shows "sched w' = sched w" and "single_thread_object (chan w' y) = single_thread_object (chan w y)"
    and "queued_packets (chan w' y) = queued_packets (chan w y)"
  using assms by (auto simp: ReleaseAt_def Release_def bind_eq_Some_conv split: if_splits)

lemma step_section:
  assumes inv: "world_inv W" and st: "step W W'"
  shows "section_step W W'"
  using st
proof cases
  case (pick_nothing i w')
  have "w' = pipe W" using pick_nothing(5) by (auto simp: pick_task_def bind_eq_Some_conv split: if_splits)
  then show ?thesis using pick_nothing(1) by (intro section_step_pcs) simp
next
  case (pick i st x p w' pc')
  show ?thesis by (rule section_stepI) (use pick_task_memory [OF pick(4)] in \<open>simp_all add: pick(1)\<close>)
next
  case (finish i st x p d w')
  have "chan w' y = ((chan (pipe W))(x := Log (log_event EventExecuteTime d) (chan (pipe W) x))) y" for y
    using finish_task_memory(2) [OF finish(4)] by simp
  then show ?thesis
    by (intro section_stepI) (use finish_task_memory(1) [OF finish(4)] in \<open>simp_all add: finish(1)\<close>)
next
  case (take x p c ts)
  have "c = (chan (pipe W) x)\<lparr>free_packets := free_packets c\<rparr>" using take(3) by (auto simp: take_free_def split: if_splits)
  then have "single_thread_object c = single_thread_object (chan (pipe W) x)" "queued_packets c = queued_packets (chan (pipe W) x)"
    by (metis channel.select_convs(1,5) channel.surjective channel.update_convs(4))+
  then show ?thesis by (intro section_stepI) (simp_all add: take(1) construct_packet_def stamp_operation_def)
next
  case (drop x p w' pc')
  show ?thesis
    by (rule section_stepI) (use GetNext_memory [OF registered_object [OF inv drop(2)] drop(3)] in \<open>simp_all add: drop(1)\<close>)
next
  case (poll x p w' pc')
  show ?thesis
    by (rule section_stepI) (use GetNext_memory [OF registered_object [OF inv poll(2)] poll(3)] in \<open>simp_all add: poll(1)\<close>)
next
  case (push x p t w' pc')
  have "x \<in> set (channels (sched (pipe W)))" using push(2) by (simp add: registered_def)
  from Push_memory [OF world_invD(1) [OF inv] this push(7)] show ?thesis by (intro section_stepI) (simp_all add: push(1))
next
  case (dropped x p w')
  show ?thesis using Release_frame [OF dropped(4)] by (intro section_stepI) (simp_all add: dropped(1))
next
  case (release x p t w')
  show ?thesis using Release_frame [OF release(6)] by (intro section_stepI) (simp_all add: release(1))
qed (auto intro!: section_step_pcs simp: section_step_def clear_keep_running_def)

lemma same_memory_step:
  assumes inv: "world_inv W" and res: "reserved (pipe W)" and st: "step W W'"
  shows "same_memory W W'"
proof -
  have inv': "world_inv W'" using inv st by (rule world_inv_step)
  have sect: "section_step W W'" using inv st by (rule step_section)
  have obj: "\<And>y. single_thread_object (chan (pipe W') y) = single_thread_object (chan (pipe W) y)"
    and cap: "\<And>y. heap_capacity (queued_packets (chan (pipe W') y)) = heap_capacity (queued_packets (chan (pipe W) y))"
    using sect by (simp_all add: section_step_def)
  show ?thesis
  proof (cases "roomy (sched (pipe W)) (sched (pipe W'))")
    case True
    from reserved_enough [OF res world_invD(1) [OF inv'] True obj] cap show ?thesis
      by (simp add: same_memory_def memory_of_def)
  next
    case False
    with sect have "sched (pipe W') = (sched (pipe W))\<lparr>keep_running := False\<rparr>" by (simp add: section_step_def)
    with res obj cap show ?thesis
      by (simp add: same_memory_def memory_of_def capacities_def reserved_def channels_of_def)
  qed
qed

text \<open>The number of workers never changes while the system runs, and nothing but Start sets the flag.\<close>

lemma step_setup:
  assumes "world_inv W" and "step W W'"
  shows "worker_count W' = worker_count W" and "keep_running (sched (pipe W')) \<Longrightarrow> keep_running (sched (pipe W))"
  using step_section [OF assms] by (auto simp: section_step_def worker_count_def roomy_def same_setup_def)

lemma reachable_steps: "step\<^sup>*\<^sup>* W W' \<Longrightarrow> reachable W \<Longrightarrow> reachable W'"
  by (induction rule: rtranclp_induct) (auto intro: reachable.step)

lemma same_memory_steps:
  assumes "step\<^sup>*\<^sup>* W W'" and "reachable W" and "reserved (pipe W)"
  shows "same_memory W W'"
  using assms
proof (induction rule: rtranclp_induct)
  case base
  then show ?case by (simp add: same_memory_def)
next
  case (step V V')
  then have "same_memory W V" by blast
  moreover have "world_inv V" using reachable_steps [OF step(1)] step(4) world_inv_reachable by blast
  ultimately show ?case using same_memory_step [of V V'] step(2) by (simp add: same_memory_def)
qed

subsection \<open>What construction reserves\<close>

lemma reserved_new: "scheduler_new n prof = Some s \<Longrightarrow> reserved \<lparr>chan = ch, sched = s\<rparr>"
  by (auto simp: scheduler_new_def reserved_def)

lemma ChannelImpl_new_reserved:
  assumes res: "reserved w" and inv: "pipeline_inv w" and x: "x \<notin> set (channels (sched w))"
    and new: "ChannelImpl_new name cap psize obj cb base pd x w = Some w'"
  shows "reserved w'"
proof -
  let ?s = "sched w" and ?s' = "sched w'"
  obtain c ch s where cn: "channel_new name cap psize obj cb base = Some c"
    and r: "RegisterChannel pd x ((chan w)(x := c)) ?s = Some (ch, s)" and w': "w' = \<lparr>chan = ch, sched = s\<rparr>"
    using new by (auto simp: ChannelImpl_new_def bind_eq_Some_conv)
  have c: "single_thread_object c = obj" using cn by (auto simp: channel_new_def Let_def bind_eq_Some_conv)
  have obj: "single_thread_object (chan w' y) = (if y = x then obj else single_thread_object (chan w y))" for y
    using r c by (auto simp: RegisterChannel_def w' Let_def SetProfileData_def split: if_splits)
  have chs: "channels ?s' = channels ?s @ [x]"
    using r by (auto simp: RegisterChannel_def w' Let_def set_queue_def emit_def split: if_splits option.splits)
  have old: "heap_capacity (state_queue ?s') = heap_capacity (state_queue ?s)"
      "state_queues ?s' = (state_queues ?s)(obj \<mapsto> q\<lparr>channel_heap := heap_reserve (heap_capacity (channel_heap q) + 1) (channel_heap q)\<rparr>)"
    if "state_queues ?s obj = Some q" for q
    using r c that by (auto simp: RegisterChannel_def w' Let_def emit_frame split: if_splits)
  have fresh: "heap_capacity (state_queue ?s') = heap_capacity (state_queue ?s) + 1"
      "\<exists>q. state_queues ?s' = (state_queues ?s)(obj \<mapsto> q) \<and> 1 \<le> heap_capacity (channel_heap q)"
    if "state_queues ?s obj = None"
    using r c that by (auto simp: RegisterChannel_def w' Let_def emit_frame split: if_splits)
  have in_dom: "channels_of w st = {}" if "state_queues ?s st = None" for st
    using inv that by (auto simp: channels_of_def pipeline_inv_def sched_inv_def heaps_inv_def)
  have of: "channels_of w' st = (if st = obj then insert x (channels_of w st) else channels_of w st)" for st
    using x by (auto simp: channels_of_def chs obj)
  have "finite (channels_of w obj)" by (simp add: channels_of_def)
  then have more: "card (channels_of w' obj) \<le> Suc (card (channels_of w obj))" by (simp add: of card_insert_if)
  show ?thesis
  proof (cases "state_queues ?s obj")
    case None
    with res of fresh [OF None] in_dom [OF None] more show ?thesis by (auto simp: reserved_def card_insert_if)
  next
    case (Some q)
    with res have "card (channels_of w obj) \<le> heap_capacity (channel_heap q)" by (simp add: reserved_def)
    with more have "card (channels_of w' obj) \<le> heap_capacity (channel_heap q) + 1" by simp
    then have "\<forall>st r. state_queues ?s' st = Some r \<longrightarrow> card (channels_of w' st) \<le> heap_capacity (channel_heap r)"
      using old(2) [OF Some] of res by (auto simp: reserved_def)
    moreover have "dom (state_queues ?s') = dom (state_queues ?s)" using old(2) [OF Some] Some by auto
    ultimately show ?thesis using res old(1) [OF Some] by (simp add: reserved_def)
  qed
qed

subsection \<open>Properties\<close>

text \<open>
  C7: Nothing is allocated while the scheduler runs. From a reachable state whose channels were
  registered one by one, whatever the threads do and for however long, the capacities of the state queue, of the heap of
  every state and of every packet queue stay what they were, and the free stack of a channel never outgrows its reserved room.
\<close>

theorem running_allocates_nothing:
  assumes "reachable W" and "reserved (pipe W)" and "step\<^sup>*\<^sup>* W W'"
  shows "memory_of (pipe W') = memory_of (pipe W) \<and> reserved (pipe W') \<and>
    (\<forall>x\<in>registered W'. length (free_packets (chan (pipe W') x)) \<le> channel_capacity (chan (pipe W') x))"
proof -
  have inv: "world_inv W'" using reachable_steps [OF assms(3,1)] by (rule world_inv_reachable)
  have "length (free_packets (chan (pipe W') x)) \<le> channel_capacity (chan (pipe W') x)" if "x \<in> registered W'" for x
    using slots_count [OF inv that] by linarith
  then show ?thesis using same_memory_steps [OF assms(3,1,2)] by (simp add: same_memory_def)
qed

lemma ex_reserved: "reserved ex_built"
proof -
  obtain s where "scheduler_new 2 False = Some s" by (simp add: scheduler_new_def)
  then have "reserved ex_new" using reserved_new by (simp add: ex_new_def)
  from ChannelImpl_new_reserved [OF this ex_new_inv(1) _ ex_one_inv(1)] have "reserved ex_one" by (simp add: ex_new_inv(4))
  from ChannelImpl_new_reserved [OF this ex_one_inv(2) _ ex_two_inv(1)] have "reserved ex_two" by (simp add: ex_one_inv(5))
  from ChannelImpl_new_reserved [OF this ex_two_inv(2) _ ex_built_inv(1)] show ?thesis by (simp add: ex_two_inv(5))
qed

lemma Acquire_free_sched: "free_packets (chan w x) \<noteq> [] \<Longrightarrow> Acquire t x w = Some (r, w') \<Longrightarrow> sched w' = sched w"
  by (auto simp: Acquire_def acquire_loop.simps take_free_def bind_eq_Some_conv split: option.splits if_splits)

lemma ex_locking_reserved: "reserved (pipe ex_locking)"
proof -
  have "sched ex_acquired = sched ex_built"
    using ex_acquired_facts(1) ex_built_chan(1) ex_one_chan(1) by (intro Acquire_free_sched) simp_all
  then have f: "sched ex_filling = sched ex_built" by (simp add: ex_filling_def)
  have obj: "single_thread_object (chan ex_queued y) = single_thread_object (chan ex_filling y)"
    "roomy (sched ex_filling) (sched ex_queued)" for y
    using Push_memory [OF ex_filling_facts(1) _ ex_queued_facts(1)] ex_filling_facts(7) by simp_all
  have "single_thread_object (chan ex_filling y) = single_thread_object (chan ex_built y)" for y
    using local_change_registered [OF ex_acquired_facts(3)] ex_acquired_facts(3)
    by (cases "y = 21") (simp_all add: ex_filling_def local_change_def same_static_def construct_packet_def)
  then have "reserved ex_filling" using ex_reserved f by (simp add: reserved_def channels_of_def)
  from reserved_enough(2) [OF this ex_queued_facts(2) obj(2,1)] have "reserved ex_queued" .
  then show ?thesis
    using ex_world_facts ex_locking_facts(2) ex_queued_facts(3) by (simp add: reserved_def channels_of_def)
qed

theorem running_allocates_nothing_witness:
  "memory_of (pipe ex_servicing) = memory_of (pipe ex_locking) \<and> reserved (pipe ex_servicing)"
  using running_allocates_nothing [OF ex_locking_facts(1) ex_locking_reserved r_into_rtranclp [of step, OF ex_servicing_facts(7)]]
  by simp

end
