(* ===== verification/Progress.thy ===== *)
theory Progress
  imports Memory_Bounds
begin

text \<open>
  Progress of the workers: one that is awake can always take its next step, so queued work is never stuck,
  and after a stop every worker leaves its loop within a bounded number of steps of its own.
\<close>

lemma wake_one_exists: "\<exists>pc'. wake_one n pc pc'"
proof (cases "\<forall>i<n. pc i \<noteq> Waiting")
  case True
  then show ?thesis using wake_one.nobody by blast
next
  case False
  then show ?thesis using wake_one.someone by blast
qed

lemma delivered_exists: "\<exists>pc'. delivered n s s' pc pc'"
  using wake_one_exists by (auto simp: delivered_def)

text \<open>The next step of one worker.\<close>

definition moves :: "world \<Rightarrow> nat \<Rightarrow> world \<Rightarrow> bool" where
  "moves W i W' \<longleftrightarrow> step W W' \<and> pcs W' i \<noteq> pcs W i"

lemma Locking_moves:
  assumes inv: "world_inv W" and i: "i < worker_count W" "pcs W i = Locking"
  shows "\<exists>W'. moves W i W'"
proof -
  let ?w = "pipe W"
  obtain r w' where pick: "pick_task (now W) ?w = Some (r, w')" using pick_succeeds [OF inv] by (metis option.exhaust surj_pair)
  show ?thesis
  proof (cases r)
    case None
    have e: "heap_empty (state_queue (sched ?w))"
    proof (rule ccontr)
      assume "\<not> heap_empty (state_queue (sched ?w))"
      then have "ready_states (sched ?w) \<noteq> {}" using inv by (auto simp: world_inv_def pipeline_inv_def sched_inv_def states_inv_def)
      from pick_task_ok [OF world_invD(1) [OF inv] this world_invD(2) [OF inv]] pick None show False by auto
    qed
    show ?thesis
    proof (cases "keep_running (sched ?w)")
      case True
      from step.sleep [OF i True e] show ?thesis by (auto simp: moves_def i(2))
    next
      case False
      from step.pick_nothing [OF i False] pick None show ?thesis by (fastforce simp: moves_def i(2))
    qed
  next
    case (Some j)
    then obtain st x p where j: "pick_task (now W) ?w = Some (Some (st, x, p), w')" using pick by (metis prod_cases3)
    obtain pc' where d: "delivered (worker_count W) (sched ?w) (sched w') ((pcs W)(i := Executing st x p)) pc'"
      using delivered_exists by blast
    have "pc' i = Executing st x p" using delivered_Executing [OF d, of i st x p] by simp
    with step.pick [OF i j d] show ?thesis by (auto simp: moves_def i(2) intro!: exI)
  qed
qed

lemma awake_moves:
  assumes inv: "world_inv W" and i: "i < worker_count W" "awake (pcs W i)"
  shows "\<exists>W'. moves W i W'"
proof (cases "pcs W i")
  case Idle
  from step.loop_check [OF i(1) this] show ?thesis by (auto simp: moves_def Idle split: if_splits intro!: exI)
next
  case Locking
  with inv i(1) show ?thesis by (rule Locking_moves)
next
  case (Executing st x p)
  from finish_succeeds [OF inv i(1) this, of "log_event EventExecuteTime 0"] obtain w' where
    "finish_task st (set_channel x (Log (log_event EventExecuteTime 0) (chan (pipe W) x)) (pipe W)) = Some w'" by blast
  from step.finish [OF i(1) Executing this] show ?thesis by (auto simp: moves_def Executing intro!: exI)
qed (use i(2) in \<open>simp_all add: awake_def\<close>)

subsection \<open>Stopping\<close>

text \<open>How many steps a worker has left when the flag is cleared.\<close>

fun steps_left :: "worker_pc \<Rightarrow> nat" where
  "steps_left Exited = 0"
| "steps_left Idle = 1"
| "steps_left (Executing st x p) = 2"
| "steps_left Locking = 3"
| "steps_left Waiting = 4"

definition stopping_work :: "world \<Rightarrow> nat" where
  "stopping_work W = (\<Sum>i<worker_count W. steps_left (pcs W i))"

lemma stopping_work_le: "stopping_work W \<le> 4 * worker_count W"
proof -
  have "steps_left pc \<le> 4" for pc by (cases pc) simp_all
  then have "stopping_work W \<le> (\<Sum>i<worker_count W. 4)" unfolding stopping_work_def by (intro sum_mono)
  then show ?thesis by simp
qed

lemma stopping_work_less:
  assumes "worker_count W' = worker_count W" and "i < worker_count W" and "steps_left (pcs W' i) < steps_left (pcs W i)"
    and "\<And>j. j \<noteq> i \<Longrightarrow> j < worker_count W \<Longrightarrow> pcs W' j = pcs W j"
  shows "stopping_work W' < stopping_work W"
  unfolding stopping_work_def assms(1)
proof (rule sum_strict_mono_ex1)
  show "\<forall>j\<in>{..<worker_count W}. steps_left (pcs W' j) \<le> steps_left (pcs W j)"
    using assms(3,4) by (metis lessThan_iff less_imp_le order_refl)
  show "\<exists>j\<in>{..<worker_count W}. steps_left (pcs W' j) < steps_left (pcs W j)" using assms(2,3) by blast
qed simp

lemma stopping_work_same:
  "worker_count W' = worker_count W \<Longrightarrow> (\<And>j. j < worker_count W \<Longrightarrow> pcs W' j = pcs W j) \<Longrightarrow> stopping_work W' = stopping_work W"
  by (simp add: stopping_work_def)

text \<open>The flag is cleared and the notification sent.\<close>

definition stopped :: "world \<Rightarrow> bool" where
  "stopped W \<longleftrightarrow> \<not> keep_running (sched (pipe W)) \<and> \<not> stopping W"

lemma stopped_stays: "world_inv W \<Longrightarrow> step W W' \<Longrightarrow> stopped W \<Longrightarrow> stopped W'"
proof -
  assume inv: "world_inv W" and st: "step W W'" and s: "stopped W"
  have "\<not> keep_running (sched (pipe W'))" using step_setup(2) [OF inv st] s by (auto simp: stopped_def)
  moreover have "\<not> stopping W'" using st s by cases (auto simp: stopped_def)
  ultimately show ?thesis by (simp add: stopped_def)
qed

lemma stopped_quiet:
  assumes inv: "world_inv W" and stop: "stopped W" and del: "delivered (worker_count W) s s' pc pc'"
    and pc: "\<And>j. j < worker_count W \<Longrightarrow> pc j \<noteq> Waiting" and j: "j < worker_count W"
  shows "pc' j = pc j"
  using delivered_pcs [OF del, of j] pc [OF j] by blast

text \<open>
  In a stopped system a step leaves the program counters of the workers alone, or one worker goes on.
\<close>

lemma stopped_step:
  assumes inv: "world_inv W" and stop: "stopped W" and st: "step W W'"
  shows "(\<forall>j<worker_count W. pcs W' j = pcs W j) \<or>
    (\<exists>i<worker_count W. steps_left (pcs W' i) < steps_left (pcs W i) \<and> (\<forall>j<worker_count W. j \<noteq> i \<longrightarrow> pcs W' j = pcs W j))"
proof -
  have nw: "\<And>j. j < worker_count W \<Longrightarrow> pcs W j \<noteq> Waiting" using inv stop by (simp add: world_inv_def no_stall_def stopped_def)
  have quiet: "\<forall>j<worker_count W. pc' j = pcs W j" if "delivered (worker_count W) s s' (pcs W) pc'" for s s' pc'
    using stopped_quiet [OF inv stop that nw] by blast
  show ?thesis
    using st
  proof cases
    case (loop_check i)
    then show ?thesis using stop by (intro disjI2 exI [of _ i]) (simp add: stopped_def)
  next
    case (sleep i)
    then show ?thesis using stop by (simp add: stopped_def)
  next
    case (spurious i)
    then show ?thesis using nw by blast
  next
    case (pick_nothing i w')
    then show ?thesis by (intro disjI2 exI [of _ i]) simp
  next
    case (pick i st x p w' pc')
    have "pc' j = ((pcs W)(i := Executing st x p)) j" if "j < worker_count W" for j
      using inv stop pick(5) _ that by (rule stopped_quiet) (use nw in simp)
    then show ?thesis using pick(1-3) by (intro disjI2 exI [of _ i]) simp
  next
    case (finish i st x p d w')
    then show ?thesis by (intro disjI2 exI [of _ i]) simp
  next
    case (drop x p w' pc')
    then show ?thesis using quiet [OF drop(4)] by simp
  next
    case (push x p t w' pc')
    then show ?thesis using quiet [OF push(8)] by simp
  next
    case (poll x p w' pc')
    then show ?thesis using quiet [OF poll(4)] by simp
  next
    case stop_notify
    then show ?thesis using nw by simp
  qed auto
qed

lemma stopped_work:
  assumes inv: "world_inv W" and stop: "stopped W" and st: "step W W'"
  shows "stopping_work W' \<le> stopping_work W" and "i < worker_count W \<Longrightarrow> pcs W' i \<noteq> pcs W i \<Longrightarrow> stopping_work W' < stopping_work W"
proof -
  note n = step_setup(1) [OF inv st]
  from stopped_step [OF assms] have "stopping_work W' \<le> stopping_work W \<and>
      (\<forall>i<worker_count W. pcs W' i \<noteq> pcs W i \<longrightarrow> stopping_work W' < stopping_work W)"
  proof (elim disjE exE conjE)
    assume same: "\<forall>j<worker_count W. pcs W' j = pcs W j"
    then have "stopping_work W' = stopping_work W" using n by (intro stopping_work_same) simp_all
    with same show ?thesis by simp
  next
    fix i assume "i < worker_count W" "steps_left (pcs W' i) < steps_left (pcs W i)"
      "\<forall>j<worker_count W. j \<noteq> i \<longrightarrow> pcs W' j = pcs W j"
    then have "stopping_work W' < stopping_work W" using n by (intro stopping_work_less) auto
    then show ?thesis by simp
  qed
  then show "stopping_work W' \<le> stopping_work W" "i < worker_count W \<Longrightarrow> pcs W' i \<noteq> pcs W i \<Longrightarrow> stopping_work W' < stopping_work W"
    by blast+
qed

text \<open>
  An execution from a stopped system, with the number of times that a worker has gone on. It cannot be
  more than what was left at the beginning.
\<close>

inductive run :: "world \<Rightarrow> nat \<Rightarrow> world \<Rightarrow> bool" for W where
  none: "run W 0 W"
| other: "run W n V \<Longrightarrow> step V V' \<Longrightarrow> \<forall>j<worker_count V. pcs V' j = pcs V j \<Longrightarrow> run W n V'"
| work: "run W n V \<Longrightarrow> step V V' \<Longrightarrow> \<not> (\<forall>j<worker_count V. pcs V' j = pcs V j) \<Longrightarrow> run W (Suc n) V'"

lemma run_reachable: "run W n V \<Longrightarrow> reachable W \<Longrightarrow> reachable V"
  by (induction rule: run.induct) (auto intro: reachable.step)

lemma run_stopped:
  assumes "run W n V" and "reachable W" and "stopped W"
  shows "stopped V \<and> worker_count V = worker_count W \<and> n + stopping_work V \<le> stopping_work W"
  using assms
proof (induction rule: run.induct)
  case none
  then show ?case by simp
next
  case (other n V V')
  have inv: "world_inv V" using run_reachable [OF other(1,5)] by (rule world_inv_reachable)
  have ih: "stopped V" "worker_count V = worker_count W" "n + stopping_work V \<le> stopping_work W"
    using other.IH other.prems by simp_all
  show ?case using stopped_work(1) [OF inv ih(1) other(2)] stopped_stays [OF inv other(2)] step_setup [OF inv other(2)] ih by auto
next
  case (work n V V')
  have inv: "world_inv V" using run_reachable [OF work(1,5)] by (rule world_inv_reachable)
  have ih: "stopped V" "worker_count V = worker_count W" "n + stopping_work V \<le> stopping_work W"
    using work.IH work.prems by simp_all
  from work(3) obtain i where "i < worker_count V" "pcs V' i \<noteq> pcs V i" by blast
  from stopped_work(2) [OF inv ih(1) work(2) this] show ?case using stopped_stays [OF inv work(2)] step_setup [OF inv work(2)] ih by auto
qed

subsection \<open>Properties\<close>

text \<open>
  C8: Work makes progress. While the scheduler runs and a scheduled channel has a packet in its queue, some
  worker is awake, and an awake worker can always take its next step: no assertion and no mutex holds it up.
\<close>

theorem work_makes_progress:
  assumes "reachable W" and "keep_running (sched (pipe W))"
    and "x \<in> registered W" and "has_callback (chan (pipe W) x)" and "queued_set (chan (pipe W) x) \<noteq> {}"
  shows "\<exists>i<worker_count W. awake (pcs W i) \<and> (\<exists>W'. moves W i W')"
proof -
  have inv: "world_inv W" using assms(1) by (rule world_inv_reachable)
  have "\<not> (\<forall>i<worker_count W. pcs W i = Waiting)" using asleep_no_job [OF inv assms(2) _ assms(3,4)] assms(5) by blast
  moreover have "\<forall>i<worker_count W. pcs W i \<noteq> Exited" using inv assms(2) by (simp add: world_inv_def no_stall_def)
  ultimately obtain i where i: "i < worker_count W" "awake (pcs W i)" by (auto simp: awake_def)
  with awake_moves [OF inv i] show ?thesis by blast
qed

text \<open>
  C9: Stopping ends. Once the flag is cleared and the notification sent, the workers together take at most three more steps each,
  whatever the user threads do in between; a worker that has not left its loop can always go on; and when all have left,
  every state is enabled, so that a second Start finds the scheduler as the first did.
\<close>

theorem stop_terminates:
  assumes "reachable W" and "stopped W" and "run W n V"
  shows "n \<le> 3 * worker_count W \<and> (\<forall>i<worker_count W. pcs V i = Exited \<or> (\<exists>V'. moves V i V')) \<and>
    ((\<forall>i<worker_count W. pcs V i = Exited) \<longrightarrow> all_enabled (sched (pipe V)))"
proof -
  have inv: "world_inv W" using assms(1) by (rule world_inv_reachable)
  have inv': "world_inv V" using run_reachable [OF assms(3,1)] by (rule world_inv_reachable)
  from run_stopped [OF assms(3,1,2)] have V: "stopped V" "worker_count V = worker_count W"
    "n + stopping_work V \<le> stopping_work W" by simp_all
  have "steps_left (pcs W i) \<le> 3" if "i < worker_count W" for i
    using inv assms(2) that by (cases "pcs W i") (auto simp: world_inv_def no_stall_def stopped_def)
  then have "stopping_work W \<le> (\<Sum>i<worker_count W. 3)" unfolding stopping_work_def by (intro sum_mono) simp
  then have "n \<le> 3 * worker_count W" using V(3) by simp
  moreover have "pcs V i = Exited \<or> (\<exists>V'. moves V i V')" if i: "i < worker_count W" for i
  proof (cases "awake (pcs V i)")
    case True
    with awake_moves [OF inv'] i V(2) show ?thesis by simp
  next
    case False
    with inv' i V(1,2) show ?thesis by (auto simp: awake_def world_inv_def no_stall_def stopped_def)
  qed
  moreover have "(\<forall>i<worker_count W. pcs V i = Exited) \<longrightarrow> all_enabled (sched (pipe V))"
    using exited_all_enabled [of V] inv' V(2) by (simp add: world_inv_def)
  ultimately show ?thesis by blast
qed

theorem work_makes_progress_witness: "\<exists>i<worker_count ex_locking. \<exists>W'. moves ex_locking i W'"
proof -
  have e: "chan (pipe ex_locking) = chan ex_queued" "keep_running (sched (pipe ex_locking))"
    "channels (sched (pipe ex_locking)) = [21, 22, 23]"
    using ex_locking_facts(2) ex_world_facts(4,7,8) by simp_all
  have "21 \<in> registered ex_locking" using e(3) by (simp add: registered_def)
  moreover have "has_callback (chan (pipe ex_locking) 21)" "queued_set (chan (pipe ex_locking) 21) \<noteq> {}"
    using e(1) ex_queued_facts(4) same_staticD(2) [OF ex_frames(4)] ex_one_chan(4) by simp_all
  ultimately show ?thesis using work_makes_progress [OF ex_locking_facts(1) e(2)] by blast
qed

theorem stop_terminates_witness:
  "\<exists>W V. reachable W \<and> stopped W \<and> run W 1 V \<and> 1 \<le> 3 * worker_count W"
proof -
  let ?U = "ex_asleep\<lparr>pipe := clear_keep_running (pipe ex_asleep), stopping := True\<rparr>"
  let ?W = "?U\<lparr>pcs := (\<lambda>i. if pcs ?U i = Waiting then Locking else pcs ?U i), stopping := False\<rparr>"
  have "reachable ?U" using ex_asleep_facts(1) step.stop_request [OF ex_asleep_facts(2)] by (rule reachable.step)
  then have r: "reachable ?W" by (rule reachable.step) (rule step.stop_notify, simp)
  have k: "stopped ?W" by (simp add: stopped_def clear_keep_running_def)
  have "0 < worker_count ex_asleep" using world_inv_reachable [OF ex_asleep_facts(1)] ex_asleep_facts(2)
    by (simp add: world_inv_def no_stall_def)
  moreover have w: "worker_count ?W = worker_count ex_asleep" by (simp add: worker_count_def clear_keep_running_def)
  ultimately have n: "0 < worker_count ?W" by simp
  have "pcs ?W 0 \<noteq> Exited" using ex_asleep_facts(3) n w by simp
  with stop_terminates [OF r k run.none] n obtain V where V: "moves ?W 0 V" by blast
  then have "run ?W (Suc 0) V" using n by (intro run.work [OF run.none]) (auto simp: moves_def)
  with stop_terminates [OF r k this] r k show ?thesis by auto
qed

end
