(* ===== verification/Api_Steps.thy ===== *)
theory Api_Steps
  imports Channel_Facade Progress
begin

text \<open>
  The functions that users call, with their stubs, against the step relation of \<open>Concurrency\<close>: a call that a
  user thread makes in a running system succeeds, and what it does to the pipeline is a sequence of steps. So everything that is
  proved about all sequences of steps covers threads that use the library through its channel objects.
\<close>

subsection \<open>Dropping reads no clock\<close>

lemma GetNext_dropping_time: "GetNext t x True w = GetNext t' x True w"
  by (simp add: GetNext_def PopNext_def)

lemma ReleaseAt_dropping_time: "ReleaseAt t x p True w = ReleaseAt t' x p True w"
  by (simp add: ReleaseAt_def Release_def)

lemma TryDroppingPacket_parts:
  assumes "TryDroppingPacket x w = Some (True, w1)"
  shows "\<exists>p wa wb. GetNext t x True w = Some (Some p, wa) \<and> ReleaseAt t x p True wa = Some wb \<and>
    w1 = set_channel x (Log (log_event EventDroppedPacket 1) (chan wb x)) wb"
  using assms GetNext_dropping_time [of 0 x w t] ReleaseAt_dropping_time [of 0 x _ _ t]
  by (auto simp: TryDroppingPacket_def bind_eq_Some_conv split: option.splits)

subsection \<open>An Acquire that others interrupt\<close>

text \<open>The packet has been taken from the stack of free ones, stamped and constructed.\<close>

definition taken :: "addr \<Rightarrow> time \<Rightarrow> addr \<Rightarrow> channel \<Rightarrow> world \<Rightarrow> world" where
  "taken x ts p c W = hold x p (Some Filling) (W\<lparr>pipe := set_channel x (construct_packet ts p (stamp_operation (now W) p c)) (pipe W)\<rparr>)"

text \<open>
  Acquire is the one call of a user that enters several sections: it looks for a free packet, takes the earliest queued one
  out of the queue if there is none, gives that back, logs it, and looks again. Between these any other threads may run;
  they leave alone the packet that is being dropped. The result is the packet, if there is one.
\<close>

inductive acquire_call :: "addr \<Rightarrow> time \<Rightarrow> world \<Rightarrow> addr option \<Rightarrow> world \<Rightarrow> bool" for x :: addr and ts :: time where
  at_once:
    "take_free (chan (pipe W) x) = (Some p, c) \<Longrightarrow> acquire_call x ts W (Some p) (taken x ts p c W)"
| nothing_to_drop:
    "take_free (chan (pipe W) x) = (None, c) \<Longrightarrow> step\<^sup>*\<^sup>* W W1 \<Longrightarrow> GetNext (now W1) x True (pipe W1) = Some (None, w1) \<Longrightarrow>
     acquire_call x ts W None (W1\<lparr>pipe := w1\<rparr>)"
| after_drop:
    "take_free (chan (pipe W) x) = (None, c) \<Longrightarrow> step\<^sup>*\<^sup>* W W1 \<Longrightarrow> GetNext (now W1) x True (pipe W1) = Some (Some q, w1) \<Longrightarrow>
     delivered (worker_count W1) (sched (pipe W1)) (sched w1) (pcs W1) pc \<Longrightarrow>
     step\<^sup>*\<^sup>* (hold x q (Some Dropping) (W1\<lparr>pipe := w1, pcs := pc\<rparr>)) W2 \<Longrightarrow> held W2 x q = Some Dropping \<Longrightarrow>
     ReleaseAt (now W2) x q True (pipe W2) = Some w2 \<Longrightarrow>
     step\<^sup>*\<^sup>* (hold x q None (W2\<lparr>pipe := w2\<rparr>)) W3 \<Longrightarrow>
     step\<^sup>*\<^sup>* (W3\<lparr>pipe := set_channel x (Log (log_event EventDroppedPacket 1) (chan (pipe W3) x)) (pipe W3)\<rparr>) W4 \<Longrightarrow>
     take_free (chan (pipe W4) x) = (r, c4) \<Longrightarrow>
     acquire_call x ts W r (case r of Some p \<Rightarrow> taken x ts p c4 W4 | None \<Rightarrow> W4)"

lemma registered_step: "world_inv W \<Longrightarrow> step W W' \<Longrightarrow> registered W' = registered W"
  using step_section [of W W'] by (auto simp: section_step_def roomy_def same_setup_def registered_def)

lemma registered_steps: "step\<^sup>*\<^sup>* W W' \<Longrightarrow> reachable W \<Longrightarrow> registered W' = registered W"
proof (induction rule: rtranclp_induct)
  case (step W1 W2)
  have "world_inv W1" using reachable_steps [OF step.hyps(1) step.prems] by (rule world_inv_reachable)
  from registered_step [OF this step.hyps(2)] step show ?case by simp
qed simp

lemma taken_step: "x \<in> registered W \<Longrightarrow> take_free (chan (pipe W) x) = (Some p, c) \<Longrightarrow> step W (taken x ts p c W)"
  unfolding taken_def by (rule step.take)

lemma taken_facts [simp]:
  "held (taken x ts p c W) x p = Some Filling" "packet_time (chan (pipe (taken x ts p c W)) x) p = ts" "now (taken x ts p c W) = now W"
  by (simp_all add: taken_def construct_packet_def)

lemma GetNext_None: "GetNext t x dropping w = Some (None, w') \<Longrightarrow> w' = w"
  by (auto simp: GetNext_def bind_eq_Some_conv split: if_splits)

lemma acquire_call_steps:
  assumes "acquire_call x ts W r W'" and "reachable W" and "x \<in> registered W"
  shows "step\<^sup>*\<^sup>* W W' \<and> (\<forall>p. r = Some p \<longrightarrow> held W' x p = Some Filling \<and> packet_time (chan (pipe W') x) p = ts)"
  using assms
proof cases
  case (at_once p c)
  then show ?thesis using taken_step [OF assms(3)] by auto
next
  case (nothing_to_drop c W1 w1)
  then show ?thesis using GetNext_None by fastforce
next
  case (after_drop c W1 q w1 pc W2 w2 W3 W4 c4)
  have x1: "x \<in> registered W1" using registered_steps [OF after_drop(3) assms(2)] assms(3) by simp
  have s1: "step W1 (hold x q (Some Dropping) (W1\<lparr>pipe := w1, pcs := pc\<rparr>))" by (rule step.drop [OF x1 after_drop(4,5)])
  have r2: "step\<^sup>*\<^sup>* W W2" using after_drop(3,6) s1 by (meson rtranclp.rtrancl_into_rtrancl rtranclp_trans)
  have x2: "x \<in> registered W2" using registered_steps [OF r2 assms(2)] assms(3) by simp
  have s2: "step W2 (hold x q None (W2\<lparr>pipe := w2\<rparr>))" by (rule step.dropped [OF x2 after_drop(7,8)])
  have r3: "step\<^sup>*\<^sup>* W W3" using r2 s2 after_drop(9) by (meson rtranclp.rtrancl_into_rtrancl rtranclp_trans)
  have x3: "x \<in> registered W3" using registered_steps [OF r3 assms(2)] assms(3) by simp
  have r4: "step\<^sup>*\<^sup>* W W4"
    using r3 step.log [OF x3] after_drop(10) by (meson rtranclp.rtrancl_into_rtrancl rtranclp_trans)
  have x4: "x \<in> registered W4" using registered_steps [OF r4 assms(2)] assms(3) by simp
  show ?thesis
  proof (cases r)
    case None
    with after_drop r4 show ?thesis by simp
  next
    case (Some p)
    with taken_step [OF x4] after_drop(11) have "step W4 (taken x ts p c4 W4)" by simp
    with Some after_drop(1) r4 show ?thesis by (auto intro: rtranclp.rtrancl_into_rtrancl)
  qed
qed

text \<open>No section of it fails, whatever has happened before.\<close>

lemma acquire_sections_succeed:
  assumes "step\<^sup>*\<^sup>* W W1" and "reachable W" and "x \<in> registered W"
  shows "GetNext (now W1) x True (pipe W1) \<noteq> None \<and>
    (\<forall>q. held W1 x q = Some Dropping \<longrightarrow> ReleaseAt (now W1) x q True (pipe W1) \<noteq> None)"
proof -
  have "world_inv W1" using reachable_steps [OF assms(1,2)] by (rule world_inv_reachable)
  moreover have "x \<in> registered W1" using registered_steps [OF assms(1,2)] assms(3) by simp
  ultimately show ?thesis by (simp add: GetNext_succeeds ReleaseAt_succeeds)
qed

subsection \<open>Acquire\<close>

text \<open>The state of the objects and the world of threads that contains their pipeline.\<close>

definition inhabits :: "objects \<Rightarrow> addr \<Rightarrow> addr \<Rightarrow> world \<Rightarrow> bool" where
  "inhabits s b x W \<longleftrightarrow>
     reachable W \<and> pipe W = pipe_of s \<and> x \<in> registered W \<and> impl_at s b = x \<and> b \<noteq> nullptr \<and> x \<noteq> nullptr"

lemma inhabits_owns: "inhabits s b x W \<Longrightarrow> owns s b x"
  using world_invD(1) [OF world_inv_reachable [of W]] by (auto simp: inhabits_def owns_def registered_def)

lemma inhabits_inv: "inhabits s b x W \<Longrightarrow> world_inv W"
  using world_inv_reachable [of W] by (simp add: inhabits_def)

lemma Acquire_free_eq:
  assumes inv: "pipeline_inv w" and x: "x \<in> set (channels (sched w))" and free: "free_packets (chan w x) = fs @ [p]"
  shows "Acquire t x w = Some (Some p, set_channel x (stamp_operation t p ((chan w x)\<lparr>free_packets := fs\<rparr>)) w)"
  using acquire_loop_free [OF free] take_free_ok(5) [OF inv x free] by (simp add: Acquire_def set_channel_def)

lemma acquire_take:
  assumes W: "inhabits s b x W" and free: "free_packets (chan (pipe_of s) x) = fs @ [p]"
  shows "\<exists>s' c. Channel_Acquire (now W) ts d b s = Some (stub_new p b, s') \<and> take_free (chan (pipe W) x) = (Some p, c) \<and>
    inhabits s' b x (taken x ts p c W) \<and> packet_time (chan (pipe_of s') x) p = ts \<and> data_at s' p = d"
proof -
  have o: "owns s b x" using W by (rule inhabits_owns)
  have w: "pipeline_inv (pipe_of s)" "x \<in> set (channels (sched (pipe_of s)))" "b \<noteq> nullptr" using o by (simp_all add: owns_def)
  have W': "pipe W = pipe_of s" "x \<in> registered W" "reachable W" using W by (simp_all add: inhabits_def)
  let ?c = "(chan (pipe_of s) x)\<lparr>free_packets := fs\<rparr>"
  let ?s = "s\<lparr>pipe_of := set_channel x (construct_packet ts p (stamp_operation (now W) p ?c)) (pipe_of s), data_at := (data_at s)(p := d)\<rparr>"
  let ?W = "taken x ts p ?c W"
  have acq: "Channel_Acquire (now W) ts d b s = Some (stub_new p b, ?s)"
    using Acquire_free_eq [OF w(1,2) free, of "now W"] w(3) o
    by (simp add: Channel_Acquire_def AcquireBase_def checked_impl_owns [OF o] PacketToFill_new_def packet_new_def
        owns_def set_channel_def)
  have tf: "take_free (chan (pipe W) x) = (Some p, ?c)" using free W'(1) by (simp add: take_free_def)
  from taken_step [OF W'(2) this, of ts] have st: "step W ?W" .
  have "inhabits ?s b x ?W"
    using W reachable.step [OF W'(3) st] by (auto simp: inhabits_def registered_def taken_def)
  with acq tf show ?thesis
    by (intro exI [of _ ?s] exI [of _ ?c]) (simp add: construct_packet_def)
qed

lemma acquire_drop:
  assumes W: "inhabits s b x W" and free: "free_packets (chan (pipe_of s) x) = []" and ne: "queued_set (chan (pipe_of s) x) \<noteq> {}"
  shows "\<exists>w1 W1 p. TryDroppingPacket x (pipe_of s) = Some (True, w1) \<and> step\<^sup>*\<^sup>* W W1 \<and> inhabits (s\<lparr>pipe_of := w1\<rparr>) b x W1 \<and>
    now W1 = now W \<and> free_packets (chan w1 x) = [] @ [p] \<and> Acquire t x (pipe_of s) = Acquire t x w1 \<and>
    (\<forall>ts r c. take_free (chan (pipe W1) x) = (r, c) \<longrightarrow>
       acquire_call x ts W r (case r of Some p \<Rightarrow> taken x ts p c W1 | None \<Rightarrow> W1))"
proof -
  have o: "owns s b x" using W by (rule inhabits_owns)
  have w: "pipeline_inv (pipe_of s)" "x \<in> set (channels (sched (pipe_of s)))" using o by (simp_all add: owns_def)
  have W': "pipe W = pipe_of s" "x \<in> registered W" "reachable W" "impl_at s b = x" "b \<noteq> nullptr" "x \<noteq> nullptr"
    using W by (simp_all add: inhabits_def)
  from TryDroppingPacket_ok [OF w ne] free obtain p w1 where
    w1: "TryDroppingPacket x (pipe_of s) = Some (True, w1)" "pipeline_inv w1" "local_change x (pipe_of s) w1"
      "free_packets (chan w1 x) = [] @ [p]" by auto
  from TryDroppingPacket_parts [OF w1(1), of "now W"] obtain q wa wb where
    q: "GetNext (now W) x True (pipe W) = Some (Some q, wa)" "ReleaseAt (now W) x q True wa = Some wb"
      "w1 = set_channel x (Log (log_event EventDroppedPacket 1) (chan wb x)) wb" unfolding W'(1) by blast
  obtain pc where pc: "delivered (worker_count W) (sched (pipe W)) (sched wa) (pcs W) pc" using delivered_exists by blast
  from step.drop [OF W'(2) q(1) this] have s1: "step W (hold x q (Some Dropping) (W\<lparr>pipe := wa, pcs := pc\<rparr>))" .
  let ?W1 = "hold x q (Some Dropping) (W\<lparr>pipe := wa, pcs := pc\<rparr>)"
  have r1: "reachable ?W1" using W'(3) s1 by (rule reachable.step)
  have x2: "x \<in> set (channels (sched wb))" "x \<in> set (channels (sched wa))"
    using local_change_registered [OF w1(3)] w(2) q(2,3) by (auto simp: ReleaseAt_def bind_eq_Some_conv)
  have s2: "step ?W1 (hold x q None (?W1\<lparr>pipe := wb\<rparr>))"
    by (rule step.dropped) (use x2 q(2) in \<open>simp_all add: registered_def\<close>)
  let ?W2 = "hold x q None (?W1\<lparr>pipe := wb\<rparr>)"
  have s3: "step ?W2 (?W2\<lparr>pipe := set_channel x (Log (log_event EventDroppedPacket 1) (chan (pipe ?W2) x)) (pipe ?W2)\<rparr>)"
    by (rule step.log) (use x2 in \<open>simp add: registered_def\<close>)
  let ?W3 = "?W2\<lparr>pipe := w1\<rparr>"
  have s3': "step ?W2 ?W3" using s3 q(3) by simp
  have star: "step\<^sup>*\<^sup>* W ?W3" using s1 s2 s3' by (meson r_into_rtranclp rtranclp.rtrancl_into_rtrancl)
  have "inhabits (s\<lparr>pipe_of := w1\<rparr>) b x ?W3"
    using reachable_steps [OF star W'(3)] W'(4-6) x2 q(3) by (simp add: inhabits_def registered_def)
  moreover have "acquire_loop 0 x None (pipe_of s) = acquire_loop 0 x None w1"
    using acquire_loop_empty [OF free] w1(1) acquire_loop_free [OF w1(4)] w1(4) by (simp add: take_free_def)
  then have "Acquire t x (pipe_of s) = Acquire t x w1" by (simp add: Acquire_def)
  moreover have "acquire_call x ts W r (case r of Some p \<Rightarrow> taken x ts p c ?W3 | None \<Rightarrow> ?W3)"
    if "take_free (chan (pipe ?W3) x) = (r, c)" for ts r c
  proof (rule acquire_call.after_drop [OF _ rtranclp.rtrancl_refl q(1) pc rtranclp.rtrancl_refl])
    show "take_free (chan (pipe W) x) = (None, chan (pipe W) x)" using free W'(1) by (simp add: take_free_Nil)
    show "held ?W1 x q = Some Dropping" by simp
    show "ReleaseAt (now ?W1) x q True (pipe ?W1) = Some wb" using q(2) by simp
    show "step\<^sup>*\<^sup>* (hold x q None (?W1\<lparr>pipe := wb\<rparr>)) ?W2" by simp
    show "step\<^sup>*\<^sup>* (?W2\<lparr>pipe := set_channel x (Log (log_event EventDroppedPacket 1) (chan (pipe ?W2) x)) (pipe ?W2)\<rparr>) ?W3"
      using q(3) by simp
  qed (rule that)
  ultimately show ?thesis using w1(1,4) star by (intro exI [of _ w1] exI [of _ ?W3] exI [of _ p]) simp
qed

lemma acquire_steps:
  assumes W: "inhabits s b x W"
  shows "\<exists>k s' W'. Channel_Acquire (now W) ts d b s = Some (k, s') \<and>
    acquire_call x ts W (if IsEmpty k then None else Some (stub_packet k)) W' \<and> inhabits s' b x W' \<and>
    (if IsEmpty k then s' = s \<and> W' = W
     else stub_channel k = b \<and> held W' x (stub_packet k) = Some Filling \<and>
       stub_timestamp k s' = Some ts \<and> stub_data k s' = Some d)"
proof -
  have o: "owns s b x" using W by (rule inhabits_owns)
  have filled: "IsEmpty (stub_new p b) = False" if "inhabits s' b x W'" "held W' x p = Some Filling" for p s' W'
  proof -
    have "in_transit (pipe W') x p" using world_invD(4) [OF inhabits_inv [OF that(1)]] that by (auto simp: inhabits_def)
    then have "p \<in> slots (chan (pipe_of s') x)" using that(1) by (simp add: inhabits_def in_transit_def)
    with owns_slot [OF inhabits_owns [OF that(1)]] show ?thesis by (simp add: IsEmpty_def stub_new_def)
  qed
  have stub: "stub_channel (stub_new p b) = b" "stub_packet (stub_new p b) = p" for p by (simp_all add: stub_new_def)
  have read: "stub_timestamp (stub_new p b) s' = Some (packet_time (chan (pipe_of s') x) p) \<and> stub_data (stub_new p b) s' = Some (data_at s' p)"
    if "inhabits s' b x W'" "held W' x p = Some Filling" for p s' W'
    using filled [OF that] that(1) by (simp add: stub_timestamp_def stub_data_def stub inhabits_def)
  consider fs p where "free_packets (chan (pipe_of s) x) = fs @ [p]"
    | "free_packets (chan (pipe_of s) x) = []" "queued_set (chan (pipe_of s) x) \<noteq> {}"
    | "free_packets (chan (pipe_of s) x) = []" "queued_set (chan (pipe_of s) x) = {}"
    by (metis append_butlast_last_id)
  then show ?thesis
  proof cases
    case (1 fs p)
    from acquire_take [OF W 1, of ts d] obtain s' c where
      a: "Channel_Acquire (now W) ts d b s = Some (stub_new p b, s')" "take_free (chan (pipe W) x) = (Some p, c)"
        "inhabits s' b x (taken x ts p c W)" "packet_time (chan (pipe_of s') x) p = ts" "data_at s' p = d" by blast
    have h: "held (taken x ts p c W) x p = Some Filling" by simp
    have "acquire_call x ts W (Some p) (taken x ts p c W)" using a(2) by (rule acquire_call.at_once)
    then show ?thesis
      using a h filled [OF a(3) h] read [OF a(3) h] stub [of p]
      by (intro exI [of _ "stub_new p b"] exI [of _ s'] exI [of _ "taken x ts p c W"]) auto
  next
    case 2
    from acquire_drop [OF W 2, of "now W"] obtain w1 W1 p where
      d: "inhabits (s\<lparr>pipe_of := w1\<rparr>) b x W1" "now W1 = now W" "free_packets (chan w1 x) = [] @ [p]"
        "Acquire (now W) x (pipe_of s) = Acquire (now W) x w1"
        "\<And>ts r c. take_free (chan (pipe W1) x) = (r, c) \<Longrightarrow>
          acquire_call x ts W r (case r of Some p \<Rightarrow> taken x ts p c W1 | None \<Rightarrow> W1)" by blast
    from acquire_take [OF d(1), of "[]" p ts d] d(2,3) obtain s' c where
      a: "Channel_Acquire (now W) ts d b (s\<lparr>pipe_of := w1\<rparr>) = Some (stub_new p b, s')" "take_free (chan (pipe W1) x) = (Some p, c)"
        "inhabits s' b x (taken x ts p c W1)" "packet_time (chan (pipe_of s') x) p = ts" "data_at s' p = d" by auto
    have h: "held (taken x ts p c W1) x p = Some Filling" by simp
    have call: "acquire_call x ts W (Some p) (taken x ts p c W1)" using d(5) [OF a(2), of ts] by simp
    have "AcquireBase (now W) b (s\<lparr>pipe_of := w1\<rparr>) = AcquireBase (now W) b s"
      using checked_impl_owns [OF o] checked_impl_owns [OF inhabits_owns [OF d(1)]] d(4) by (simp add: AcquireBase_def)
    then have "Channel_Acquire (now W) ts d b s = Some (stub_new p b, s')" using a(1) by (simp add: Channel_Acquire_def)
    then show ?thesis
      using a call h filled [OF a(3) h] read [OF a(3) h] stub [of p]
      by (intro exI [of _ "stub_new p b"] exI [of _ s'] exI [of _ "taken x ts p c W1"]) auto
  next
    case 3
    from Acquire_none [OF 3] have "Channel_Acquire (now W) ts d b s = Some (stub_new nullptr b, s)"
      using W by (simp add: Channel_Acquire_def AcquireBase_def checked_impl_owns [OF o] PacketToFill_new_def inhabits_def)
    moreover have "acquire_call x ts W None (W\<lparr>pipe := pipe W\<rparr>)"
    proof (rule acquire_call.nothing_to_drop [OF _ rtranclp.rtrancl_refl])
      show "take_free (chan (pipe W) x) = (None, chan (pipe W) x)" using 3(1) W by (simp add: take_free_Nil inhabits_def)
      show "GetNext (now W) x True (pipe W) = Some (None, pipe W)" using 3(2) W by (simp add: GetNext_empty inhabits_def)
    qed
    then have "acquire_call x ts W None W" by simp
    ultimately show ?thesis using W
      by (intro exI [of _ "stub_new nullptr b"] exI [of _ s] exI [of _ W]) (simp add: IsEmpty_def stub_new_def)
  qed
qed

subsection \<open>Push, poll, release\<close>

lemma fill_destroy_steps:
  assumes W: "inhabits s b x W" and k: "stub_channel k = b" "held W x (stub_packet k) = Some Filling"
    and t: "packet_time (chan (pipe_of s) x) (stub_packet k) \<le> now W"
  shows "\<exists>s' W'. PacketToFill_destroy (now W) k s = Some s' \<and> step W W' \<and> inhabits s' b x W' \<and> held W' x (stub_packet k) = None"
proof -
  let ?p = "stub_packet k"
  have o: "owns s b x" using W by (rule inhabits_owns)
  have inv: "world_inv W" and W': "pipe W = pipe_of s" "x \<in> registered W" "reachable W"
    using inhabits_inv [OF W] W by (simp_all add: inhabits_def)
  have tr: "in_transit (pipe_of s) x ?p" and op: "op_time (chan (pipe_of s) x) ?p \<le> now W" and now: "now W < kMaxTime"
    using world_invD(3-5) [OF inv] W' k(2) by auto
  from PacketToFill_destroy_ok [OF o tr t op now k(1) refl] obtain s' where
    s': "PacketToFill_destroy (now W) k s = Some s'" "owns s' b x" by blast
  have "\<not> IsEmpty k" using owns_slot [OF o] tr by (simp add: IsEmpty_def in_transit_def)
  then obtain w where w: "Push (now W) x ?p (pipe_of s) = Some w" "s' = s\<lparr>pipe_of := w\<rparr>"
    using s'(1) k(1) by (auto simp: PacketToFill_destroy_def PacketToFill_Push_def Channel_Push_def PushBase_def GetPacket_def
        checked_impl_owns [OF o] bind_eq_Some_conv split: if_splits)
  obtain pc where pc: "delivered (worker_count W) (sched (pipe W)) (sched w) (pcs W) pc" using delivered_exists by blast
  have st: "step W (hold x ?p None (W\<lparr>pipe := w, pcs := pc\<rparr>))"
    using W'(2) k(2) _ _ _ _ pc by (rule step.push) (use op t w(1) W'(1) in simp_all)
  have "inhabits s' b x (hold x ?p None (W\<lparr>pipe := w, pcs := pc\<rparr>))"
    using reachable.step [OF W'(3) st] s'(2) w(2) by (simp add: inhabits_def owns_def registered_def)
  with s'(1) st show ?thesis by (intro exI [of _ s'] exI conjI) auto
qed

text \<open>A packet from the future fails the first assertion of Push.\<close>

lemma fill_destroy_future:
  assumes W: "inhabits s b x W" and k: "stub_channel k = b" "held W x (stub_packet k) = Some Filling"
    and t: "now W < packet_time (chan (pipe_of s) x) (stub_packet k)"
  shows "PacketToFill_destroy (now W) k s = None"
proof -
  have o: "owns s b x" using W by (rule inhabits_owns)
  have "in_transit (pipe_of s) x (stub_packet k)"
    using world_invD(4) [OF inhabits_inv [OF W]] W k(2) by (auto simp: inhabits_def)
  then have "\<not> IsEmpty k" using owns_slot [OF o] by (simp add: IsEmpty_def in_transit_def)
  moreover have "Push (now W) x (stub_packet k) (pipe_of s) = None" using t by (simp add: Push_def Let_def)
  ultimately show ?thesis
    using k(1) by (simp add: PacketToFill_destroy_def PacketToFill_Push_def Channel_Push_def PushBase_def GetPacket_def
        checked_impl_owns [OF o])
qed

lemma poll_steps:
  assumes W: "inhabits s b x W"
  shows "\<exists>k s' W'. Poll (now W) b s = Some (k, s') \<and> step\<^sup>*\<^sup>* W W' \<and> inhabits s' b x W' \<and>
    (if IsEmpty k then s' = s \<and> W' = W else stub_channel k = b \<and> held W' x (stub_packet k) = Some Processing)"
proof (cases "queued_set (chan (pipe_of s) x) = {}")
  case True
  have o: "owns s b x" using W by (rule inhabits_owns)
  have "Poll (now W) b s = Some (stub_new nullptr b, s)"
    using W GetNext_empty [OF True] by (simp add: Poll_def base_GetNext_def checked_impl_owns [OF o] PacketToProcess_new_def inhabits_def)
  then show ?thesis using W by (intro exI [of _ "stub_new nullptr b"] exI [of _ s] exI [of _ W]) (simp add: IsEmpty_def stub_new_def)
next
  case False
  have o: "owns s b x" using W by (rule inhabits_owns)
  have inv: "world_inv W" and W': "pipe W = pipe_of s" "x \<in> registered W" "reachable W"
    using inhabits_inv [OF W] W by (simp_all add: inhabits_def)
  have "\<forall>y\<in>queued_set (chan (pipe_of s) x). packet_time (chan (pipe_of s) x) y \<le> now W"
    using pastD [OF world_invD(2) [OF inv]] W'(1,2) by (auto simp: registered_def)
  from Poll_ok [OF o False this] obtain p s' where
    s': "Poll (now W) b s = Some (stub_new p b, s')" "owns s' b x" "in_transit (pipe_of s') x p" by blast
  have p: "p \<noteq> nullptr" using owns_slot [OF s'(2)] s'(3) by (simp add: in_transit_def)
  from s'(1) p obtain w where w: "GetNext (now W) x False (pipe_of s) = Some (Some p, w)" "s' = s\<lparr>pipe_of := w\<rparr>"
    by (auto simp: Poll_def base_GetNext_def checked_impl_owns [OF o] PacketToProcess_new_def stub_new_def bind_eq_Some_conv
        split: option.splits)
  obtain pc where pc: "delivered (worker_count W) (sched (pipe W)) (sched w) (pcs W) pc" using delivered_exists by blast
  have st: "step W (hold x p (Some Processing) (W\<lparr>pipe := w, pcs := pc\<rparr>))"
    by (rule step.poll [OF W'(2) _ pc]) (simp add: w(1) W'(1))
  have "inhabits s' b x (hold x p (Some Processing) (W\<lparr>pipe := w, pcs := pc\<rparr>))"
    using reachable.step [OF W'(3) st] s'(2) w(2) by (simp add: inhabits_def owns_def registered_def)
  with s'(1) st p show ?thesis
    by (intro exI [of _ "stub_new p b"] exI [of _ s'] exI [of _ "hold x p (Some Processing) (W\<lparr>pipe := w, pcs := pc\<rparr>)"])
      (auto simp: IsEmpty_def stub_new_def)
qed

lemma process_destroy_steps:
  assumes W: "inhabits s b x W" and k: "stub_channel k = b" "held W x (stub_packet k) = Some Processing"
  shows "\<exists>s' W'. PacketToProcess_destroy (now W) k s = Some s' \<and> step W W' \<and> inhabits s' b x W' \<and> held W' x (stub_packet k) = None"
proof -
  let ?p = "stub_packet k"
  have o: "owns s b x" using W by (rule inhabits_owns)
  have inv: "world_inv W" and W': "pipe W = pipe_of s" "x \<in> registered W" "reachable W"
    using inhabits_inv [OF W] W by (simp_all add: inhabits_def)
  have tr: "in_transit (pipe_of s) x ?p" and op: "op_time (chan (pipe_of s) x) ?p \<le> now W"
    using world_invD(4,5) [OF inv] W' k(2) by auto
  from PacketToProcess_destroy_ok [OF o tr op k(1) refl] obtain s' where
    s': "PacketToProcess_destroy (now W) k s = Some s'" "owns s' b x" by blast
  have "\<not> IsEmpty k" using owns_slot [OF o] tr by (simp add: IsEmpty_def in_transit_def)
  then obtain w where w: "ReleaseAt (now W) x ?p False (pipe_of s) = Some w" "s' = s\<lparr>pipe_of := w\<rparr>"
    using s'(1) k(1) by (auto simp: PacketToProcess_destroy_def PacketToProcess_Release_def Channel_Release_def ReleaseBase_def
        GetPacket_def checked_impl_owns [OF o] bind_eq_Some_conv split: if_splits)
  have st: "step W (hold x ?p None (W\<lparr>pipe := w\<rparr>))"
    using W'(2) k(2) by (rule step.release) (use op w(1) W'(1) in simp_all)
  have "inhabits s' b x (hold x ?p None (W\<lparr>pipe := w\<rparr>))"
    using reachable.step [OF W'(3) st] s'(2) w(2) by (simp add: inhabits_def owns_def registered_def)
  with s'(1) st show ?thesis by (intro exI [of _ s'] exI conjI) auto
qed


subsection \<open>Properties\<close>

text \<open>
  C35: The public calls refine the step relation. A user thread of a running system may at any time acquire a packet from a
  channel object, let a filled stub go out of scope, poll, or let a stub of a packet to process go out of scope. What each call
  does to the pipeline is a sequence of steps of the running system that ends in a reachable state.
  Acquire consists of several sections; whatever other threads do between them, none of the sections fails, and the call ends
  with nothing or with a packet that this thread now fills and that has the timestamp asked for; if nobody interrupts it, it
  gives that packet with the data asked for too, or an empty stub and then has changed nothing. The other calls are one section each. Poll gives an
  empty stub or one that this thread now processes. None of them fails an assertion, with one exception: the
  destructor of a filled stub does so exactly if the packet has a timestamp in the future.
\<close>

theorem api_calls_are_steps:
  assumes "inhabits s b x W"
  shows "(\<exists>k s' W'. Channel_Acquire (now W) ts d b s = Some (k, s') \<and>
      acquire_call x ts W (if IsEmpty k then None else Some (stub_packet k)) W' \<and> inhabits s' b x W' \<and>
      (if IsEmpty k then s' = s \<and> W' = W
       else stub_channel k = b \<and> held W' x (stub_packet k) = Some Filling \<and>
         stub_timestamp k s' = Some ts \<and> stub_data k s' = Some d)) \<and>
    (\<forall>r W'. acquire_call x ts W r W' \<longrightarrow> step\<^sup>*\<^sup>* W W' \<and> reachable W' \<and>
      (\<forall>p. r = Some p \<longrightarrow> held W' x p = Some Filling \<and> packet_time (chan (pipe W') x) p = ts)) \<and>
    (\<forall>W1. step\<^sup>*\<^sup>* W W1 \<longrightarrow> GetNext (now W1) x True (pipe W1) \<noteq> None \<and>
      (\<forall>q. held W1 x q = Some Dropping \<longrightarrow> ReleaseAt (now W1) x q True (pipe W1) \<noteq> None)) \<and>
    (\<exists>k s' W'. Poll (now W) b s = Some (k, s') \<and> step\<^sup>*\<^sup>* W W' \<and> inhabits s' b x W' \<and>
      (if IsEmpty k then s' = s \<and> W' = W else stub_channel k = b \<and> held W' x (stub_packet k) = Some Processing)) \<and>
    (\<forall>k. stub_channel k = b \<longrightarrow> held W x (stub_packet k) = Some Filling \<longrightarrow>
      (if packet_time (chan (pipe_of s) x) (stub_packet k) \<le> now W
       then \<exists>s' W'. PacketToFill_destroy (now W) k s = Some s' \<and> step W W' \<and> inhabits s' b x W' \<and> held W' x (stub_packet k) = None
       else PacketToFill_destroy (now W) k s = None)) \<and>
    (\<forall>k. stub_channel k = b \<longrightarrow> held W x (stub_packet k) = Some Processing \<longrightarrow>
      (\<exists>s' W'. PacketToProcess_destroy (now W) k s = Some s' \<and> step W W' \<and> inhabits s' b x W' \<and> held W' x (stub_packet k) = None))"
proof (intro conjI)
  have W: "reachable W" "x \<in> registered W" using assms by (simp_all add: inhabits_def)
  show "\<forall>r W'. acquire_call x ts W r W' \<longrightarrow> step\<^sup>*\<^sup>* W W' \<and> reachable W' \<and>
      (\<forall>p. r = Some p \<longrightarrow> held W' x p = Some Filling \<and> packet_time (chan (pipe W') x) p = ts)"
    using acquire_call_steps [OF _ W] reachable_steps [OF _ W(1)] by blast
  show "\<forall>W1. step\<^sup>*\<^sup>* W W1 \<longrightarrow> GetNext (now W1) x True (pipe W1) \<noteq> None \<and>
      (\<forall>q. held W1 x q = Some Dropping \<longrightarrow> ReleaseAt (now W1) x q True (pipe W1) \<noteq> None)"
    using acquire_sections_succeed [OF _ W] by blast
  show "\<forall>k. stub_channel k = b \<longrightarrow> held W x (stub_packet k) = Some Filling \<longrightarrow>
      (if packet_time (chan (pipe_of s) x) (stub_packet k) \<le> now W
       then \<exists>s' W'. PacketToFill_destroy (now W) k s = Some s' \<and> step W W' \<and> inhabits s' b x W' \<and> held W' x (stub_packet k) = None
       else PacketToFill_destroy (now W) k s = None)"
    using fill_destroy_steps [OF assms] fill_destroy_future [OF assms] by (simp add: not_le)
  show "\<forall>k. stub_channel k = b \<longrightarrow> held W x (stub_packet k) = Some Processing \<longrightarrow>
      (\<exists>s' W'. PacketToProcess_destroy (now W) k s = Some s' \<and> step W W' \<and> inhabits s' b x W' \<and> held W' x (stub_packet k) = None)"
    using process_destroy_steps [OF assms] by blast
qed (rule acquire_steps [OF assms], rule poll_steps [OF assms])

theorem api_calls_are_steps_witness:
  "\<exists>k s' W'. Channel_Acquire 6 5 [1, 2] 40 (ex_objects\<lparr>pipe_of := pipe ex_world\<rparr>) = Some (k, s') \<and>
    acquire_call 21 5 ex_world (if IsEmpty k then None else Some (stub_packet k)) W' \<and> inhabits s' 40 21 W'"
proof -
  have "inhabits (ex_objects\<lparr>pipe_of := pipe ex_world\<rparr>) 40 21 ex_world"
    using ex_world_facts(1,7) by (simp add: inhabits_def registered_def ex_objects_def nullptr_def)
  from api_calls_are_steps [OF this, of 5 "[1, 2]"] have
    "\<exists>k s' W'. Channel_Acquire (now ex_world) 5 [1, 2] 40 (ex_objects\<lparr>pipe_of := pipe ex_world\<rparr>) = Some (k, s') \<and>
      acquire_call 21 5 ex_world (if IsEmpty k then None else Some (stub_packet k)) W' \<and> inhabits s' 40 21 W'" by blast
  moreover have "now ex_world = 6" by (simp add: ex_world_def ex_start_def ex_before_def)
  ultimately show ?thesis by simp
qed

end
