(* ===== verification/Lock_Discipline.thy ===== *)
theory Lock_Discipline
  imports Example_Pipelines
begin

text \<open>
  Which mutex protects what. The sections of \<^verbatim>\<open>Push\<close> and \<^verbatim>\<open>GetNext\<close> run under the mutex that
  \<^verbatim>\<open>ChannelImpl::GetQueuedMutex\<close> chooses: the scheduler's for a channel with a callback, the channel's own for a polled
  one. Sections under different mutexes can really run at the same time, so the step relation of \<open>Concurrency\<close>, in which every
  section is one step, is right only if such sections do not disturb each other.
\<close>

datatype mutex =
    Global_mutex
  | Queued_mutex addr

definition GetQueuedMutex :: "addr \<Rightarrow> pipeline \<Rightarrow> mutex" where
  "GetQueuedMutex x w = (if IsScheduled (chan w x) then Global_mutex else Queued_mutex x)"

text \<open>
  The sections: \<^verbatim>\<open>Push\<close> of a packet, \<^verbatim>\<open>GetNext\<close>, and the two of a worker, which always use the mutex of the
  scheduler.
\<close>

datatype queue_section =
    Pushing time addr addr
  | Taking time addr bool
  | Picking time
  | Finishing addr

datatype outcome =
    Done
  | Taken "addr option"
  | Picked "(addr \<times> addr \<times> addr) option"

fun section_channel :: "queue_section \<Rightarrow> addr option" where
  "section_channel (Pushing t x p) = Some x"
| "section_channel (Taking t x dropping) = Some x"
| "section_channel (Picking t) = None"
| "section_channel (Finishing st) = None"

definition section_mutex :: "queue_section \<Rightarrow> pipeline \<Rightarrow> mutex" where
  "section_mutex a w = (case section_channel a of Some x \<Rightarrow> GetQueuedMutex x w | None \<Rightarrow> Global_mutex)"

fun run_section :: "queue_section \<Rightarrow> pipeline \<Rightarrow> (outcome \<times> pipeline) option" where
  "run_section (Pushing t x p) w = do { w1 \<leftarrow> Push t x p w; Some (Done, w1) }"
| "run_section (Taking t x dropping) w = do { (r, w1) \<leftarrow> GetNext t x dropping w; Some (Taken r, w1) }"
| "run_section (Picking t) w = do { (r, w1) \<leftarrow> pick_task t w; Some (Picked r, w1) }"
| "run_section (Finishing st) w = do { w1 \<leftarrow> finish_task st w; Some (Done, w1) }"

subsection \<open>What an ordering looks at\<close>

text \<open>Two orderings that agree on what is in the heap move its entries in the same way.\<close>

definition agree :: "'a set \<Rightarrow> ('a \<Rightarrow> 'a \<Rightarrow> bool) \<Rightarrow> ('a \<Rightarrow> 'a \<Rightarrow> bool) \<Rightarrow> bool" where
  "agree S cmp cmp' \<longleftrightarrow> (\<forall>a\<in>S. \<forall>b\<in>S. cmp a b = cmp' a b)"

lemma agreeD: "agree S cmp cmp' \<Longrightarrow> a \<in> S \<Longrightarrow> b \<in> S \<Longrightarrow> cmp a b = cmp' a b"
  by (simp add: agree_def)

lemma agree_mono: "agree S cmp cmp' \<Longrightarrow> T \<subseteq> S \<Longrightarrow> agree T cmp cmp'"
  by (auto simp: agree_def)

lemma set_swap: "i < length xs \<Longrightarrow> j < length xs \<Longrightarrow> set (swap xs i j) = set xs"
  using mset_eq_setD [OF mset_swap_eq] by blast

lemma sift_up_agree:
  "i < length xs \<Longrightarrow> agree (set xs) cmp cmp' \<Longrightarrow> sift_up cmp xs i = sift_up cmp' xs i"
proof (induction cmp xs i rule: sift_up.induct)
  case (1 cmp xs i)
  have p: "parent i < length xs" using "1.prems"(1) by (meson le_less_trans parent_le)
  then have "cmp (xs ! parent i) (xs ! i) = cmp' (xs ! parent i) (xs ! i)"
    using "1.prems" by (intro agreeD [OF "1.prems"(2)]) simp_all
  moreover have "agree (set (swap xs i (parent i))) cmp cmp'" using "1.prems" p by (simp add: set_swap)
  ultimately show ?case using 1 p by (subst (1 2) sift_up.simps) simp
qed

lemma hole_down_agree:
  "i < n \<Longrightarrow> n \<le> length xs \<Longrightarrow> agree (set xs) cmp cmp' \<Longrightarrow> hole_down cmp xs n i = hole_down cmp' xs n i"
proof (induction cmp xs n i rule: hole_down.induct)
  case (1 cmp xs n i)
  show ?case
  proof (cases "2 * i + 2 < n")
    case True
    let ?c = "if cmp (xs ! (2 * i + 2)) (xs ! (2 * i + 1)) then 2 * i + 1 else 2 * i + 2"
    have "cmp (xs ! (2 * i + 2)) (xs ! (2 * i + 1)) = cmp' (xs ! (2 * i + 2)) (xs ! (2 * i + 1))"
      using "1.prems" True by (intro agreeD [OF "1.prems"(3)]) simp_all
    moreover have "hole_down cmp (swap xs i ?c) n ?c = hole_down cmp' (swap xs i ?c) n ?c"
      using "1.prems" True by (intro "1.IH" [OF True refl]) (auto simp: set_swap)
    ultimately show ?thesis using True by (subst (1 2) hole_down.simps) (simp add: Let_def)
  qed (subst (1 2) hole_down.simps, simp)
qed

lemma push_heap_agree: "agree (insert v (heap_set h)) cmp cmp' \<Longrightarrow> push_heap cmp v h = push_heap cmp' v h"
  by (simp add: push_heap_def push_back_def std_push_heap_def heap_set_def Let_def sift_up_agree)

lemma std_pop_heap_agree: "agree (set xs) cmp cmp' \<Longrightarrow> std_pop_heap cmp xs = std_pop_heap cmp' xs"
proof -
  assume a: "agree (set xs) cmp cmp'"
  show ?thesis
  proof (cases "1 < length xs")
    case True
    let ?n = "length xs - 1" and ?xs = "swap xs 0 (length xs - 1)"
    have "set ?xs = set xs" using True by (intro set_swap) auto
    with a have a': "agree (set ?xs) cmp cmp'" by simp
    then have h: "hole_down cmp ?xs ?n 0 = hole_down cmp' ?xs ?n 0" using True by (intro hole_down_agree) simp_all
    obtain ys i where yi: "hole_down cmp' ?xs ?n 0 = (ys, i)" by (cases "hole_down cmp' ?xs ?n 0")
    have "mset (fst (hole_down cmp' ?xs ?n 0)) = mset ?xs" by (rule mset_hole_down) (use True in auto)
    then have "set ys = set ?xs" using yi mset_eq_setD by auto
    moreover have "snd (hole_down cmp' ?xs ?n 0) < ?n" by (rule hole_down_less) (use True in auto)
    then have "i < ?n" unfolding yi by simp
    moreover have "length ys = length xs" using length_hole_down [of cmp' ?xs ?n 0] unfolding yi by simp
    ultimately have "set ys = set ?xs" "i < length ys" by simp_all
    then have "sift_up cmp ys i = sift_up cmp' ys i" using a' by (intro sift_up_agree) simp_all
    with h yi True show ?thesis by (simp add: std_pop_heap_def Let_def)
  qed (simp add: std_pop_heap_def)
qed

lemma pop_heap_agree: "agree (heap_set h) cmp cmp' \<Longrightarrow> pop_heap cmp h = pop_heap cmp' h"
  by (simp add: pop_heap_def heap_set_def std_pop_heap_agree)


lemma force_pop_heap_agree: "agree (heap_set h) cmp cmp' \<Longrightarrow> force_pop_heap cmp v h = force_pop_heap cmp' v h"
proof -
  assume a: "agree (heap_set h) cmp cmp'"
  have "pop_heap cmp h1 = pop_heap cmp' h1" if h1: "force_to_top v h = Some h1" for h1
  proof -
    obtain i where i: "find_index v (heap_items h) = Some i" "h1 = h\<lparr>heap_items := swap_to_top (heap_items h) i\<rparr>"
      using h1 by (auto simp: force_to_top_def bind_eq_Some_conv)
    have "heap_set h1 = heap_set h"
      using find_index_Some [OF i(1)] mset_eq_setD [OF mset_swap_to_top [of i "heap_items h"]] i(2) by (simp add: heap_set_def)
    with a show ?thesis by (intro pop_heap_agree) simp
  qed
  then show ?thesis by (cases "force_to_top v h") (simp_all add: force_pop_heap_def)
qed

lemma heap_set_force_pop: "force_pop_heap cmp v h = Some h' \<Longrightarrow> heap_set h' \<subseteq> heap_set h"
proof -
  assume "force_pop_heap cmp v h = Some h'"
  then obtain i where i: "find_index v (heap_items h) = Some i"
    and h': "heap_items h' = butlast (std_pop_heap cmp (swap_to_top (heap_items h) i))"
    by (auto simp: force_pop_heap_def force_to_top_def pop_heap_def bind_eq_Some_conv split: if_splits)
  have "set (swap_to_top (heap_items h) i) = set (heap_items h)"
    using find_index_Some [OF i] mset_eq_setD [OF mset_swap_to_top [of i "heap_items h"]] by simp
  moreover have "set (std_pop_heap cmp xs) = set xs" for xs using mset_eq_setD [OF mset_std_pop_heap] .
  ultimately show ?thesis using in_set_butlastD by (force simp: heap_set_def h')
qed

subsection \<open>The scheduler does not see a channel without work\<close>

definition unseen :: "addr \<Rightarrow> scheduler \<Rightarrow> bool" where
  "unseen x s \<longleftrightarrow> (\<forall>st q. state_queues s st = Some q \<longrightarrow> x \<notin> heap_set (channel_heap q))"

lemma unseen_queue_of: "unseen x s \<Longrightarrow> x \<notin> heap_set (channel_heap (queue_of s st))"
  by (auto simp: unseen_def queue_of_def enabled_heap_new_def split: option.splits)

lemma unseen_set_queue: "unseen x s \<Longrightarrow> x \<notin> heap_set (channel_heap q) \<Longrightarrow> unseen x (set_queue st q s)"
  by (simp add: unseen_def)

lemma ordering_unseen: "x \<notin> S \<Longrightarrow> agree S (ChannelOrdering (ch(x := c))) (ChannelOrdering ch)"
  by (auto simp: agree_def ChannelOrdering_def by_key_def channel_key_def)

lemma front_in: "heap_front h = Some f \<Longrightarrow> f \<in> heap_set h"
  by (auto simp: heap_front_Some_iff heap_set_def)

lemma front_time_unseen: "x \<notin> heap_set h \<Longrightarrow> front_time (ch(x := c)) h = front_time ch h"
  using front_in [of h] by (cases "heap_front h") (auto simp: front_time_def simp del: heap_front_None_iff)

lemma StateOrdering_unseen: "unseen x s \<Longrightarrow> StateOrdering (ch(x := c)) (state_queues s) = StateOrdering ch (state_queues s)"
proof -
  assume u: "unseen x s"
  have "state_key (ch(x := c)) (state_queues s) st = state_key ch (state_queues s) st" for st
  proof (cases "state_queues s st")
    case (Some q)
    then have "x \<notin> heap_set (channel_heap q)" using u by (simp add: unseen_def)
    then have "f \<noteq> x" if "heap_front (channel_heap q) = Some f" for f using front_in [OF that] by blast
    then show ?thesis
      by (cases "heap_front (channel_heap q)") (simp_all add: Some state_key_def channel_key_def del: heap_front_None_iff)
  qed (simp add: state_key_def)
  then show ?thesis unfolding StateOrdering_def by presburger
qed

lemma JobsArrived_unseen:
  assumes ne: "x \<noteq> y" and u: "unseen x s"
  shows "JobsArrived (ch(x := c)) y s = JobsArrived ch y s"
proof -
  let ?q = "queue_of s (single_thread_object (ch y))"
  have h: "x \<notin> heap_set (channel_heap ?q)" using u by (rule unseen_queue_of)
  have push: "push_heap (ChannelOrdering (ch(x := c))) y (channel_heap ?q) = push_heap (ChannelOrdering ch) y (channel_heap ?q)"
    using h ne by (intro push_heap_agree ordering_unseen) simp
  have "x \<notin> heap_set (push_heap (ChannelOrdering ch) y (channel_heap ?q))" using h ne by simp
  note f = front_time_unseen [OF this] front_time_unseen [OF h] StateOrdering_unseen [OF unseen_set_queue [OF u], simplified]
  show ?thesis using ne h by (simp add: JobsArrived_def push f Let_def cong: if_cong)
qed


lemma JobsUpdated_unseen:
  assumes ne: "x \<noteq> y" and u: "unseen x s"
  shows "JobsUpdated (ch(x := c)) y was_push s = JobsUpdated ch y was_push s"
proof -
  let ?st = "single_thread_object (ch y)"
  let ?q = "queue_of s ?st"
  have h: "x \<notin> heap_set (channel_heap ?q)" using u by (rule unseen_queue_of)
  have force: "force_pop_heap (ChannelOrdering (ch(x := c))) y (channel_heap ?q) = force_pop_heap (ChannelOrdering ch) y (channel_heap ?q)"
    using h by (intro force_pop_heap_agree ordering_unseen)
  show ?thesis
  proof (cases "force_pop_heap (ChannelOrdering ch) y (channel_heap ?q)")
    case None
    then show ?thesis using ne force by (simp add: JobsUpdated_def Let_def)
  next
    case (Some h0)
    from heap_set_force_pop [OF this] h have h0: "x \<notin> heap_set h0" by blast
    have push: "push_heap (ChannelOrdering (ch(x := c))) y h0 = push_heap (ChannelOrdering ch) y h0"
      using h0 ne by (intro push_heap_agree ordering_unseen) simp
    have "x \<notin> heap_set (push_heap (ChannelOrdering ch) y h0)" using h0 ne by simp
    note f = front_time_unseen [OF this] front_time_unseen [OF h]
    have "unseen x (set_queue ?st (?q\<lparr>channel_heap := push_heap (ChannelOrdering ch) y h0\<rparr>) s)"
      using u h0 ne by (intro unseen_set_queue) simp_all
    note so = StateOrdering_unseen [OF this, simplified]
    show ?thesis using ne force Some by (simp add: JobsUpdated_def push f so Let_def cong: if_cong)
  qed
qed

lemma JobsDropped_unseen:
  assumes ne: "x \<noteq> y" and u: "unseen x s"
  shows "JobsDropped (ch(x := c)) y s = JobsDropped ch y s"
proof -
  let ?st = "single_thread_object (ch y)"
  let ?q = "queue_of s ?st"
  have h: "x \<notin> heap_set (channel_heap ?q)" using u by (rule unseen_queue_of)
  have force: "force_pop_heap (ChannelOrdering (ch(x := c))) y (channel_heap ?q) = force_pop_heap (ChannelOrdering ch) y (channel_heap ?q)"
    using h by (intro force_pop_heap_agree ordering_unseen)
  show ?thesis
  proof (cases "force_pop_heap (ChannelOrdering ch) y (channel_heap ?q)")
    case None
    then show ?thesis using ne force by (simp add: JobsDropped_def Let_def)
  next
    case (Some h1)
    from heap_set_force_pop [OF this] h have h1: "x \<notin> heap_set h1" by blast
    have "unseen x (set_queue ?st (?q\<lparr>channel_heap := h1\<rparr>) s)"
      using u h1 by (intro unseen_set_queue) simp_all
    note so = StateOrdering_unseen [OF this, simplified]
    show ?thesis using ne force Some by (simp add: JobsDropped_def so Let_def cong: if_cong)
  qed
qed

lemmas jobs_unseen = JobsArrived_unseen JobsUpdated_unseen JobsDropped_unseen

subsection \<open>Sections under different mutexes\<close>

lemma set_channel_commute: "x \<noteq> y \<Longrightarrow> set_channel y d (set_channel x c w) = set_channel x c (set_channel y d w)"
  by (simp add: set_channel_def fun_upd_twist)

lemma bind_SomeE: "Option.bind m f = Some b \<Longrightarrow> (\<And>a. m = Some a \<Longrightarrow> f a = Some b \<Longrightarrow> P) \<Longrightarrow> P"
  by (cases m) simp_all

lemma if_SomeE:
  "(if c then a else b) = Some r \<Longrightarrow> (c \<Longrightarrow> a = Some r \<Longrightarrow> P) \<Longrightarrow> (\<not> c \<Longrightarrow> b = Some r \<Longrightarrow> P) \<Longrightarrow> P"
  by (simp split: if_splits)

text \<open>A section of another channel goes on as before when a channel that the scheduler does not see has changed.\<close>

lemma Push_unseen:
  assumes ne: "x \<noteq> y" and u: "unseen x (sched w)" and push: "Push t y p w = Some w'"
  shows "Push t y p (set_channel x c w) = Some (set_channel x c w')"
proof -
  have twist: "(chan w)(x := c, y := d) = (chan w)(y := d, x := c)" for d using ne by (rule fun_upd_twist)
  show ?thesis
    using push ne unfolding Push_def Let_def
    by (elim bind_SomeE if_SomeE) (auto simp: twist jobs_unseen [OF ne u] set_channel_def)
qed


lemma PopNext_unseen:
  assumes ne: "x \<noteq> y" and u: "unseen x (sched w)" and pop: "PopNext t y dropping w = Some (p, w')"
  shows "PopNext t y dropping (set_channel x c w) = Some (p, set_channel x c w')"
proof -
  have twist: "(chan w)(x := c, y := d) = (chan w)(y := d, x := c)" for d using ne by (rule fun_upd_twist)
  show ?thesis
    using pop ne unfolding PopNext_def Let_def
    by (elim bind_SomeE if_SomeE) (auto simp: twist jobs_unseen [OF ne u] set_channel_def)
qed

lemma GetNext_unseen:
  assumes ne: "x \<noteq> y" and u: "unseen x (sched w)" and get: "GetNext t y dropping w = Some (r, w')"
  shows "GetNext t y dropping (set_channel x c w) = Some (r, set_channel x c w')"
  using get ne PopNext_unseen [OF ne u] by (auto simp: GetNext_def bind_eq_Some_conv split: if_splits)

lemma disable_state_unseen:
  assumes "unseen x s" and "state_queues s st = Some q"
  shows "disable_state (ch(x := c)) st q s = disable_state ch st q s"
    and "disable_state ch st q s = Some s1 \<Longrightarrow> unseen x s1"
proof -
  have "x \<notin> heap_set (channel_heap q)" using assms by (auto simp: unseen_def)
  then have "unseen x (set_queue st (q\<lparr>enabled := False\<rparr>) s)" using assms(1) by (intro unseen_set_queue) simp_all
  note u = this StateOrdering_unseen [OF this, simplified]
  show "disable_state (ch(x := c)) st q s = disable_state ch st q s" using u(2) by (simp add: disable_state_def Let_def)
  show "disable_state ch st q s = Some s1 \<Longrightarrow> unseen x s1"
    using u(1) by (auto simp: disable_state_def Let_def bind_eq_Some_conv unseen_def)
qed

lemma PopNext_frame: "PopNext t y dropping w = Some (p, w') \<Longrightarrow> x \<noteq> y \<Longrightarrow> chan w' x = chan w x"
  unfolding PopNext_def Let_def by (auto simp: bind_eq_Some_conv split: if_splits)

lemma pick_task_unseen:
  assumes u: "unseen x (sched w)" and pick: "pick_task t w = Some (r, w')"
  shows "pick_task t (set_channel x c w) = Some (r, set_channel x c w') \<and> chan w' x = chan w x"
proof (cases "heap_empty (state_queue (sched w))")
  case True
  with pick show ?thesis by (simp add: pick_task_def)
next
  case False
  with pick obtain st chq y s1 p where
    j: "heap_front (state_queue (sched w)) = Some st" "state_queues (sched w) st = Some chq" "enabled chq"
      "\<not> heap_empty (channel_heap chq)" "heap_front (channel_heap chq) = Some y" "single_thread_object (chan w y) = st"
      "(if st \<noteq> nullptr then disable_state (chan w) st chq (sched w) else Some (sched w)) = Some s1"
      "PopNext t y False (w\<lparr>sched := s1\<rparr>) = Some (p, w')" "p \<noteq> nullptr" "r = Some (st, y, p)"
    unfolding pick_task_def if_not_P [OF False] bind_eq_Some_conv
    by (elim exE conjE, auto simp only: assert_that_eq prod.case bind_eq_Some_conv option.inject prod.inject)
  have ne: "x \<noteq> y" using u j(2) front_in [OF j(5)] by (auto simp: unseen_def)
  note d = disable_state_unseen [OF u j(2)]
  have "unseen x (sched (w\<lparr>sched := s1\<rparr>))" using j(7) d(2) u by (auto split: if_splits)
  from PopNext_unseen [OF ne this j(8), of c]
  have "PopNext t y False ((set_channel x c w)\<lparr>sched := s1\<rparr>) = Some (p, set_channel x c w')"
    by (cases w) (simp add: set_channel_def)
  moreover have "(if st \<noteq> nullptr then disable_state ((chan w)(x := c)) st chq (sched w) else Some (sched w)) = Some s1"
    using j(7) unfolding d(1) .
  ultimately have "pick_task t (set_channel x c w) = Some (r, set_channel x c w')"
    using False j ne by (simp add: pick_task_def cong: if_cong)
  then show ?thesis using PopNext_frame [OF j(8) ne] by simp
qed

lemma finish_task_unseen:
  assumes u: "unseen x (sched w)" and fin: "finish_task st w = Some w'"
  shows "finish_task st (set_channel x c w) = Some (set_channel x c w') \<and> chan w' x = chan w x"
proof (cases "st = nullptr")
  case False
  with fin obtain q where q: "state_queues (sched w) st = Some q" by (auto simp: finish_task_def bind_eq_Some_conv)
  then have "x \<notin> heap_set (channel_heap q)" using u by (auto simp: unseen_def)
  then have "unseen x (set_queue st (q\<lparr>enabled := True\<rparr>) (sched w))" using u by (intro unseen_set_queue) simp_all
  note so = StateOrdering_unseen [OF this, simplified]
  show ?thesis using fin False q by (auto simp: finish_task_def bind_eq_Some_conv assert_that_def Let_def so set_channel_def split: if_splits)
qed (use fin in \<open>simp add: finish_task_def\<close>)

text \<open>The same for all sections: a section that is not of channel \<open>x\<close> neither reads nor writes it.\<close>

lemma Push_frame: "Push t y p w = Some w' \<Longrightarrow> x \<noteq> y \<Longrightarrow> chan w' x = chan w x"
  unfolding Push_def Let_def by (auto simp: bind_eq_Some_conv split: if_splits)

lemma GetNext_frame: "GetNext t y dropping w = Some (r, w') \<Longrightarrow> x \<noteq> y \<Longrightarrow> chan w' x = chan w x"
  using PopNext_frame by (auto simp: GetNext_def bind_eq_Some_conv split: if_splits)

lemma run_section_unseen:
  assumes "section_channel b \<noteq> Some x" and "unseen x (sched w)" and "run_section b w = Some (r, w')"
  shows "run_section b (set_channel x c w) = Some (r, set_channel x c w')" and "chan w' x = chan w x"
proof -
  have "run_section b (set_channel x c w) = Some (r, set_channel x c w') \<and> chan w' x = chan w x"
  proof (cases b)
    case (Pushing t y p)
    then show ?thesis using assms Push_unseen [of x y w t p w' c] Push_frame [of t y p w w' x] by (auto simp: bind_eq_Some_conv)
  next
    case (Taking t y dropping)
    then show ?thesis
      using assms GetNext_unseen [of x y w t dropping _ w' c] GetNext_frame [of t y dropping w _ w' x] by (auto simp: bind_eq_Some_conv)
  next
    case (Picking t)
    then show ?thesis using assms pick_task_unseen [OF assms(2), of t _ w' c] by (auto simp: bind_eq_Some_conv)
  next
    case (Finishing st)
    then show ?thesis using assms finish_task_unseen [OF assms(2), of st w' c] by (auto simp: bind_eq_Some_conv)
  qed
  then show "run_section b (set_channel x c w) = Some (r, set_channel x c w')" and "chan w' x = chan w x" by simp_all
qed

text \<open>A section of a polled channel reads and writes that channel only.\<close>

lemma Push_polled:
  assumes poll: "\<not> has_callback (chan w x)" and push: "Push t x p w = Some w'"
  shows "w' = set_channel x (chan w' x) w"
    and "chan w0 x = chan w x \<Longrightarrow> Push t x p w0 = Some (set_channel x (chan w' x) w0)"
  using push poll unfolding Push_def Let_def
  by (elim bind_SomeE if_SomeE; fastforce simp: set_channel_def)+

lemma PopNext_polled:
  assumes poll: "\<not> has_callback (chan w x)" and pop: "PopNext t x dropping w = Some (p, w')"
  shows "w' = set_channel x (chan w' x) w"
    and "chan w0 x = chan w x \<Longrightarrow> PopNext t x dropping w0 = Some (p, set_channel x (chan w' x) w0)"
  using pop poll unfolding PopNext_def Let_def
  by (elim bind_SomeE if_SomeE; fastforce simp: set_channel_def)+

lemma GetNext_polled:
  assumes poll: "\<not> has_callback (chan w x)" and get: "GetNext t x dropping w = Some (r, w')"
  shows "w' = set_channel x (chan w' x) w"
    and "chan w0 x = chan w x \<Longrightarrow> GetNext t x dropping w0 = Some (r, set_channel x (chan w' x) w0)"
proof -
  have "w' = set_channel x (chan w' x) w \<and> (chan w0 x = chan w x \<longrightarrow> GetNext t x dropping w0 = Some (r, set_channel x (chan w' x) w0))"
  proof (cases "heap_empty (queued_packets (chan w x))")
    case True
    with get have w': "w' = w" "r = None" by (auto simp: GetNext_def)
    have "set_channel x (chan w x) w0 = w0" if "chan w0 x = chan w x" unfolding that [symmetric] by (rule set_channel_self)
    with True w' set_channel_self [of x w] show ?thesis by (simp add: GetNext_def)
  next
    case False
    with get obtain p where p: "PopNext t x dropping w = Some (p, w')" "r = Some p" by (auto simp: GetNext_def bind_eq_Some_conv)
    from PopNext_polled [OF poll p(1)] p(2) False show ?thesis by (simp add: GetNext_def)
  qed
  then show "w' = set_channel x (chan w' x) w"
    and "chan w0 x = chan w x \<Longrightarrow> GetNext t x dropping w0 = Some (r, set_channel x (chan w' x) w0)" by simp_all
qed

lemma run_section_polled:
  assumes "section_channel a = Some x" and poll: "\<not> has_callback (chan w x)" and "run_section a w = Some (r, w')"
  shows "w' = set_channel x (chan w' x) w \<and>
    (\<forall>w0. chan w0 x = chan w x \<longrightarrow> run_section a w0 = Some (r, set_channel x (chan w' x) w0))"
  using assms Push_polled [OF poll] GetNext_polled [OF poll] by (cases a) (simp_all add: bind_eq_Some_conv, blast+)

lemma polled_unseen:
  assumes "pipeline_inv w" and "\<not> has_callback (chan w x)"
  shows "unseen x (sched w)"
  using assms by (auto simp: unseen_def pipeline_inv_def sched_inv_def heaps_inv_def jobs_of_def has_job_def)

text \<open>The two orders, when the section of the polled channel comes first, and when it comes second.\<close>

lemma section_mutex_queued:
  "section_mutex a w = Queued_mutex x \<Longrightarrow> section_channel a = Some x \<and> \<not> has_callback (chan w x)"
  by (auto simp: section_mutex_def GetQueuedMutex_def IsScheduled_def split: option.splits if_splits)

lemma section_mutex_other: "section_mutex a w = Queued_mutex x \<Longrightarrow> section_mutex b w \<noteq> Queued_mutex x \<Longrightarrow> section_channel b \<noteq> Some x"
  using section_mutex_queued [of a w x] by (auto simp: section_mutex_def)

lemma polled_first:
  assumes inv: "pipeline_inv w" and a: "section_mutex a w = Queued_mutex x" and b: "section_mutex b w \<noteq> Queued_mutex x"
    and one: "run_section a w = Some (r, w1)" and two: "run_section b w1 = Some (r', w12)"
  shows "\<exists>w2. run_section b w = Some (r', w2) \<and> run_section a w2 = Some (r, w12)"
proof -
  let ?w2 = "set_channel x (chan w x) w12"
  note ch = section_mutex_queued [OF a] and ne = section_mutex_other [OF a b]
  have own: "w1 = set_channel x (chan w1 x) w" "\<And>w0. chan w0 x = chan w x \<Longrightarrow> run_section a w0 = Some (r, set_channel x (chan w1 x) w0)"
    using run_section_polled [OF conjunct1 [OF ch] conjunct2 [OF ch] one] by blast+
  have "sched w1 = sched w" by (subst own(1)) simp
  then have u: "unseen x (sched w1)" using polled_unseen [OF inv conjunct2 [OF ch]] by simp
  note moved = run_section_unseen [OF ne u two]
  have "set_channel x (chan w x) w1 = w" by (subst own(1)) (simp add: set_channel_def)
  with moved(1) [of "chan w x"] have "run_section b w = Some (r', ?w2)" by simp
  moreover have "run_section a ?w2 = Some (r, set_channel x (chan w1 x) ?w2)" using own(2) [of ?w2] by simp
  moreover have "set_channel x (chan w1 x) ?w2 = w12" using moved(2) by (simp add: set_channel_def fun_upd_idem)
  ultimately show ?thesis by (metis (no_types))
qed

lemma polled_second:
  assumes inv: "pipeline_inv w" and b: "section_mutex b w = Queued_mutex x" and a: "section_mutex a w \<noteq> Queued_mutex x"
    and one: "run_section a w = Some (r, w1)" and two: "run_section b w1 = Some (r', w12)"
  shows "\<exists>w2. run_section b w = Some (r', w2) \<and> run_section a w2 = Some (r, w12)"
proof -
  note ch = section_mutex_queued [OF b] and ne = section_mutex_other [OF b a]
  note moved = run_section_unseen [OF ne polled_unseen [OF inv conjunct2 [OF ch]] one]
  have "\<not> has_callback (chan w1 x)" using moved(2) ch by simp
  from run_section_polled [OF conjunct1 [OF ch] this two]
  have own: "w12 = set_channel x (chan w12 x) w1" "run_section b w = Some (r', set_channel x (chan w12 x) w)"
    using moved(2) by simp_all
  from moved(1) [of "chan w12 x"] own show ?thesis by (metis (no_types))
qed

text \<open>
  C36: Sections that run under different mutexes commute. Take two sections under the mutexes that the code uses, be it
  the insertion of Push or the removal of GetNext (under the mutex that GetQueuedMutex chooses), a worker's pick or the end of
  its task (under the scheduler's), and let the two mutexes differ. If the first section runs and then the second, they
  can as well run in the other order: both return the same and the pipeline ends up in the very same state. So it is
  enough that the code excludes sections of the same mutex, and treating a section as one step loses none of the
  interleavings that the code allows.
\<close>

theorem different_mutexes_commute:
  assumes "pipeline_inv w" and "section_mutex a w \<noteq> section_mutex b w"
    and "run_section a w = Some (r, w1)" and "run_section b w1 = Some (r', w12)"
  shows "\<exists>w2. run_section b w = Some (r', w2) \<and> run_section a w2 = Some (r, w12)"
proof (cases "section_mutex a w")
  case (Queued_mutex x)
  with polled_first [OF assms(1) Queued_mutex _ assms(3,4)] assms(2) show ?thesis by simp
next
  case Global_mutex
  with assms(2) obtain x where "section_mutex b w = Queued_mutex x" by (cases "section_mutex b w") simp_all
  with polled_second [OF assms(1) this _ assms(3,4)] assms(2) show ?thesis by simp
qed

text \<open>
  In the example pipeline a packet waits in the scheduled channel 21 while a user thread fills the buffer of the polled
  channel 23.
\<close>

definition ex_taken :: pipeline where
  "ex_taken = snd (the (Acquire 5 23 ex_queued))"

definition ex_loaded :: pipeline where
  "ex_loaded = set_channel 23 (construct_packet 5 3000 (chan ex_taken 23)) ex_taken"

lemma ex_taken_facts:
  "Acquire 5 23 ex_queued = Some (Some 3000, ex_taken)" "pipeline_inv ex_taken" "local_change 23 ex_queued ex_taken"
  "in_transit ex_taken 23 3000" "op_time (chan ex_taken 23) 3000 = 5"
  using Acquire_free [OF ex_queued_facts(2), of 23 "[]" 3000 5] ex_queued_facts(3) ex_frames(3) ex_built_chan(3)
  by (auto simp: ex_taken_def)

lemma ex_loaded_facts:
  "pipeline_inv ex_loaded" "channels (sched ex_loaded) = [21, 22, 23]" "in_transit ex_loaded 23 3000"
  "op_time (chan ex_loaded 23) 3000 = 5" "packet_time (chan ex_loaded 23) 3000 = 5" "\<not> has_callback (chan ex_loaded 23)"
  "chan ex_loaded 21 = chan ex_queued 21"
proof -
  have ch: "channels (sched ex_taken) = [21, 22, 23]"
    using local_change_registered [OF ex_taken_facts(3)] ex_queued_facts(3) by simp
  then have x: "23 \<in> set (channels (sched ex_taken))" by simp
  note c = construct_ok [OF ex_taken_facts(2,4) x, where ts = 5, folded ex_loaded_def]
  show "pipeline_inv ex_loaded" "channels (sched ex_loaded) = [21, 22, 23]" "in_transit ex_loaded 23 3000"
    "op_time (chan ex_loaded 23) 3000 = 5" "packet_time (chan ex_loaded 23) 3000 = 5"
    using c ch ex_taken_facts(5) by simp_all
  have l: "same_static (chan ex_taken 23) (chan ex_queued 23)" "chan ex_taken 21 = chan ex_queued 21"
    using ex_taken_facts(3) by (simp_all add: local_change_def)
  show "\<not> has_callback (chan ex_loaded 23)"
    using same_staticD [OF c(9)] same_staticD [OF l(1)] ex_frames(3) ex_built_chan(5) by simp
  show "chan ex_loaded 21 = chan ex_queued 21" using c(8) [of 21] l(2) by simp
qed

theorem different_mutexes_commute_witness:
  "\<exists>w2 w12. run_section (Pushing 6 23 3000) ex_loaded = Some (Done, w2) \<and>
     run_section (Taking 6 21 False) w2 = Some (Taken (Some 1000), w12)"
proof -
  have q: "queued_set (chan ex_loaded 21) = {1000}" "packet_time (chan ex_loaded 21) 1000 = 3" "has_callback (chan ex_loaded 21)"
    using ex_loaded_facts(7) ex_queued_facts(4,6) same_staticD [OF ex_frames(4)] ex_one_chan(4) by simp_all
  have x: "21 \<in> set (channels (sched ex_loaded))" "queued_set (chan ex_loaded 21) \<noteq> {}"
    "False \<or> (\<forall>y\<in>queued_set (chan ex_loaded 21). packet_time (chan ex_loaded 21) y \<le> 6)"
    using q ex_loaded_facts(2) by simp_all
  from PopNext_ok [OF ex_loaded_facts(1) x] hq.front_min [of "packet_time (chan ex_loaded 21)" "queued_packets (chan ex_loaded 21)"]
    q(1) ex_loaded_facts(1) x(1) obtain w1 where
    one: "PopNext 6 21 False ex_loaded = Some (1000, w1)" "pipeline_inv w1" "same_config (sched ex_loaded) (sched w1)"
      "chan w1 23 = chan ex_loaded 23"
    by (auto simp: pipeline_inv_def channel_inv_def queued_set_def)
  have run1: "run_section (Taking 6 21 False) ex_loaded = Some (Taken (Some 1000), w1)"
    using one(1) x(2) by (simp add: GetNext_PopNext)
  have x': "23 \<in> set (channels (sched w1))" "in_transit w1 23 3000"
    using one(3,4) ex_loaded_facts(2,3) by (simp_all add: same_config_def in_transit_def)
  have t: "packet_time (chan w1 23) 3000 \<le> 6" "op_time (chan w1 23) 3000 \<le> 6" "6 < kMaxTime"
    using one(4) ex_loaded_facts(4,5) by (simp_all add: kMaxTime_def)
  from Push_ok [OF one(2) x' t] obtain w12 where "Push 6 23 3000 w1 = Some w12" by blast
  then have run2: "run_section (Pushing 6 23 3000) w1 = Some (Done, w12)" by simp
  have "section_mutex (Taking 6 21 False) ex_loaded \<noteq> section_mutex (Pushing 6 23 3000) ex_loaded"
    using q(3) ex_loaded_facts(6) by (simp add: section_mutex_def GetQueuedMutex_def IsScheduled_def)
  from different_mutexes_commute [OF ex_loaded_facts(1) this run1 run2] show ?thesis by blast
qed

end
