(* ===== verification/Abstract_Scheduler.thy ===== *)
theory Abstract_Scheduler
  imports Example_Pipelines
begin

text \<open>
  What the scheduler promises, without heaps, notifications, flags and free stacks: a set of queued
  packets with their timestamps, and for every worker the packet it services. A worker may start with the earliest
  packet of all whose state nobody services, and with no other. The running system of
  \<open>Concurrency\<close> is shown to refine this specification step by step.
\<close>

subsection \<open>The specification\<close>

record spec =
  sp_queue :: "(addr \<times> addr \<times> time) set"
  sp_active :: "nat \<Rightarrow> (addr \<times> addr \<times> addr) option"

text \<open>What does not change while the system runs: which channels are scheduled, and their states.\<close>

record spec_config =
  cf_scheduled :: "addr \<Rightarrow> bool"
  cf_state :: "addr \<Rightarrow> addr"

definition serviced :: "spec \<Rightarrow> addr \<Rightarrow> bool" where
  "serviced S st \<longleftrightarrow> (\<exists>i x p. sp_active S i = Some (st, x, p))"

definition eligible :: "spec_config \<Rightarrow> spec \<Rightarrow> addr \<Rightarrow> bool" where
  "eligible C S x \<longleftrightarrow> cf_scheduled C x \<and> (cf_state C x = nullptr \<or> \<not> serviced S (cf_state C x))"

inductive spec_step :: "spec_config \<Rightarrow> spec \<Rightarrow> spec \<Rightarrow> bool" for C where
  arrive:
    "(\<forall>u. (x, p, u) \<notin> sp_queue S) \<Longrightarrow> spec_step C S (S\<lparr>sp_queue := insert (x, p, t) (sp_queue S)\<rparr>)"
| depart:
    "(x, p, t) \<in> sp_queue S \<Longrightarrow> \<forall>q u. (x, q, u) \<in> sp_queue S \<longrightarrow> t \<le> u \<Longrightarrow>
     spec_step C S (S\<lparr>sp_queue := sp_queue S - {(x, p, t)}\<rparr>)"
| serve:
    "sp_active S i = None \<Longrightarrow> (x, p, t) \<in> sp_queue S \<Longrightarrow> eligible C S x \<Longrightarrow>
     \<forall>y q u. (y, q, u) \<in> sp_queue S \<longrightarrow> eligible C S y \<longrightarrow> t \<le> u \<Longrightarrow>
     spec_step C S (S\<lparr>sp_queue := sp_queue S - {(x, p, t)}, sp_active := (sp_active S)(i \<mapsto> (cf_state C x, x, p))\<rparr>)"
| complete:
    "sp_active S i \<noteq> None \<Longrightarrow> spec_step C S (S\<lparr>sp_active := (sp_active S)(i := None)\<rparr>)"

subsection \<open>Abstraction\<close>

definition queue_of_pipe :: "pipeline \<Rightarrow> (addr \<times> addr \<times> time) set" where
  "queue_of_pipe w = {(x, p, t). x \<in> set (channels (sched w)) \<and> p \<in> queued_set (chan w x) \<and> t = packet_time (chan w x) p}"

fun active_of :: "worker_pc \<Rightarrow> (addr \<times> addr \<times> addr) option" where
  "active_of (Executing st x p) = Some (st, x, p)"
| "active_of Idle = None"
| "active_of Locking = None"
| "active_of Waiting = None"
| "active_of Exited = None"

definition abs_world :: "world \<Rightarrow> spec" where
  "abs_world W = \<lparr>sp_queue = queue_of_pipe (pipe W),
     sp_active = (\<lambda>i. if i < worker_count W then active_of (pcs W i) else None)\<rparr>"

definition config_of :: "pipeline \<Rightarrow> spec_config" where
  "config_of w = \<lparr>cf_scheduled = (\<lambda>x. x \<in> set (channels (sched w)) \<and> has_callback (chan w x)),
     cf_state = (\<lambda>x. if x \<in> set (channels (sched w)) then single_thread_object (chan w x) else nullptr)\<rparr>"

lemma active_of_Some: "active_of pc = Some (st, x, p) \<longleftrightarrow> pc = Executing st x p"
  by (cases pc) auto

lemma active_of_delivered: "delivered n s s' pc pc' \<Longrightarrow> active_of (pc' i) = active_of (pc i)"
  using delivered_pcs [of n s s' pc pc' i] by auto

text \<open>A section that changes one channel only.\<close>

lemma queue_change:
  assumes "channels (sched w') = channels (sched w)" and "x \<in> set (channels (sched w))"
    and "\<forall>y. y \<noteq> x \<longrightarrow> chan w' y = chan w y"
  shows "queued_set (chan w' x) = queued_set (chan w x) \<Longrightarrow>
      (\<And>p. p \<in> queued_set (chan w x) \<Longrightarrow> packet_time (chan w' x) p = packet_time (chan w x) p) \<Longrightarrow>
      queue_of_pipe w' = queue_of_pipe w"
    and "queued_set (chan w' x) = queued_set (chan w x) - {p} \<Longrightarrow> packet_time (chan w' x) = packet_time (chan w x) \<Longrightarrow>
      queue_of_pipe w' = queue_of_pipe w - {(x, p, packet_time (chan w x) p)}"
    and "queued_set (chan w' x) = insert p (queued_set (chan w x)) \<Longrightarrow> packet_time (chan w' x) = packet_time (chan w x) \<Longrightarrow>
      queue_of_pipe w' = insert (x, p, packet_time (chan w x) p) (queue_of_pipe w)"
proof -
  have mem: "(y, q, u) \<in> queue_of_pipe w' \<longleftrightarrow>
      (if y = x then q \<in> queued_set (chan w' x) \<and> u = packet_time (chan w' x) q else (y, q, u) \<in> queue_of_pipe w)" for y q u
    using assms by (auto simp: queue_of_pipe_def)
  have old: "(x, q, u) \<in> queue_of_pipe w \<longleftrightarrow> q \<in> queued_set (chan w x) \<and> u = packet_time (chan w x) q" for q u
    using assms(2) by (simp add: queue_of_pipe_def)
  show "queue_of_pipe w' = queue_of_pipe w"
    if "queued_set (chan w' x) = queued_set (chan w x)"
      "\<And>p. p \<in> queued_set (chan w x) \<Longrightarrow> packet_time (chan w' x) p = packet_time (chan w x) p"
  proof (intro set_eqI)
    fix j show "j \<in> queue_of_pipe w' \<longleftrightarrow> j \<in> queue_of_pipe w"
      using that mem old by (cases j) auto
  qed
  show "queue_of_pipe w' = queue_of_pipe w - {(x, p, packet_time (chan w x) p)}"
    if "queued_set (chan w' x) = queued_set (chan w x) - {p}" "packet_time (chan w' x) = packet_time (chan w x)"
  proof (intro set_eqI)
    fix j show "j \<in> queue_of_pipe w' \<longleftrightarrow> j \<in> queue_of_pipe w - {(x, p, packet_time (chan w x) p)}"
      using that mem old by (cases j) auto
  qed
  show "queue_of_pipe w' = insert (x, p, packet_time (chan w x) p) (queue_of_pipe w)"
    if "queued_set (chan w' x) = insert p (queued_set (chan w x))" "packet_time (chan w' x) = packet_time (chan w x)"
  proof (intro set_eqI)
    fix j show "j \<in> queue_of_pipe w' \<longleftrightarrow> j \<in> insert (x, p, packet_time (chan w x) p) (queue_of_pipe w)"
      using that mem old by (cases j) auto
  qed
qed

lemma config_change:
  assumes "channels (sched w') = channels (sched w)" and "\<forall>y. y \<noteq> x \<longrightarrow> chan w' y = chan w y"
    and "same_static (chan w' x) (chan w x)"
  shows "config_of w' = config_of w"
proof -
  have "has_callback (chan w' y) = has_callback (chan w y)" "single_thread_object (chan w' y) = single_thread_object (chan w y)" for y
    using assms(2) same_staticD(1,2) [OF assms(3)] by (cases "y = x"; simp)+
  then show ?thesis using assms(1) by (simp add: config_of_def cong: if_cong)
qed

text \<open>Nobody services a state that is enabled, and the other way round.\<close>

lemma serviced_abs: "serviced (abs_world W) st \<longleftrightarrow> (\<exists>i. servicing W i st)"
  by (auto simp: serviced_def abs_world_def servicing_def active_of_Some split: if_splits)

lemma eligible_abs:
  assumes "world_inv W" and "x \<in> registered W"
  shows "eligible (config_of (pipe W)) (abs_world W) x \<longleftrightarrow>
    has_callback (chan (pipe W) x) \<and> is_enabled (sched (pipe W)) (single_thread_object (chan (pipe W) x))"
proof -
  have "single_thread_object (chan (pipe W) x) \<in> dom (state_queues (sched (pipe W)))"
    using assms by (simp add: world_inv_def pipeline_inv_def sched_inv_def heaps_inv_def registered_def)
  moreover have "exclusion W" using assms(1) by (simp add: world_inv_def)
  ultimately show ?thesis
    using assms(2) by (auto simp: eligible_def serviced_abs config_of_def registered_def exclusion_def)
qed

subsection \<open>Simulation\<close>

text \<open>The relation that each kind of step establishes.\<close>

definition simulated :: "world \<Rightarrow> world \<Rightarrow> bool" where
  "simulated W W' \<longleftrightarrow> config_of (pipe W') = config_of (pipe W) \<and>
     (abs_world W' = abs_world W \<or> spec_step (config_of (pipe W)) (abs_world W) (abs_world W'))"

lemma simulated_same:
  assumes "config_of (pipe W') = config_of (pipe W)" and "queue_of_pipe (pipe W') = queue_of_pipe (pipe W)"
    and "worker_count W' = worker_count W" and "\<And>i. i < worker_count W \<Longrightarrow> active_of (pcs W' i) = active_of (pcs W i)"
  shows "simulated W W'"
proof -
  have "(if i < worker_count W then active_of (pcs W' i) else None) =
      (if i < worker_count W then active_of (pcs W i) else None)" for i using assms(4) by simp
  then show ?thesis using assms(1-3) by (simp add: simulated_def abs_world_def)
qed

lemma simulated_pcs:
  assumes "active_of pc = active_of (pcs W i)"
  shows "simulated W (W\<lparr>pcs := (pcs W)(i := pc)\<rparr>)"
  using assms by (intro simulated_same) (simp_all add: worker_count_def)

lemma simulated_take:
  assumes inv: "world_inv W" and x: "x \<in> registered W" and take: "take_free (chan (pipe W) x) = (Some p, c)"
  shows "simulated W (hold x p (Some Filling)
    (W\<lparr>pipe := set_channel x (construct_packet ts p (stamp_operation (now W) p c)) (pipe W)\<rparr>))"
proof -
  let ?w = "pipe W" and ?c = "construct_packet ts p (stamp_operation (now W) p c)"
  have ne: "free_packets (chan ?w x) \<noteq> []" using take by (auto simp: take_free_def split: if_splits)
  then have p: "p = last (free_packets (chan ?w x))" "c = (chan ?w x)\<lparr>free_packets := butlast (free_packets (chan ?w x))\<rparr>"
    using take by (simp_all add: take_free_def)
  then have "p \<in> set (free_packets (chan ?w x))" using ne by simp
  then have nq: "p \<notin> queued_set (chan ?w x)" using registered_inv [OF inv x] by (auto simp: channel_inv_def)
  have xs: "x \<in> set (channels (sched ?w))" using x by (simp add: registered_def)
  have q: "queued_set ?c = queued_set (chan ?w x)" by (simp add: p(2) queued_set_def construct_packet_def stamp_operation_def)
  have t: "packet_time ?c r = packet_time (chan ?w x) r" if "r \<in> queued_set (chan ?w x)" for r
    using that nq by (auto simp: p(2) construct_packet_def stamp_operation_def)
  have st: "same_static ?c (chan ?w x)" by (simp add: p(2) same_static_def construct_packet_def stamp_operation_def)
  show ?thesis
  proof (rule simulated_same)
    show "config_of (pipe (hold x p (Some Filling) (W\<lparr>pipe := set_channel x ?c ?w\<rparr>))) = config_of ?w"
      using st by (intro config_change [where x = x]) simp_all
    show "queue_of_pipe (pipe (hold x p (Some Filling) (W\<lparr>pipe := set_channel x ?c ?w\<rparr>))) = queue_of_pipe ?w"
      using xs q t by (intro queue_change(1) [where x = x]) simp_all
  qed (simp_all add: worker_count_def)
qed

lemma simulated_GetNext:
  assumes inv: "world_inv W" and x: "x \<in> registered W"
    and get: "GetNext (now W) x dropping (pipe W) = Some (Some p, w')"
    and del: "delivered (worker_count W) (sched (pipe W)) (sched w') (pcs W) pc'"
  shows "simulated W (hold x p h (W\<lparr>pipe := w', pcs := pc'\<rparr>))"
proof -
  let ?w = "pipe W"
  have pinv: "pipeline_inv ?w" and xs: "x \<in> set (channels (sched ?w))" and pst: "past (now W) ?w"
    using inv x by (simp_all add: world_inv_def registered_def clock_inv_def)
  have ne: "queued_set (chan ?w x) \<noteq> {}" using get by (auto simp: GetNext_def queued_set_def split: if_splits)
  have old: "dropping \<or> (\<forall>y\<in>queued_set (chan ?w x). packet_time (chan ?w x) y \<le> now W)"
    using pst xs by (auto simp: past_def)
  from PopNext_ok [OF pinv xs ne old] get obtain q where
    w': "heap_front (queued_packets (chan ?w x)) = Some q" "q = p" "same_config (sched ?w) (sched w')"
    "\<forall>y. y \<noteq> x \<longrightarrow> chan w' y = chan ?w y" "same_static (chan w' x) (chan ?w x)"
    "queued_set (chan w' x) = queued_set (chan ?w x) - {q}" "packet_time (chan w' x) = packet_time (chan ?w x)"
    by (auto simp: GetNext_PopNext [OF ne])
  have ch: "channels (sched w') = channels (sched ?w)" "workers (sched w') = workers (sched ?w)"
    using w'(3) by (simp_all add: same_config_def)
  let ?j = "(x, p, packet_time (chan ?w x) p)" and ?W = "hold x p h (W\<lparr>pipe := w', pcs := pc'\<rparr>)"
  have que: "queue_of_pipe w' = queue_of_pipe ?w - {?j}"
    using queue_change(2) [OF ch(1) xs w'(4), of p] w'(2,6,7) by simp
  have front: "p \<in> queued_set (chan ?w x)" "\<forall>y\<in>queued_set (chan ?w x). packet_time (chan ?w x) p \<le> packet_time (chan ?w x) y"
    using front_earliest [OF pinv xs w'(1)] w'(2) by auto
  then have j: "?j \<in> queue_of_pipe ?w" "\<forall>q u. (x, q, u) \<in> queue_of_pipe ?w \<longrightarrow> packet_time (chan ?w x) p \<le> u"
    using xs by (auto simp: queue_of_pipe_def)
  have "abs_world ?W = (abs_world W)\<lparr>sp_queue := sp_queue (abs_world W) - {?j}\<rparr>"
    using que ch(2) active_of_delivered [OF del] by (simp add: abs_world_def worker_count_def cong: if_cong)
  moreover have "spec_step (config_of ?w) (abs_world W) ((abs_world W)\<lparr>sp_queue := sp_queue (abs_world W) - {?j}\<rparr>)"
    using j by (intro spec_step.depart) (simp_all add: abs_world_def)
  ultimately show ?thesis
    using config_change [OF ch(1) w'(4,5)] by (simp add: simulated_def)
qed

lemma simulated_ReleaseAt:
  assumes inv: "world_inv W" and x: "x \<in> registered W"
    and h: "held W x p \<noteq> None" "dropping \<or> op_time (chan (pipe W) x) p \<le> t"
    and rel: "ReleaseAt t x p dropping (pipe W) = Some w'"
  shows "simulated W (hold x p None (W\<lparr>pipe := w'\<rparr>))"
proof -
  let ?w = "pipe W"
  have pinv: "pipeline_inv ?w" and xs: "x \<in> set (channels (sched ?w))"
    using inv x by (simp_all add: world_inv_def registered_def)
  have tr: "in_transit ?w x p" using world_invD(4) [OF inv x] h(1) by simp
  from ReleaseAt_ok [OF pinv xs tr h(2)] rel obtain c where
    c: "w' = set_channel x c ?w" "same_static c (chan ?w x)" "queued_set c = queued_set (chan ?w x)"
    "packet_time c = packet_time (chan ?w x)" by auto
  show ?thesis
  proof (rule simulated_same)
    show "config_of (pipe (hold x p None (W\<lparr>pipe := w'\<rparr>))) = config_of ?w"
      using c by (intro config_change [where x = x]) simp_all
    show "queue_of_pipe (pipe (hold x p None (W\<lparr>pipe := w'\<rparr>))) = queue_of_pipe ?w"
      using c xs by (intro queue_change(1) [where x = x]) simp_all
  qed (simp_all add: worker_count_def c(1))
qed

lemma simulated_Push:
  assumes inv: "world_inv W" and x: "x \<in> registered W" and h: "held W x p = Some Filling"
    and t: "op_time (chan (pipe W) x) p \<le> t" "packet_time (chan (pipe W) x) p \<le> t" "t \<le> now W"
    and push: "Push t x p (pipe W) = Some w'"
    and del: "delivered (worker_count W) (sched (pipe W)) (sched w') (pcs W) pc'"
  shows "simulated W (hold x p None (W\<lparr>pipe := w', pcs := pc'\<rparr>))"
proof -
  let ?w = "pipe W"
  have pinv: "pipeline_inv ?w" and xs: "x \<in> set (channels (sched ?w))" and tk: "t < kMaxTime"
    using inv x t(3) by (simp_all add: world_inv_def registered_def clock_inv_def)
  have tr: "in_transit ?w x p" using world_invD(4) [OF inv x] h by simp
  from Push_ok [OF pinv xs tr t(2,1) tk] push have
    w': "same_config (sched ?w) (sched w')" "\<forall>y. y \<noteq> x \<longrightarrow> chan w' y = chan ?w y"
    "same_static (chan w' x) (chan ?w x)" "queued_set (chan w' x) = insert p (queued_set (chan ?w x))"
    "packet_time (chan w' x) = packet_time (chan ?w x)" by auto
  have ch: "channels (sched w') = channels (sched ?w)" "workers (sched w') = workers (sched ?w)"
    using w'(1) by (simp_all add: same_config_def)
  let ?j = "(x, p, packet_time (chan ?w x) p)" and ?W = "hold x p None (W\<lparr>pipe := w', pcs := pc'\<rparr>)"
  have que: "queue_of_pipe w' = insert ?j (queue_of_pipe ?w)"
    using queue_change(3) [OF ch(1) xs w'(2,4,5)] .
  have fresh: "\<forall>u. (x, p, u) \<notin> queue_of_pipe ?w" using tr by (auto simp: queue_of_pipe_def in_transit_def)
  have "abs_world ?W = (abs_world W)\<lparr>sp_queue := insert ?j (sp_queue (abs_world W))\<rparr>"
    using que ch(2) active_of_delivered [OF del] by (simp add: abs_world_def worker_count_def cong: if_cong)
  moreover have "spec_step (config_of ?w) (abs_world W) ((abs_world W)\<lparr>sp_queue := insert ?j (sp_queue (abs_world W))\<rparr>)"
    using fresh by (intro spec_step.arrive) (simp add: abs_world_def)
  ultimately show ?thesis
    using config_change [OF ch(1) w'(2,3)] by (simp add: simulated_def)
qed

lemma simulated_pick:
  assumes inv: "world_inv W" and i: "i < worker_count W" and pc: "pcs W i = Locking"
    and pick: "pick_task (now W) (pipe W) = Some (Some (st, x, p), w')"
    and del: "delivered (worker_count W) (sched (pipe W)) (sched w') ((pcs W)(i := Executing st x p)) pc'"
  shows "simulated W (hold x p (Some Processing) (W\<lparr>pipe := w', pcs := pc'\<rparr>))"
proof -
  let ?w = "pipe W"
  have pinv: "pipeline_inv ?w" and pst: "past (now W) ?w" using inv by (simp_all add: world_inv_def clock_inv_def)
  have "ready_states (sched ?w) \<noteq> {}" using pick pick_none [OF _ pinv] by fastforce
  from pick_task_ok [OF pinv this pst] pick have
    w': "earliest_job ?w x p" "st = single_thread_object (chan ?w x)" "same_setup (sched ?w) (sched w')"
    "\<forall>y. y \<noteq> x \<longrightarrow> chan w' y = chan ?w y" "same_static (chan w' x) (chan ?w x)"
    "queued_set (chan w' x) = queued_set (chan ?w x) - {p}" "packet_time (chan w' x) = packet_time (chan ?w x)"
    by auto
  have ch: "channels (sched w') = channels (sched ?w)" "workers (sched w') = workers (sched ?w)"
    using w'(3) by (simp_all add: same_setup_def)
  have xs: "x \<in> set (channels (sched ?w))" "p \<in> queued_set (chan ?w x)" "x \<in> registered W"
    using w'(1) by (simp_all add: earliest_job_def registered_def)
  let ?j = "(x, p, packet_time (chan ?w x) p)" and ?W = "hold x p (Some Processing) (W\<lparr>pipe := w', pcs := pc'\<rparr>)"
  let ?S = "abs_world W" and ?C = "config_of ?w"
  have st: "cf_state ?C x = st" using xs(1) w'(2) by (simp add: config_of_def)
  have el: "eligible ?C ?S y \<longleftrightarrow> has_callback (chan ?w y) \<and> is_enabled (sched ?w) (single_thread_object (chan ?w y))"
    if "y \<in> set (channels (sched ?w))" for y
    using eligible_abs [OF inv] that by (simp add: registered_def)
  have que: "sp_queue ?S = queue_of_pipe ?w" "queue_of_pipe w' = queue_of_pipe ?w - {?j}"
    using queue_change(2) [OF ch(1) xs(1) w'(4,6,7)] by (simp_all add: abs_world_def)
  have "sp_active ?S i = None" using pc by (simp add: abs_world_def)
  moreover have "?j \<in> sp_queue ?S" using xs by (simp add: abs_world_def queue_of_pipe_def)
  moreover have "eligible ?C ?S x" using el [OF xs(1)] w'(1) by (simp add: earliest_job_def)
  moreover have "\<forall>y q u. (y, q, u) \<in> sp_queue ?S \<longrightarrow> eligible ?C ?S y \<longrightarrow> packet_time (chan ?w x) p \<le> u"
    using w'(1) el unfolding que(1) by (auto simp: earliest_job_def queue_of_pipe_def)
  ultimately have "spec_step ?C ?S (?S\<lparr>sp_queue := sp_queue ?S - {?j}, sp_active := (sp_active ?S)(i \<mapsto> (cf_state ?C x, x, p))\<rparr>)"
    by (rule spec_step.serve)
  moreover have "abs_world ?W = ?S\<lparr>sp_queue := sp_queue ?S - {?j}, sp_active := (sp_active ?S)(i \<mapsto> (cf_state ?C x, x, p))\<rparr>"
    using que i ch(2) st active_of_delivered [OF del] by (auto simp: abs_world_def worker_count_def)
  ultimately show ?thesis using config_change [OF ch(1) w'(4,5)] by (simp add: simulated_def)
qed

lemma simulated_finish:
  assumes inv: "world_inv W" and i: "i < worker_count W" and pc: "pcs W i = Executing st x p"
    and fin: "finish_task st (set_channel x (Log e (chan (pipe W) x)) (pipe W)) = Some w'"
  shows "simulated W (W\<lparr>pipe := w', pcs := (pcs W)(i := Idle)\<rparr>)"
proof -
  let ?w = "pipe W" and ?W = "W\<lparr>pipe := w', pcs := (pcs W)(i := Idle)\<rparr>"
  have w': "chan w' = (chan ?w)(x := Log e (chan ?w x))" "same_setup (sched ?w) (sched w')"
    using fin by (auto simp: finish_task_def same_setup_def set_queue_def bind_eq_Some_conv Let_def split: if_splits)
  have ch: "channels (sched w') = channels (sched ?w)" "workers (sched w') = workers (sched ?w)"
    using w'(2) by (simp_all add: same_setup_def)
  have eq: "single_thread_object (chan w' y) = single_thread_object (chan ?w y)" "has_callback (chan w' y) = has_callback (chan ?w y)"
    "packet_time (chan w' y) = packet_time (chan ?w y)" "queued_set (chan w' y) = queued_set (chan ?w y)" for y
    by (cases "y = x"; simp add: w'(1))+
  let ?S = "abs_world W"
  have "abs_world ?W = ?S\<lparr>sp_active := (sp_active ?S)(i := None)\<rparr>"
    using i ch eq by (auto simp: abs_world_def worker_count_def queue_of_pipe_def)
  moreover have "spec_step (config_of ?w) ?S (?S\<lparr>sp_active := (sp_active ?S)(i := None)\<rparr>)"
    using i pc by (intro spec_step.complete) (simp add: abs_world_def)
  moreover have "config_of w' = config_of ?w" using ch eq by (simp add: config_of_def cong: if_cong)
  ultimately show ?thesis by (simp add: simulated_def)
qed

lemma simulated_step:
  assumes inv: "world_inv W" and "step W W'"
  shows "simulated W W'"
  using assms(2)
proof cases
  case (tick t)
  show ?thesis unfolding tick(1) by (intro simulated_same) (simp_all add: worker_count_def)
next
  case (loop_check i)
  show ?thesis unfolding loop_check(1) using loop_check(3) by (intro simulated_pcs) simp
next
  case (sleep i)
  show ?thesis unfolding sleep(1) using sleep(3) by (intro simulated_pcs) simp
next
  case (spurious i)
  show ?thesis unfolding spurious(1) using spurious(3) by (intro simulated_pcs) simp
next
  case (pick_nothing i w')
  have "w' = pipe W" using pick_nothing(5) by (auto simp: pick_task_def bind_eq_Some_conv split: if_splits)
  then have eq: "W' = W\<lparr>pcs := (pcs W)(i := Idle)\<rparr>" using pick_nothing(1) by simp
  show ?thesis unfolding eq using pick_nothing(3) by (intro simulated_pcs) simp
next
  case (pick i st x p w' pc')
  show ?thesis unfolding pick(1) using inv pick(2-) by (rule simulated_pick)
next
  case (finish i st x p d w')
  show ?thesis unfolding finish(1) using inv finish(2-) by (rule simulated_finish)
next
  case (take x p c ts)
  show ?thesis unfolding take(1) using inv take(2-) by (rule simulated_take)
next
  case (drop x p w' pc')
  show ?thesis unfolding drop(1) using inv drop(2-) by (rule simulated_GetNext)
next
  case (dropped x p w')
  show ?thesis unfolding dropped(1)
    using inv dropped(2) _ _ dropped(4) by (rule simulated_ReleaseAt) (simp_all add: dropped(3))
next
  case (push x p t w' pc')
  show ?thesis unfolding push(1) using inv push(2-) by (rule simulated_Push)
next
  case (poll x p w' pc')
  show ?thesis unfolding poll(1) using inv poll(2-) by (rule simulated_GetNext)
next
  case (release x p t w')
  show ?thesis unfolding release(1)
    using inv release(2) _ _ release(6) by (rule simulated_ReleaseAt) (simp_all add: release(3,4))
next
  case (log x e)
  show ?thesis unfolding log(1)
  proof (rule simulated_same)
    show "config_of (pipe (W\<lparr>pipe := set_channel x (Log e (chan (pipe W) x)) (pipe W)\<rparr>)) = config_of (pipe W)"
      by (intro config_change [where x = x]) simp_all
    show "queue_of_pipe (pipe (W\<lparr>pipe := set_channel x (Log e (chan (pipe W) x)) (pipe W)\<rparr>)) = queue_of_pipe (pipe W)"
      using log(2) by (intro queue_change(1) [where x = x]) (simp_all add: registered_def)
  qed (simp_all add: worker_count_def)
next
  case stop_request
  then show ?thesis unfolding stop_request(1)
    by (intro simulated_same) (simp_all add: worker_count_def clear_keep_running_def config_of_def queue_of_pipe_def cong: if_cong)
next
  case stop_notify
  have "active_of (if pcs W i = Waiting then Locking else pcs W i) = active_of (pcs W i)" for i by simp
  then show ?thesis unfolding stop_notify(1) by (intro simulated_same) (simp_all add: worker_count_def)
qed

subsection \<open>The running system implements the specification\<close>

text \<open>
  C37: The running system refines the specification. Whatever a thread does in a reachable state, seen
  from outside either nothing happens, or a fresh packet arrives, or a channel loses its earliest packet,
  or an idle worker starts with the earliest packet of all whose stateful object nobody services, or a
  worker completes. Heaps, notifications, enabled flags and spurious wake-ups do not show; which channels
  are scheduled and with which state never changes.
\<close>

theorem scheduler_refines_spec:
  assumes "reachable W" and "step W W'"
  shows "config_of (pipe W') = config_of (pipe W) \<and>
    (abs_world W' = abs_world W \<or> spec_step (config_of (pipe W)) (abs_world W) (abs_world W'))"
  using simulated_step [OF world_inv_reachable [OF assms(1)] assms(2)] by (simp add: simulated_def)

theorem scheduler_refines_spec_witness:
  "spec_step (config_of (pipe ex_locking)) (abs_world ex_locking) (abs_world ex_servicing)"
proof -
  have "worker_count ex_servicing \<noteq> 0" using ex_servicing_facts(2) by (simp add: servicing_def)
  then have "sp_active (abs_world ex_servicing) 0 = Some (7, 21, 1000)"
    by (simp add: abs_world_def ex_servicing_def)
  moreover have "sp_active (abs_world ex_locking) 0 = None"
    using ex_locking_facts(3) by (simp add: abs_world_def)
  ultimately have "abs_world ex_servicing \<noteq> abs_world ex_locking" by auto
  then show ?thesis using scheduler_refines_spec [OF ex_locking_facts(1) ex_servicing_facts(7)] by simp
qed

end
