(* ===== verification/Whole_Life.thy ===== *)
theory Whole_Life
  imports Progress
begin

text \<open>
  The whole life of a scheduler with its channels, from the construction of the first to their destruction:
  channels are created and connected, packets may be pushed before the start, the system runs, stops, is changed and started
  again, as often as the user likes. The relation speaks of operations only; that every state in it satisfies the invariants
  that the other theories start from is the result.
\<close>

subsection \<open>Lives\<close>

text \<open>
  An object that is created gets an address that no registered channel has, and \<^verbatim>\<open>sizeof\<close> of a packet is not zero. Stop is the
  steps \<open>stop_request\<close> and \<open>stop_notify\<close> while the workers run, then waiting for them, then the rest of it. The library
  asserts that channels are created and destroyed while it does not run. It relies on users for three things more: packets that
  are pushed have timestamps that are not in the future (\<open>Push\<close> asserts it; a premise of the step), a channel object is
  constructed or moved only while the scheduler does not run (\<open>SetBase\<close> is not protected by a mutex), and a scheduled channel is
  destroyed only when its queue is empty (nothing in the code sees to that, and the invariant needs it).
\<close>

inductive life :: "world \<Rightarrow> bool" where
  boot:
    "scheduler_new n prof = Some s \<Longrightarrow> t < kMaxTime \<Longrightarrow>
     life \<lparr>pipe = \<lparr>chan = ch, sched = s\<rparr>, pcs = (\<lambda>_. Idle), held = (\<lambda>_ _. None), now = t, stopping = False\<rparr>"
| create:
    "life W \<Longrightarrow> x \<notin> registered W \<Longrightarrow> 0 < psize \<Longrightarrow>
     ChannelImpl_new name cap psize obj cb base pd x (pipe W) = Some w' \<Longrightarrow>
     life (W\<lparr>pipe := w', held := (held W)(x := \<lambda>_. None)\<rparr>)"
| connect:
    "life W \<Longrightarrow> \<not> running (sched (pipe W)) \<Longrightarrow> x \<in> registered W \<Longrightarrow>
     life (W\<lparr>pipe := set_channel x (SetBase b (chan (pipe W) x)) (pipe W)\<rparr>)"
| receiver:
    "life W \<Longrightarrow> AddReceiver r (sched (pipe W)) = Some s \<Longrightarrow> life (W\<lparr>pipe := (pipe W)\<lparr>sched := s\<rparr>\<rparr>)"
| invalidate:
    "life W \<Longrightarrow> SetStateInvalid True (sched (pipe W)) = Some s \<Longrightarrow> life (W\<lparr>pipe := (pipe W)\<lparr>sched := s\<rparr>\<rparr>)"
| start:
    "life W \<Longrightarrow> Start True (sched (pipe W)) = Some s \<Longrightarrow>
     life (W\<lparr>pipe := (pipe W)\<lparr>sched := s\<rparr>, pcs := (\<lambda>_. Idle)\<rparr>)"
| run: "life W \<Longrightarrow> step W W' \<Longrightarrow> life W'"
| stop:
    "life W \<Longrightarrow> stopped W \<Longrightarrow> \<forall>i<worker_count W. pcs W i = Exited \<Longrightarrow> Stop True (sched (pipe W)) = Some s \<Longrightarrow>
     life (W\<lparr>pipe := (pipe W)\<lparr>sched := s\<rparr>\<rparr>)"
| destroy:
    "life W \<Longrightarrow> \<not> has_job (chan (pipe W)) x \<Longrightarrow> ChannelImpl_destroy x (pipe W) = Some w' \<Longrightarrow> life (W\<lparr>pipe := w'\<rparr>)"

subsection \<open>What every life keeps\<close>

definition life_inv :: "world \<Rightarrow> bool" where
  "life_inv W \<longleftrightarrow>
     world_inv W \<and> reserved (pipe W) \<and> 0 < workers_number (sched (pipe W)) \<and>
     (if running (sched (pipe W)) then reachable W else worker_count W = 0 \<and> stopped W)"

lemma world_inv_idle:
  assumes "pipeline_inv (pipe W)" and "ownership W" and "clock_inv W" and "all_enabled (sched (pipe W))"
    and "worker_count W = 0" and "\<not> keep_running (sched (pipe W))"
  shows "world_inv W"
  using assms
  by (auto simp: world_inv_def assignment_def exclusion_def servicing_def no_stall_def all_enabled_def is_enabled_def)

text \<open>A change of the pipeline while nothing runs.\<close>

lemma life_inv_idle:
  assumes inv: "life_inv W" and run: "\<not> running (sched (pipe W))" and w': "pipeline_inv w'" "reserved w'" "all_enabled (sched w')"
    and s: "\<not> running (sched w')" "workers (sched w') = 0" "workers_number (sched w') = workers_number (sched (pipe W))"
      "\<not> keep_running (sched w')"
    and own: "ownership (W\<lparr>pipe := w', held := h\<rparr>)" "clock_inv (W\<lparr>pipe := w', held := h\<rparr>)"
  shows "life_inv (W\<lparr>pipe := w', held := h\<rparr>)"
proof -
  have "\<not> stopping W" "0 < workers_number (sched (pipe W))" using inv run by (simp_all add: life_inv_def stopped_def)
  moreover have "world_inv (W\<lparr>pipe := w', held := h\<rparr>)"
    using w'(1,3) s own by (intro world_inv_idle) (simp_all add: worker_count_def)
  ultimately show ?thesis using w'(2) s by (simp add: life_inv_def worker_count_def stopped_def)
qed

lemma life_inv_held: "life_inv (W\<lparr>pipe := w', held := held W\<rparr>) \<Longrightarrow> life_inv (W\<lparr>pipe := w'\<rparr>)"
  by simp

lemma idle_facts:
  assumes "life_inv W" and "\<not> running (sched (pipe W))"
  shows "world_inv W" "reserved (pipe W)" "workers (sched (pipe W)) = 0" "\<not> keep_running (sched (pipe W))" "\<not> stopping W"
    "all_enabled (sched (pipe W))" "0 < workers_number (sched (pipe W))" "ownership W" "clock_inv W"
  using assms exited_all_enabled [of W] by (auto simp: life_inv_def stopped_def worker_count_def world_inv_def)

lemma reserved_life:
  assumes "reserved w" and "set (channels (sched w')) \<subseteq> set (channels (sched w))"
    and "state_queue (sched w') = state_queue (sched w)" and "state_queues (sched w') = state_queues (sched w)"
    and "\<And>x. x \<in> set (channels (sched w')) \<Longrightarrow> single_thread_object (chan w' x) = single_thread_object (chan w x)"
  shows "reserved w'"
proof -
  have "channels_of w' st \<subseteq> channels_of w st" for st
    using assms(2,5) by (auto simp: channels_of_def)
  moreover have "finite (channels_of w st)" for st by (simp add: channels_of_def)
  ultimately have "card (channels_of w' st) \<le> card (channels_of w st)" for st by (intro card_mono)
  then show ?thesis using assms(1,3,4) by (auto simp: reserved_def intro: le_trans)
qed

lemma life_create:
  assumes inv: "life_inv W" and x: "x \<notin> registered W" and size: "0 < psize"
    and new: "ChannelImpl_new name cap psize obj cb base pd x (pipe W) = Some w'"
  shows "life_inv (W\<lparr>pipe := w', held := (held W)(x := \<lambda>_. None)\<rparr>)"
proof -
  obtain c ch s where cn: "channel_new name cap psize obj cb base = Some c"
    and r: "RegisterChannel pd x ((chan (pipe W))(x := c)) (sched (pipe W)) = Some (ch, s)" and eq: "w' = \<lparr>chan = ch, sched = s\<rparr>"
    using new by (auto simp: ChannelImpl_new_def bind_eq_Some_conv)
  have ok: "\<not> running (sched (pipe W))" "cap * psize < 2 ^ 31" "base \<noteq> nullptr"
    using cn r by (simp_all add: channel_new_def RegisterChannel_def Let_def assert_that_def split: if_splits)
  note f = idle_facts [OF inv ok(1)]
  have x': "x \<notin> set (channels (sched (pipe W)))" using x by (simp add: registered_def)
  from ChannelImpl_new_ok [OF world_invD(1) [OF f(1)] ok(1) x' ok(2,3) size, of name obj cb pd] new
  have w': "pipeline_inv w'" "\<not> running (sched w')" "channels (sched w') = channels (sched (pipe W)) @ [x]"
    "\<And>y. y \<noteq> x \<Longrightarrow> chan w' y = chan (pipe W) y" "set (free_packets (chan w' x)) = slots (chan w' x)"
    "queued_set (chan w' x) = {}" "all_enabled (sched (pipe W)) \<longrightarrow> all_enabled (sched w')"
    "workers_number (sched w') = workers_number (sched (pipe W))" "workers (sched w') = workers (sched (pipe W))"
    by auto
  have keep: "keep_running (sched w') = keep_running (sched (pipe W))"
    using r by (auto simp: RegisterChannel_def eq Let_def set_queue_def emit_def split: if_splits option.splits)
  have res: "reserved w'" using f(2) world_invD(1) [OF f(1)] x' new by (rule ChannelImpl_new_reserved)
  let ?h = "(held W)(x := \<lambda>_. None)"
  have old: "\<And>y. y \<in> set (channels (sched (pipe W))) \<Longrightarrow> chan w' y = chan (pipe W) y" using x' w'(4) by metis
  have own: "ownership (W\<lparr>pipe := w', held := ?h\<rparr>)"
    unfolding ownership_def
  proof (intro ballI allI)
    fix y p assume y: "y \<in> registered (W\<lparr>pipe := w', held := ?h\<rparr>)"
    show "in_transit (pipe (W\<lparr>pipe := w', held := ?h\<rparr>)) y p \<longleftrightarrow> held (W\<lparr>pipe := w', held := ?h\<rparr>) y p \<noteq> None"
    proof (cases "y = x")
      case True
      then show ?thesis using w'(5) by (simp add: in_transit_def)
    next
      case False
      then have "y \<in> registered W" using y w'(3) by (simp add: registered_def)
      then show ?thesis using world_invD(4) [OF f(1)] w'(4) [OF False] False by (simp add: in_transit_def)
    qed
  qed
  have "clock_inv (W\<lparr>pipe := w', held := ?h\<rparr>)"
    using f(9) w'(3,6) old unfolding clock_inv_def past_def registered_def by (auto split: if_splits)
  with own show ?thesis using f w' keep res by (intro life_inv_idle [OF inv ok(1)]) simp_all
qed

lemma life_destroy:
  assumes inv: "life_inv W" and idle: "\<not> has_job (chan (pipe W)) x" and d: "ChannelImpl_destroy x (pipe W) = Some w'"
  shows "life_inv (W\<lparr>pipe := w'\<rparr>)"
proof -
  let ?s = "sched (pipe W)"
  have ok: "\<not> running ?s" "x \<in> set (channels ?s)" "has_profiler ?s \<Longrightarrow> profile_data (chan (pipe W) x) \<noteq> nullptr"
    using d by (auto simp: ChannelImpl_destroy_def UnregisterChannel_def bind_eq_Some_conv assert_that_eq
        dest!: find_index_Some split: if_splits)
  note f = idle_facts [OF inv ok(1)]
  from ChannelImpl_destroy_ok [OF world_invD(1) [OF f(1)] ok(2,1,3) idle] d
  have w': "pipeline_inv w'" "set (channels (sched w')) = set (channels ?s) - {x}"
    "\<And>y. y \<noteq> x \<Longrightarrow> chan w' y = chan (pipe W) y" by auto
  have s: "\<not> running (sched w')" "workers (sched w') = workers ?s" "workers_number (sched w') = workers_number ?s"
    "keep_running (sched w') = keep_running ?s" "state_queue (sched w') = state_queue ?s" "state_queues (sched w') = state_queues ?s"
    using d ok(1) by (auto simp: ChannelImpl_destroy_def UnregisterChannel_def bind_eq_Some_conv emit_def split: if_splits)
  have res: "reserved w'" using f(2) _ s(5,6) by (rule reserved_life) (use w'(2,3) in auto)
  have "ownership (W\<lparr>pipe := w', held := held W\<rparr>)" "clock_inv (W\<lparr>pipe := w', held := held W\<rparr>)"
    using f(8,9) w'(2,3) by (auto simp: ownership_def clock_inv_def past_def registered_def in_transit_def)
  then have "life_inv (W\<lparr>pipe := w', held := held W\<rparr>)"
    using f w' s res by (intro life_inv_idle [OF inv ok(1)]) (simp_all add: all_enabled_def)
  then show ?thesis by simp
qed

text \<open>Operations that do not touch channels and heaps.\<close>

lemma life_sched:
  assumes inv: "life_inv W" and run: "\<not> running (sched (pipe W))"
    and s: "channels s = channels (sched (pipe W))" "state_queue s = state_queue (sched (pipe W))"
      "state_queues s = state_queues (sched (pipe W))" "\<not> running s" "workers s = 0"
      "workers_number s = workers_number (sched (pipe W))" "\<not> keep_running s"
  shows "life_inv (W\<lparr>pipe := (pipe W)\<lparr>sched := s\<rparr>\<rparr>)"
proof -
  note f = idle_facts [OF inv run]
  let ?w = "(pipe W)\<lparr>sched := s\<rparr>"
  have "pipeline_inv ?w" using world_invD(1) [OF f(1)] s(1-3) by (rule pipeline_inv_life)
  moreover have "reserved ?w" using f(2) by (rule reserved_life) (simp_all add: s)
  moreover have "ownership (W\<lparr>pipe := ?w, held := held W\<rparr>)" "clock_inv (W\<lparr>pipe := ?w, held := held W\<rparr>)"
    using f(8,9) s(1) by (simp_all add: ownership_def clock_inv_def past_def registered_def in_transit_def)
  ultimately have "life_inv (W\<lparr>pipe := ?w, held := held W\<rparr>)"
    using f(6) s by (intro life_inv_idle [OF inv run]) (simp_all add: all_enabled_def)
  then show ?thesis by simp
qed

lemma life_connect:
  assumes inv: "life_inv W" and run: "\<not> running (sched (pipe W))" and x: "x \<in> registered W"
  shows "life_inv (W\<lparr>pipe := set_channel x (SetBase b (chan (pipe W) x)) (pipe W)\<rparr>)"
proof -
  note f = idle_facts [OF inv run]
  define w where "w = set_channel x (SetBase b (chan (pipe W) x)) (pipe W)"
  have s: "sched w = sched (pipe W)" by (simp add: w_def)
  have eq: "queued_set (chan w y) = queued_set (chan (pipe W) y)" "packet_time (chan w y) = packet_time (chan (pipe W) y)"
    "op_time (chan w y) = op_time (chan (pipe W) y)" "slots (chan w y) = slots (chan (pipe W) y)"
    "free_packets (chan w y) = free_packets (chan (pipe W) y)"
    "single_thread_object (chan w y) = single_thread_object (chan (pipe W) y)" for y
    by (cases "y = x"; simp add: w_def SetBase_def queued_set_def slots_def)+
  have inv': "pipeline_inv w" using world_invD(1) [OF f(1)] x unfolding w_def by (intro SetBase_ok) (simp_all add: registered_def)
  have res: "reserved w" using f(2) by (rule reserved_life) (simp_all add: s eq)
  have "ownership (W\<lparr>pipe := w, held := held W\<rparr>)" "clock_inv (W\<lparr>pipe := w, held := held W\<rparr>)"
    using f(8,9) by (simp_all add: ownership_def clock_inv_def past_def registered_def in_transit_def s eq)
  then have "life_inv (W\<lparr>pipe := w, held := held W\<rparr>)"
    using f run inv' res by (intro life_inv_idle [OF inv run]) (simp_all add: s)
  then show ?thesis by (simp add: w_def)
qed

lemma life_start:
  assumes inv: "life_inv W" and s: "Start True (sched (pipe W)) = Some s"
  shows "life_inv (W\<lparr>pipe := (pipe W)\<lparr>sched := s\<rparr>, pcs := (\<lambda>_. Idle)\<rparr>)"
proof -
  let ?s = "sched (pipe W)"
  have run: "\<not> running ?s" "valid_state ?s" using s by (auto simp: Start_def check_def split: if_splits)
  note f = idle_facts [OF inv run(1)]
  from Start_started [OF world_invD(1) [OF f(1)] run f(7,6,8,9,5), of True] s
  have "started (W\<lparr>pipe := (pipe W)\<lparr>sched := s\<rparr>, pcs := (\<lambda>_. Idle)\<rparr>)" by simp
  then have r: "reachable (W\<lparr>pipe := (pipe W)\<lparr>sched := s\<rparr>, pcs := (\<lambda>_. Idle)\<rparr>)" by (rule reachable.start)
  have e: "channels s = channels ?s" "state_queue s = state_queue ?s" "state_queues s = state_queues ?s" "running s"
    "workers_number s = workers_number ?s" using Start_eq [OF run, of True] s by auto
  have "reserved ((pipe W)\<lparr>sched := s\<rparr>)" using f(2) by (rule reserved_life) (simp_all add: e)
  with r world_inv_reachable [OF r] e f(7) show ?thesis by (simp add: life_inv_def)
qed

lemma life_run:
  assumes inv: "life_inv W" and st: "step W W'"
  shows "life_inv W'"
proof -
  have w: "world_inv W" "reserved (pipe W)" "0 < workers_number (sched (pipe W))" using inv by (simp_all add: life_inv_def)
  have w': "world_inv W'" "reserved (pipe W')" using world_inv_step [OF w(1) st] same_memory_step [OF w(1,2) st] by (simp_all add: same_memory_def)
  have "running (sched (pipe W')) = running (sched (pipe W))" "workers_number (sched (pipe W')) = workers_number (sched (pipe W))"
    using step_section [OF w(1) st] by (auto simp: section_step_def roomy_def same_setup_def)
  with w w' inv step_setup(1) [OF w(1) st] stopped_stays [OF w(1) st] reachable.step [OF _ st] show ?thesis
    by (auto simp: life_inv_def)
qed

lemma life_stop:
  assumes inv: "life_inv W" and ex: "stopped W" "\<forall>i<worker_count W. pcs W i = Exited" and s: "Stop True (sched (pipe W)) = Some s"
  shows "life_inv (W\<lparr>pipe := (pipe W)\<lparr>sched := s\<rparr>\<rparr>)"
proof -
  let ?s = "sched (pipe W)" and ?W = "W\<lparr>pipe := (pipe W)\<lparr>sched := s\<rparr>\<rparr>"
  have run: "running ?s" using s by (auto simp: Stop_def check_def split: if_splits)
  have e: "channels s = channels ?s" "state_queue s = state_queue ?s" "state_queues s = state_queues ?s" "\<not> running s"
    "workers s = 0" "workers_number s = workers_number ?s" "\<not> keep_running s"
    using Stop_eq [OF run, of True] s by auto
  have w: "world_inv W" "reserved (pipe W)" "0 < workers_number ?s" "\<not> stopping W" using inv ex(1) by (simp_all add: life_inv_def stopped_def)
  have "all_enabled s" using exited_all_enabled [OF w(1) ex(2)] by (simp add: all_enabled_def e)
  moreover have "pipeline_inv ((pipe W)\<lparr>sched := s\<rparr>)" using world_invD(1) [OF w(1)] e(1-3) by (rule pipeline_inv_life)
  moreover have "ownership ?W" "clock_inv ?W"
    using w(1) e(1) by (simp_all add: world_inv_def ownership_def clock_inv_def past_def registered_def in_transit_def)
  ultimately have "world_inv ?W" using e by (intro world_inv_idle) (simp_all add: worker_count_def)
  moreover have "reserved ((pipe W)\<lparr>sched := s\<rparr>)" using w(2) by (rule reserved_life) (simp_all add: e)
  ultimately show ?thesis using w(3,4) e by (simp add: life_inv_def stopped_def worker_count_def)
qed

lemma life_life_inv: "life W \<Longrightarrow> life_inv W"
proof (induction rule: life.induct)
  case (boot n prof s t ch)
  let ?W = "\<lparr>pipe = \<lparr>chan = ch, sched = s\<rparr>, pcs = (\<lambda>_. Idle), held = (\<lambda>_ _. None), now = t, stopping = False\<rparr>"
  have n: "0 < n" using boot(1) by (simp add: scheduler_new_def assert_that_def split: if_splits)
  from scheduler_new_ok [OF n, of prof ch] boot(1) have s: "pipeline_inv \<lparr>chan = ch, sched = s\<rparr>" "\<not> running s" "all_enabled s"
    "workers_number s = n" "workers s = 0" "channels s = []" by auto
  have "\<not> keep_running s" using boot(1) by (auto simp: scheduler_new_def bind_eq_Some_conv)
  moreover have "ownership ?W" "clock_inv ?W" using s(6) boot(2) by (simp_all add: ownership_def clock_inv_def registered_def past_def)
  ultimately have "world_inv ?W" using s by (intro world_inv_idle) (simp_all add: worker_count_def)
  with reserved_new [OF boot(1)] s n \<open>\<not> keep_running s\<close> show ?case by (simp add: life_inv_def stopped_def worker_count_def)
next
  case (receiver W r s)
  then have "\<not> running (sched (pipe W))" "s = (sched (pipe W))\<lparr>receivers := receivers (sched (pipe W)) @ [r]\<rparr>"
    by (auto simp: AddReceiver_def bind_eq_Some_conv assert_that_eq)
  with idle_facts [OF receiver(3) this(1)] show ?case by (intro life_sched [OF receiver(3)]) simp_all
next
  case (invalidate W s)
  then have "\<not> running (sched (pipe W))" "s = (sched (pipe W))\<lparr>valid_state := False\<rparr>"
    by (auto simp: SetStateInvalid_def check_def split: if_splits)
  with idle_facts [OF invalidate(3) this(1)] show ?case by (intro life_sched [OF invalidate(3)]) simp_all
qed (blast intro: life_create life_connect life_start life_run life_stop life_destroy)+

subsection \<open>Properties\<close>

text \<open>
  C10: Programs that keep to the rules are in order. The rules: pushed packets have timestamps that are not in the
  future, channel objects are constructed and moved only while the scheduler does not run, and no scheduled channel is destroyed
  with packets in its queue (a destructor does not test this, and C16 shows what it leaves behind otherwise; polled channels may
  be destroyed with packets). Whatever such a program does with the operations of the library (construct the scheduler,
  create, connect and destroy channels, push and poll packets before the start or after a stop, start, run workers and user threads in any
  interleaving, stop, start again), as long as it passes the library's assertions, every queue and every pool satisfies the invariant and enough memory is reserved; while the
  scheduler runs its state is one of those that the theorems about the running system speak of; and while it does not run no
  worker is left, no state is left disabled, and Start succeeds unless a handshake has failed.
\<close>

theorem every_life_in_order:
  assumes "life W"
  shows "pipeline_inv (pipe W) \<and> reserved (pipe W) \<and>
    (if running (sched (pipe W)) then reachable W
     else worker_count W = 0 \<and> all_enabled (sched (pipe W)) \<and>
       (valid_state (sched (pipe W)) \<longleftrightarrow> Start True (sched (pipe W)) \<noteq> None))"
proof -
  have inv: "life_inv W" using assms by (rule life_life_inv)
  have "valid_state (sched (pipe W)) \<longleftrightarrow> Start True (sched (pipe W)) \<noteq> None" if "\<not> running (sched (pipe W))"
    using Start_eq [OF that, of True] Start_invalid [of "sched (pipe W)" True] by (cases "valid_state (sched (pipe W))") simp_all
  with inv idle_facts(6) [OF inv] show ?thesis by (auto simp: life_inv_def world_inv_def)
qed

lemma ex_life_create:
  assumes "life (ex_before w)" and "ChannelImpl_new name cap psize obj cb base pd x w = Some w'" and "x \<notin> set (channels (sched w))"
    and "0 < psize"
  shows "life (ex_before w')"
proof -
  have "life ((ex_before w)\<lparr>pipe := w', held := (held (ex_before w))(x := \<lambda>_. None)\<rparr>)"
    using assms by (intro life.create [where W = "ex_before w"]) (simp_all add: ex_before_def registered_def)
  then show ?thesis by (simp add: ex_before_def fun_upd_idem)
qed

lemma ex_built_life: "life (ex_start ex_built)"
proof -
  obtain s where s: "scheduler_new 2 False = Some s" by (simp add: scheduler_new_def)
  have "life (ex_before ex_new)"
    using life.boot [OF s, of 6 "\<lambda>_. ex_blank"] s by (simp add: ex_before_def ex_new_def kMaxTime_def)
  then have "life (ex_before ex_one)" by (rule ex_life_create) (use ex_one_inv(1) ex_new_inv(4) in auto)
  then have "life (ex_before ex_two)" by (rule ex_life_create) (use ex_two_inv(1) ex_one_inv(5) in auto)
  then have b: "life (ex_before ex_built)" by (rule ex_life_create) (use ex_built_inv(1) ex_two_inv(5) in auto)
  have "Start True (sched (pipe (ex_before ex_built))) = Some (the (Start True (sched ex_built)))"
    using Start_eq [OF ex_built_inv(3,8), of True] by (simp add: ex_before_def)
  from life.start [OF b this] show ?thesis by (simp add: ex_start_def ex_before_def)
qed

theorem every_life_in_order_witness: "reachable (ex_start ex_built) \<and> reserved (pipe (ex_start ex_built))"
proof -
  have "running (sched (pipe (ex_start ex_built)))"
    using Start_eq [OF ex_built_inv(3,8), of True] by (simp add: ex_start_def ex_before_def)
  then show ?thesis using every_life_in_order [OF ex_built_life] by simp
qed

end
