(* ===== verification/Spin_Lock.thy ===== *)
theory Spin_Lock
  imports Pipert_Prelude
begin

text \<open>
  Model of \<^verbatim>\<open>src/AdaptiveSpinLock.h\<close> and \<^verbatim>\<open>src/AdaptiveSpinLock.cpp\<close>: one iteration of
  the waiting loop of \<^verbatim>\<open>lock\<close>, the whole loop of one thread, given what its calls of \<^verbatim>\<open>test_and_set\<close> return, and the
  lock with all threads that call \<^verbatim>\<open>lock\<close>, \<^verbatim>\<open>try_lock\<close> and \<^verbatim>\<open>unlock\<close>, as a step relation with one
  step per atomic operation. That every section of the program under such a lock is one step of the
  other theories rests on the mutual exclusion shown here.
\<close>

subsection \<open>One thread\<close>

definition kSpinsBeforeYield :: int where
  "kSpinsBeforeYield = 256"

text \<open>\<open>hw\<close> is \<^verbatim>\<open>hardware_concurrency()\<close>; the member is 0 before the constructor's body.\<close>

definition spin_lock_new :: "nat \<Rightarrow> int \<Rightarrow> int" where
  "spin_lock_new hw spins = (if hw = 1 then 1 else spins)"

text \<open>
  Where a thread is: not using the lock, in the loop of \<^verbatim>\<open>lock\<close> before its next \<^verbatim>\<open>test_and_set\<close>, there in the call of
  \<^verbatim>\<open>yield\<close>, or holding the lock. The number is the countdown.
\<close>

datatype spin_pc =
    Outside
  | Trying int
  | Yielding int
  | Inside

text \<open>One iteration of the loop; \<open>busy\<close> is the result of \<^verbatim>\<open>test_and_set\<close>, true meaning that the lock is taken.\<close>

definition lock_iteration :: "int \<Rightarrow> int \<Rightarrow> bool \<Rightarrow> spin_pc" where
  "lock_iteration spins countdown busy =
     (if busy
      then (let countdown' = countdown - 1 in
            if countdown' = 0 then Yielding spins else Trying countdown')
      else Inside)"

text \<open>
  The list holds the results of \<^verbatim>\<open>test_and_set\<close> from now on; the result is the number of yields and the results not
  looked at.
\<close>

fun lock_loop :: "int \<Rightarrow> int \<Rightarrow> bool list \<Rightarrow> (nat \<times> bool list) option" where
  "lock_loop spins countdown [] = None"
| "lock_loop spins countdown (busy # rs) =
     (case lock_iteration spins countdown busy of
        Trying countdown' \<Rightarrow> lock_loop spins countdown' rs
      | Yielding countdown' \<Rightarrow> map_option (apfst Suc) (lock_loop spins countdown' rs)
      | _ \<Rightarrow> Some (0, rs))"

definition lock :: "int \<Rightarrow> bool list \<Rightarrow> (nat \<times> bool list) option" where
  "lock spins rs = lock_loop spins spins rs"

lemma lock_iteration_simps [simp]:
  "lock_iteration spins c False = Inside"
  "lock_iteration spins 1 True = Yielding spins"
  "c \<noteq> 1 \<Longrightarrow> lock_iteration spins c True = Trying (c - 1)"
  by (simp_all add: lock_iteration_def)

lemma lock_iteration_inside [simp]: "lock_iteration spins c busy = Inside \<longleftrightarrow> \<not> busy"
  by (simp add: lock_iteration_def Let_def)

lemma lock_loop_yields:
  assumes "0 < c" and "c \<le> spins"
  shows "lock_loop spins c (replicate n True @ False # rs) = Some (nat ((int n + (spins - c)) div spins), rs)"
  using assms
proof (induction n arbitrary: c)
  case 0
  then show ?case by simp
next
  case (Suc n)
  show ?case
  proof (cases "c = 1")
    case True
    have "lock_loop spins spins (replicate n True @ False # rs) = Some (nat (int n div spins), rs)"
      using Suc.IH [of spins] Suc.prems by simp
    moreover have "spins \<noteq> 0" using Suc.prems by simp
    then have "(int n + spins) div spins = int n div spins + 1" by (rule div_add_self2)
    then have "(int (Suc n) + (spins - 1)) div spins = int n div spins + 1" by (simp add: algebra_simps)
    moreover have "0 \<le> int n div spins" using Suc.prems by (simp add: pos_imp_zdiv_nonneg_iff)
    ultimately show ?thesis using True by (simp add: nat_add_distrib)
  next
    case False
    then have "lock_loop spins (c - 1) (replicate n True @ False # rs) =
        Some (nat ((int n + (spins - (c - 1))) div spins), rs)"
      using Suc.IH [of "c - 1"] Suc.prems by simp
    moreover have "int n + (spins - (c - 1)) = int (Suc n) + (spins - c)" by simp
    ultimately show ?thesis using False by simp
  qed
qed

text \<open>The lock is taken at the first attempt that finds it free, with one yield per full countdown.\<close>

lemma lock_yields: "0 < spins \<Longrightarrow> lock spins (replicate n True @ False # rs) = Some (nat (int n div spins), rs)"
  using lock_loop_yields [of spins spins n rs] by (simp add: lock_def)

subsection \<open>All threads\<close>

record spin_state =
  flag :: bool
  spins_before_yield :: int
  spin_pcs :: "nat \<Rightarrow> spin_pc"

text \<open>\<^verbatim>\<open>atomic_flag::test_and_set\<close> sets the flag and returns what it was.\<close>

definition test_and_set :: "spin_state \<Rightarrow> bool \<times> spin_state" where
  "test_and_set s = (flag s, s\<lparr>flag := True\<rparr>)"

definition at_pc :: "nat \<Rightarrow> spin_pc \<Rightarrow> spin_state \<Rightarrow> spin_state" where
  "at_pc i pc s = s\<lparr>spin_pcs := (spin_pcs s)(i := pc)\<rparr>"

text \<open>A call of \<^verbatim>\<open>lock\<close> by the thread \<open>i\<close> begins, and goes once through its loop.\<close>

definition lock_call :: "nat \<Rightarrow> spin_state \<Rightarrow> spin_state" where
  "lock_call i s = at_pc i (Trying (spins_before_yield s)) s"

definition lock_attempt :: "nat \<Rightarrow> int \<Rightarrow> spin_state \<Rightarrow> spin_state" where
  "lock_attempt i countdown s =
     (case test_and_set s of (busy, s') \<Rightarrow> at_pc i (lock_iteration (spins_before_yield s') countdown busy) s')"

definition try_lock :: "spin_state \<Rightarrow> bool \<times> spin_state" where
  "try_lock s = (case test_and_set s of (busy, s') \<Rightarrow> (\<not> busy, s'))"

definition unlock :: "spin_state \<Rightarrow> spin_state" where
  "unlock s = s\<lparr>flag := False\<rparr>"

text \<open>Only a thread that holds the lock releases it, and no thread takes it twice, as the guards of C++ see to.\<close>

inductive spin_step :: "spin_state \<Rightarrow> spin_state \<Rightarrow> bool" where
  call: "spin_pcs s i = Outside \<Longrightarrow> spin_step s (lock_call i s)"
| attempt: "spin_pcs s i = Trying c \<Longrightarrow> spin_step s (lock_attempt i c s)"
| resume: "spin_pcs s i = Yielding c \<Longrightarrow> spin_step s (at_pc i (Trying c) s)"
| trying:
    "spin_pcs s i = Outside \<Longrightarrow> try_lock s = (got, s') \<Longrightarrow> spin_step s (at_pc i (if got then Inside else Outside) s')"
| leave: "spin_pcs s i = Inside \<Longrightarrow> spin_step s (at_pc i Outside (unlock s))"

definition spin_state_new :: "nat \<Rightarrow> int \<Rightarrow> spin_state" where
  "spin_state_new hw spins = \<lparr>flag = False, spins_before_yield = spin_lock_new hw spins, spin_pcs = (\<lambda>_. Outside)\<rparr>"

inductive spin_reachable :: "spin_state \<Rightarrow> bool" where
  spin_init: "spin_reachable (spin_state_new hw spins)"
| spin_next: "spin_reachable s \<Longrightarrow> spin_step s s' \<Longrightarrow> spin_reachable s'"

lemma at_pc_simps [simp]:
  "flag (at_pc i pc s) = flag s" "spins_before_yield (at_pc i pc s) = spins_before_yield s"
  "spin_pcs (at_pc i pc s) = (spin_pcs s)(i := pc)"
  by (simp_all add: at_pc_def)

lemma lock_attempt_simps [simp]:
  "flag (lock_attempt i c s)" "spins_before_yield (lock_attempt i c s) = spins_before_yield s"
  "spin_pcs (lock_attempt i c s) = (spin_pcs s)(i := lock_iteration (spins_before_yield s) c (flag s))"
  by (simp_all add: lock_attempt_def test_and_set_def)

definition holders :: "spin_state \<Rightarrow> nat set" where
  "holders s = {i. spin_pcs s i = Inside}"

fun counts :: "int \<Rightarrow> spin_pc \<Rightarrow> bool" where
  "counts n (Trying c) = (0 < c \<and> c \<le> n)"
| "counts n (Yielding c) = (0 < c \<and> c \<le> n)"
| "counts n pc = True"

definition counting :: "spin_state \<Rightarrow> bool" where
  "counting s \<longleftrightarrow> (0 < spins_before_yield s \<longrightarrow> (\<forall>i. counts (spins_before_yield s) (spin_pcs s i)))"

definition spin_inv :: "spin_state \<Rightarrow> bool" where
  "spin_inv s \<longleftrightarrow> (if flag s then \<exists>i. holders s = {i} else holders s = {}) \<and> counting s"

lemma holders_at_pc: "holders (at_pc i pc s) = (if pc = Inside then insert i (holders s) else holders s - {i})"
  unfolding holders_def by auto

lemma counting_at_pc:
  "counting s \<Longrightarrow> (0 < spins_before_yield s \<Longrightarrow> counts (spins_before_yield s) pc) \<Longrightarrow> counting (at_pc i pc s)"
  by (simp add: counting_def)

lemma with_flag [simp]:
  "holders (s\<lparr>flag := b\<rparr>) = holders s" "counting (s\<lparr>flag := b\<rparr>) = counting s"
  by (simp_all add: holders_def counting_def)

lemma lock_iteration_counts: "0 < n \<Longrightarrow> counts n (Trying c) \<Longrightarrow> counts n (lock_iteration n c busy)"
  by (cases busy; cases "c = 1") simp_all

lemma spin_inv_step:
  assumes inv: "spin_inv s" and st: "spin_step s s'"
  shows "spin_inv s'"
  using st
proof cases
  case (call i)
  then have "i \<notin> holders s" by (simp add: holders_def)
  with call(1) inv counting_at_pc [of s "Trying (spins_before_yield s)" i] show ?thesis
    by (simp add: spin_inv_def lock_call_def holders_at_pc)
next
  case (attempt i c)
  let ?pc = "lock_iteration (spins_before_yield s) c (flag s)"
  have eq: "s' = at_pc i ?pc (s\<lparr>flag := True\<rparr>)" using attempt(1) by (simp add: lock_attempt_def test_and_set_def)
  have "i \<notin> holders s" using attempt(2) by (simp add: holders_def)
  moreover have "counting s" using inv by (simp add: spin_inv_def)
  then have "counts (spins_before_yield s) (Trying c)" if "0 < spins_before_yield s"
    using that attempt(2) unfolding counting_def by metis
  then have "counting s'" unfolding eq using \<open>counting s\<close> lock_iteration_counts by (intro counting_at_pc) simp_all
  ultimately show ?thesis using inv by (cases "flag s") (auto simp: spin_inv_def eq holders_at_pc)
next
  case (resume i c)
  then have "i \<notin> holders s" by (simp add: holders_def)
  moreover have "counts (spins_before_yield s) (Trying c)" if "0 < spins_before_yield s"
    using that inv resume(2) unfolding spin_inv_def counting_def by (metis counts.simps(1,2))
  ultimately show ?thesis
    using resume(1) inv counting_at_pc [of s "Trying c" i] by (simp add: spin_inv_def holders_at_pc)
next
  case (trying i got s1)
  have s1: "s1 = s\<lparr>flag := True\<rparr>" "got \<longleftrightarrow> \<not> flag s" using trying(3) by (auto simp: try_lock_def test_and_set_def)
  have "i \<notin> holders s" using trying(2) by (simp add: holders_def)
  moreover have "counting s'" unfolding trying(1) s1(1) using inv by (intro counting_at_pc) (simp_all add: spin_inv_def)
  ultimately show ?thesis using inv by (cases "flag s") (auto simp: spin_inv_def trying(1) s1 holders_at_pc)
next
  case (leave i)
  then have "i \<in> holders s" by (simp add: holders_def)
  then have "holders s = {i}" using inv by (cases "flag s") (auto simp: spin_inv_def)
  moreover have "counting s'" unfolding leave(1) unlock_def using inv by (intro counting_at_pc) (simp_all add: spin_inv_def)
  ultimately show ?thesis by (simp add: spin_inv_def leave(1) unlock_def holders_at_pc)
qed

lemma spin_inv_reachable: "spin_reachable s \<Longrightarrow> spin_inv s"
proof (induction rule: spin_reachable.induct)
  case (spin_init hw spins)
  show ?case by (simp add: spin_inv_def spin_state_new_def holders_def counting_def)
qed (rule spin_inv_step)

subsection \<open>Properties\<close>

text \<open>
  C21: The lock excludes. However threads call lock, go through its waiting loop, yield, try and unlock, at most one thread
  holds the lock, and one does exactly if the flag is set. As long as a thread holds it no attempt of another one succeeds, neither
  in lock, whose caller goes on counting down or yields, nor in try_lock; when no thread holds it the next attempt of
  any waiting thread succeeds. A waiting thread's countdown stays between 1 and the number of spins, if that is positive.
\<close>

theorem spin_lock_excludes:
  assumes "spin_reachable s"
  shows "(\<forall>i j. spin_pcs s i = Inside \<longrightarrow> spin_pcs s j = Inside \<longrightarrow> i = j) \<and>
    (flag s \<longleftrightarrow> (\<exists>i. spin_pcs s i = Inside)) \<and>
    (\<forall>i j c. spin_pcs s i = Inside \<longrightarrow> spin_pcs s j = Trying c \<longrightarrow>
       spin_pcs (lock_attempt j c s) j = (if c = 1 then Yielding (spins_before_yield s) else Trying (c - 1)) \<and>
       spin_pcs (lock_attempt j c s) i = Inside \<and> try_lock s = (False, s)) \<and>
    ((\<forall>i. spin_pcs s i \<noteq> Inside) \<longrightarrow>
       fst (try_lock s) \<and> (\<forall>j c. spin_pcs s j = Trying c \<longrightarrow> spin_pcs (lock_attempt j c s) j = Inside)) \<and>
    (0 < spins_before_yield s \<longrightarrow> (\<forall>j c. spin_pcs s j = Trying c \<longrightarrow> 0 < c \<and> c \<le> spins_before_yield s))"
proof -
  have inv: "spin_inv s" using assms by (rule spin_inv_reachable)
  then have flag: "flag s \<longleftrightarrow> (\<exists>i. spin_pcs s i = Inside)" by (auto simp: spin_inv_def holders_def split: if_splits)
  have one: "i = j" if "spin_pcs s i = Inside" "spin_pcs s j = Inside" for i j
  proof -
    have "i \<in> holders s" "j \<in> holders s" using that by (simp_all add: holders_def)
    with inv show ?thesis by (auto simp: spin_inv_def split: if_splits)
  qed
  have busy: "spin_pcs (lock_attempt j c s) j = (if c = 1 then Yielding (spins_before_yield s) else Trying (c - 1)) \<and>
      spin_pcs (lock_attempt j c s) i = Inside \<and> try_lock s = (False, s)"
    if "spin_pcs s i = Inside" "spin_pcs s j = Trying c" for i j c
  proof -
    have "flag s" "i \<noteq> j" using that flag by auto
    with that show ?thesis by (simp add: try_lock_def test_and_set_def)
  qed
  have free: "fst (try_lock s) \<and> (\<forall>j c. spin_pcs s j = Trying c \<longrightarrow> spin_pcs (lock_attempt j c s) j = Inside)"
    if "\<forall>i. spin_pcs s i \<noteq> Inside"
    using that flag by (simp add: try_lock_def test_and_set_def)
  have "counting s" using inv by (simp add: spin_inv_def)
  then have "0 < spins_before_yield s \<longrightarrow> (\<forall>j c. spin_pcs s j = Trying c \<longrightarrow> 0 < c \<and> c \<le> spins_before_yield s)"
    unfolding counting_def by (metis counts.simps(1))
  with one flag busy free show ?thesis by blast
qed

definition ex_spin :: spin_state where
  "ex_spin = lock_call 2 (lock_attempt 1 1 (lock_call 1 (spin_state_new 1 256)))"

lemma ex_spin_facts: "spin_reachable ex_spin" "spin_pcs ex_spin 1 = Inside" "spin_pcs ex_spin 2 = Trying 1"
proof -
  let ?s1 = "lock_call 1 (spin_state_new 1 256)"
  have pc: "spin_pcs (spin_state_new 1 256) 1 = Outside" "spin_pcs ?s1 1 = Trying 1" "spin_pcs (lock_attempt 1 1 ?s1) 2 = Outside"
    by (simp_all add: spin_state_new_def lock_call_def spin_lock_new_def)
  show "spin_reachable ex_spin"
    unfolding ex_spin_def
    by (rule spin_next [OF spin_next [OF spin_next [OF spin_init call [OF pc(1)]] attempt [OF pc(2)]] call [OF pc(3)]])
  show "spin_pcs ex_spin 1 = Inside" "spin_pcs ex_spin 2 = Trying 1"
    by (simp_all add: ex_spin_def spin_state_new_def lock_call_def spin_lock_new_def)
qed

theorem spin_lock_excludes_witness:
  "spin_pcs (lock_attempt 2 1 ex_spin) 2 = Yielding 1 \<and> try_lock ex_spin = (False, ex_spin)"
proof -
  have "spins_before_yield ex_spin = 1" by (simp add: ex_spin_def lock_call_def spin_state_new_def spin_lock_new_def)
  with spin_lock_excludes [OF ex_spin_facts(1)] ex_spin_facts(2,3) show ?thesis by fastforce
qed

end
