(* ===== verification/Attribution.thy ===== *)
theory Attribution
  imports Profile_Data
begin

text \<open>
  Who is reported as the sender of a channel's packets. A worker tags itself when \<^verbatim>\<open>RunTasks\<close> begins and takes
  the name of a channel before it executes one of its packets (\<^verbatim>\<open>src/SchedulerImpl.cpp\<close>); whatever the callback logs
  is then tracked under that name in the \<open>ProfileData\<close> of the channel it is logged for. Other threads
  keep the name \<^verbatim>\<open>"N/A"\<close>. All threads together do these things in some order.
\<close>

subsection \<open>Actions of threads\<close>

datatype thread_action =
    Tagging nat
  | Naming nat cptr
  | Logging nat addr log_event

fun act ::
  "bool \<Rightarrow> (real \<Rightarrow> real) \<Rightarrow> thread_action \<Rightarrow> thread_ids \<times> (addr \<Rightarrow> profile_data) \<Rightarrow>
     (thread_ids \<times> (addr \<Rightarrow> profile_data)) option" where
  "act dbg rnd (Tagging i) (ids, mem) = do { ids1 \<leftarrow> TagCurrentThread dbg i ids; Some (ids1, mem) }"
| "act dbg rnd (Naming i name) (ids, mem) = do { ids1 \<leftarrow> SetNameOfCurrentThread i name ids; Some (ids1, mem) }"
| "act dbg rnd (Logging i y ev) (ids, mem) = do {
     (ids1, d) \<leftarrow> ProfileData_Log dbg rnd i ev ids (mem y);
     Some (ids1, mem(y := d))
   }"

fun run_actions ::
  "bool \<Rightarrow> (real \<Rightarrow> real) \<Rightarrow> thread_action list \<Rightarrow> thread_ids \<times> (addr \<Rightarrow> profile_data) \<Rightarrow>
     (thread_ids \<times> (addr \<Rightarrow> profile_data)) option" where
  "run_actions dbg rnd [] s = Some s"
| "run_actions dbg rnd (a # as) s = do { s1 \<leftarrow> act dbg rnd a s; run_actions dbg rnd as s1 }"

text \<open>
  What a worker does: it tags itself, and for every task it takes the name of the channel and runs the callback, which
  logs into the channels it pushes into.
\<close>

definition task_actions :: "nat \<Rightarrow> cptr \<times> (addr \<times> log_event) list \<Rightarrow> thread_action list" where
  "task_actions i task = Naming i (fst task) # map (\<lambda>(y, ev). Logging i y ev) (snd task)"

definition worker_actions :: "nat \<Rightarrow> (cptr \<times> (addr \<times> log_event) list) list \<Rightarrow> thread_action list" where
  "worker_actions i tasks = Tagging i # concat (map (task_actions i) tasks)"

text \<open>
  The order that the library keeps: a thread tags itself once and before it logs anything, only tagged threads take
  names, and only registered events are logged. \<open>T\<close> are the threads tagged so far, \<open>S\<close> those that got a
  tag by logging.
\<close>

fun disciplined :: "(addr \<Rightarrow> profile_data) \<Rightarrow> nat set \<Rightarrow> nat set \<Rightarrow> thread_action list \<Rightarrow> bool" where
  "disciplined mem T S [] = True"
| "disciplined mem T S (Tagging i # as) = (i \<notin> T \<union> S \<and> disciplined mem (insert i T) S as)"
| "disciplined mem T S (Naming i name # as) = (i \<in> T \<and> name \<noteq> nullptr \<and> disciplined mem T S as)"
| "disciplined mem T S (Logging i y ev # as) =
     (event_name ev \<in> fst ` set (aggregates (mem y)) \<and> disciplined mem T (if i \<in> T then S else insert i S) as)"

text \<open>The pushes into channel \<open>y\<close> by threads that have the name \<open>n\<close> at that time.\<close>

fun pushes_by :: "(nat \<Rightarrow> cptr) \<Rightarrow> thread_action list \<Rightarrow> addr \<Rightarrow> cptr \<Rightarrow> int" where
  "pushes_by names [] y n = 0"
| "pushes_by names (Tagging i # as) y n = pushes_by names as y n"
| "pushes_by names (Naming i name # as) y n = pushes_by (names(i := name)) as y n"
| "pushes_by names (Logging i z ev # as) y n =
     (if z = y \<and> event_name ev = EventPushed \<and> names i = n then 1 else 0) + pushes_by names as y n"

definition pushers :: "(nat \<Rightarrow> cptr) \<Rightarrow> thread_action list \<Rightarrow> addr \<Rightarrow> cptr set" where
  "pushers names as y = {n. pushes_by names as y n \<noteq> 0}"

lemma pushes_by_nonneg: "0 \<le> pushes_by names as y n"
  by (induction names as y n rule: pushes_by.induct) (simp_all add: fun_upd_def)

lemma pushers_simps [simp]:
  "pushers names [] y = {}" "pushers names (Tagging i # as) y = pushers names as y"
  "pushers names (Naming i name # as) y = pushers (names(i := name)) as y"
  "pushers names (Logging i z ev # as) y =
     (if z = y \<and> event_name ev = EventPushed then insert (names i) (pushers names as y) else pushers names as y)"
proof -
  show "pushers names (Logging i z ev # as) y =
     (if z = y \<and> event_name ev = EventPushed then insert (names i) (pushers names as y) else pushers names as y)"
    using pushes_by_nonneg [of names as y] by (auto simp: pushers_def add_nonneg_eq_0_iff)
qed (simp_all add: pushers_def)

lemma finite_pushers: "finite (pushers names as y)"
proof (induction as arbitrary: names)
  case (Cons x as)
  then show ?case by (cases x) simp_all
qed simp

subsection \<open>Room for the names\<close>

text \<open>A name finds a slot if, with the names that are there, there are not more names than slots.\<close>

definition tracked :: "sender list \<Rightarrow> cptr set" where
  "tracked es = sender_name ` set es - {nullptr}"

lemma card_tracked: "packed es \<Longrightarrow> \<forall>e\<in>set es. sender_name e \<noteq> nullptr \<Longrightarrow> card (tracked es) = length es"
proof (induction es)
  case (Cons e es)
  then have "tracked (e # es) = insert (sender_name e) (tracked es)" "sender_name e \<notin> tracked es" "finite (tracked es)"
    by (auto simp: tracked_def)
  with Cons show ?case by simp
qed (simp add: tracked_def)

lemma room_for_name:
  assumes p: "packed es" and N: "tracked es \<subseteq> N" "finite N" "card N \<le> length es" and n: "n \<in> N"
  shows "has_slot n es"
proof (rule ccontr)
  assume "\<not> has_slot n es"
  then have none: "\<forall>e\<in>set es. sender_name e \<noteq> n \<and> sender_name e \<noteq> nullptr" by (auto simp: has_slot_def)
  then have "n \<notin> tracked es" by (auto simp: tracked_def)
  with N n have "tracked es \<subset> N" by blast
  from psubset_card_mono [OF N(2) this] card_tracked [OF p] none N(3) show False by simp
qed

lemma tracked_track_name: "tracked (track_name n es) \<subseteq> insert n (tracked es)"
  using names_track_name [of n es] by (auto simp: tracked_def)

lemma sender_count_track_name:
  assumes "n \<noteq> nullptr" and "packed es" and "countable es" and "has_slot n es"
  shows "sender_count (track_name n es) m = sender_count es m + (if m = n then 1 else 0)"
  using track_name_self [OF assms] track_name_other [OF assms(1,2), of m] by auto

text \<open>No counter reaches its limit in the next \<open>n\<close> events.\<close>

definition counts_fit :: "nat \<Rightarrow> sender list \<Rightarrow> bool" where
  "counts_fit n es \<longleftrightarrow> (\<forall>e\<in>set es. sent_packets e + int n < 2 ^ 31)"

lemma counts_fit_simps [simp]:
  "counts_fit n []" "counts_fit n (e # es) \<longleftrightarrow> sent_packets e + int n < 2 ^ 31 \<and> counts_fit n es"
  by (simp_all add: counts_fit_def)

lemma counts_fit_less: "counts_fit m es \<Longrightarrow> n \<le> m \<Longrightarrow> counts_fit n es"
  by (fastforce simp: counts_fit_def)

lemma counts_fit_countable: "counts_fit (Suc n) es \<Longrightarrow> countable es"
  by (fastforce simp: counts_fit_def countable_def)

lemma counts_fit_track_name: "packed es \<Longrightarrow> counts_fit (Suc n) es \<Longrightarrow> counts_fit n (track_name name es)"
proof (induction es)
  case (Cons e es)
  have rest: "counts_fit n es" using Cons.prems(2) counts_fit_less [of "Suc n" es n] by simp
  show ?case
  proof (cases "sender_name e = nullptr")
    case True
    with Cons.prems rest show ?thesis by simp
  next
    case False
    with Cons rest show ?thesis by simp
  qed
qed simp

subsection \<open>One event\<close>

definition keeps_books :: "profile_data \<Rightarrow> bool" where
  "keeps_books d \<longleftrightarrow> profile_ok d \<and> packed (senders (sender_log d)) \<and> track_event (sender_log d) = EventPushed"

lemma GetCurrentThread_others:
  "GetCurrentThread i s = Some (t, s') \<Longrightarrow> j \<noteq> i \<Longrightarrow> current_thread_id s' j = current_thread_id s j"
  by (auto simp: GetCurrentThread_def thread_id_new_def Let_def split: if_splits)

lemma TagCurrentThread_others:
  "TagCurrentThread dbg i s = Some s' \<Longrightarrow>
     current_thread_name s' = current_thread_name s \<and> (j \<noteq> i \<longrightarrow> current_thread_id s' j = current_thread_id s j)"
  by (auto simp: TagCurrentThread_def check_def split: if_splits)

lemma Log_tracks:
  assumes d: "keeps_books d" and ev: "event_name ev \<in> fst ` set (aggregates d)" and ids: "ids_inv h a ids" "int a < 2 ^ 31"
    and name: "current_thread_name ids i \<noteq> nullptr" and count: "countable (senders (sender_log d))"
  shows "\<exists>ids' d' a'. ProfileData_Log dbg rnd i ev ids d = Some (ids', d') \<and> keeps_books d' \<and>
    fst ` set (aggregates d') = fst ` set (aggregates d) \<and> ids_inv h a' ids' \<and> a' \<le> a + 1 \<and>
    current_thread_name ids' = current_thread_name ids \<and> (\<forall>j. j \<noteq> i \<longrightarrow> current_thread_id ids' j = current_thread_id ids j) \<and>
    (\<not> IsCurrentThreadUntagged i ids \<longrightarrow> ids' = ids) \<and> length (senders (sender_log d')) = length (senders (sender_log d)) \<and>
    senders (sender_log d') =
      (if event_name ev = EventPushed then track_name (current_thread_name ids i) (senders (sender_log d)) else senders (sender_log d))"
proof -
  let ?d = "d\<lparr>aggregates := log_to rnd ev (aggregates d)\<rparr>"
  have keys: "fst ` set (log_to rnd ev (aggregates d)) = fst ` set (aggregates d)"
    using arg_cong [OF log_to_keys [of rnd ev "aggregates d"], of set] by (simp only: list.set_map)
  have len: "length (log_to rnd ev (aggregates d)) = length (aggregates d)" by (simp add: log_to_def)
  have te: "track_event (sender_log d) = EventPushed" using d by (simp add: keeps_books_def)
  show ?thesis
  proof (cases "event_name ev = EventPushed")
    case False
    then have "ProfileData_Log dbg rnd i ev ids d = Some (ids, ?d)" using ev te by (simp add: ProfileData_Log_def TrackSender_def)
    moreover have "keeps_books ?d" using d len by (simp add: keeps_books_def profile_ok_def)
    ultimately show ?thesis using ids(1) keys False by (intro exI [of _ ids] exI [of _ ?d] exI [of _ a]) simp
  next
    case True
    from GetCurrentThread_ok [OF ids, of i] obtain t ids' where
      g: "GetCurrentThread i ids = Some (t, ids')" "thread_name t = current_thread_name ids i"
        "current_thread_name ids' = current_thread_name ids"
        "if IsCurrentThreadUntagged i ids then ids_inv h (Suc a) ids' \<and> IsAutoTagged t else ids' = ids" by blast
    let ?s = "track_name (current_thread_name ids i) (senders (sender_log d))"
    let ?d' = "?d\<lparr>sender_log := (sender_log d)\<lparr>senders := ?s\<rparr>\<rparr>"
    have "ProfileData_Log dbg rnd i ev ids d = Some (ids', ?d')"
      using ev te True g(1,2) by (simp add: ProfileData_Log_def TrackSender_def GetThreadName_def)
    moreover have "keeps_books ?d'" using d len packed_track_name [OF name _ count] by (simp add: keeps_books_def profile_ok_def)
    moreover have "\<exists>a'. ids_inv h a' ids' \<and> a' \<le> a + 1"
      using g(4) ids(1) by (cases "IsCurrentThreadUntagged i ids") auto
    moreover have "\<forall>j. j \<noteq> i \<longrightarrow> current_thread_id ids' j = current_thread_id ids j" using GetCurrentThread_others [OF g(1)] by blast
    moreover have "\<not> IsCurrentThreadUntagged i ids \<longrightarrow> ids' = ids" using g(4) by simp
    ultimately show ?thesis using g(3) keys True by auto
  qed
qed

subsection \<open>All actions\<close>

definition ready :: "nat set \<Rightarrow> nat set \<Rightarrow> nat \<Rightarrow> nat \<Rightarrow> thread_ids \<Rightarrow> bool" where
  "ready T S h a ids \<longleftrightarrow> ids_inv h a ids \<and> (\<forall>i\<in>T. 0 < sint (current_thread_id ids i)) \<and>
     (\<forall>i. i \<notin> T \<union> S \<longrightarrow> IsCurrentThreadUntagged i ids) \<and> (\<forall>i. current_thread_name ids i \<noteq> nullptr)"

definition has_room :: "profile_data \<Rightarrow> cptr set \<Rightarrow> bool" where
  "has_room d N \<longleftrightarrow> finite (tracked (senders (sender_log d)) \<union> N) \<and>
     card (tracked (senders (sender_log d)) \<union> N) \<le> length (senders (sender_log d))"

lemma has_room_mono: "has_room d N \<Longrightarrow> tracked (senders (sender_log d')) \<union> M \<subseteq> tracked (senders (sender_log d)) \<union> N \<Longrightarrow>
    length (senders (sender_log d')) = length (senders (sender_log d)) \<Longrightarrow> has_room d' M"
  unfolding has_room_def by (metis card_mono finite_subset order_trans)

lemma tagged_positive: "0 < sint (current_thread_id ids i) \<Longrightarrow> \<not> IsCurrentThreadUntagged i ids"
  by (auto simp: IsCurrentThreadUntagged_def kUntaggedValue_def)

lemma disciplined_keys:
  "(\<And>y. fst ` set (aggregates (mem' y)) = fst ` set (aggregates (mem y))) \<Longrightarrow> disciplined mem' T S as = disciplined mem T S as"
  by (induction mem T S as rule: disciplined.induct) simp_all

text \<open>What one event does to the room and the counts of the channel it is logged for.\<close>

lemma track_room:
  assumes d: "keeps_books d" "keeps_books d'" and n: "n \<noteq> nullptr" and room: "has_room d (insert n N)"
    and count: "countable (senders (sender_log d))" and d': "senders (sender_log d') = track_name n (senders (sender_log d))"
  shows "has_room d' N"
    and "sender_count (senders (sender_log d')) m = sender_count (senders (sender_log d)) m + (if m = n then 1 else 0)"
proof -
  let ?es = "senders (sender_log d)"
  have p: "packed ?es" using d(1) by (simp add: keeps_books_def)
  have "tracked (senders (sender_log d')) \<union> N \<subseteq> tracked ?es \<union> insert n N" using tracked_track_name [of n ?es] d' by auto
  with has_room_mono [OF room this] d' show "has_room d' N" by simp
  have "has_slot n ?es"
    using room by (intro room_for_name [OF p, of "tracked ?es \<union> insert n N"]) (auto simp: has_room_def)
  with sender_count_track_name [OF n p count this, of m] d'
  show "sender_count (senders (sender_log d')) m = sender_count ?es m + (if m = n then 1 else 0)" by simp
qed

lemma run_actions_ok:
  assumes "disciplined mem T S as" and "ready T S h a ids" and "int h + int a + int (length as) < 2 ^ 31 - 1"
    and "\<forall>y. keeps_books (mem y)" and "\<forall>y. has_room (mem y) (pushers (current_thread_name ids) as y)"
    and "\<forall>y. counts_fit (length as) (senders (sender_log (mem y)))"
  shows "\<exists>ids' mem'. run_actions dbg rnd as (ids, mem) = Some (ids', mem') \<and> (\<forall>y. keeps_books (mem' y)) \<and>
    (\<forall>y n. n \<noteq> nullptr \<longrightarrow> sender_count (senders (sender_log (mem' y))) n =
       sender_count (senders (sender_log (mem y))) n + pushes_by (current_thread_name ids) as y n)"
  using assms
proof (induction as arbitrary: T S h a ids mem)
  case Nil
  then show ?case by simp
next
  case (Cons x as)
  have fit: "\<forall>y. counts_fit (length as) (senders (sender_log (mem y)))"
    using counts_fit_less [OF spec [OF Cons.prems(6)], of "length as"] by simp
  show ?case
  proof (cases x)
    case (Tagging i)
    have i: "i \<notin> T \<union> S" "disciplined mem (insert i T) S as" using Cons.prems(1) Tagging by simp_all
    have r: "ids_inv h a ids" "IsCurrentThreadUntagged i ids" "int h < 2 ^ 31 - 1"
      using Cons.prems(2,3) i(1) by (simp_all add: ready_def)
    from TagCurrentThread_ok [OF r, of dbg] obtain ids1 where
      t: "TagCurrentThread dbg i ids = Some ids1" "ids_inv (Suc h) a ids1" "sint (current_thread_id ids1 i) = int h + 1" by blast
    note o = TagCurrentThread_others [OF t(1)]
    have same: "current_thread_id ids1 j = current_thread_id ids j" if "j \<noteq> i" for j using o [of j] that by simp
    have "0 < sint (current_thread_id ids1 j)" if "j \<in> insert i T" for j
      using that t(3) same [of j] Cons.prems(2) by (cases "j = i") (simp_all add: ready_def)
    moreover have "IsCurrentThreadUntagged j ids1" if "j \<notin> insert i T \<union> S" for j
      using that same [of j] Cons.prems(2) by (simp add: ready_def IsCurrentThreadUntagged_def)
    ultimately have "ready (insert i T) S (Suc h) a ids1"
      using Cons.prems(2) t(2) o by (simp add: ready_def)
    from Cons.IH [OF i(2) this] Cons.prems(3-5) fit o t(1) Tagging show ?thesis by auto
  next
    case (Naming i name)
    have i: "i \<in> T" "name \<noteq> nullptr" "disciplined mem T S as" using Cons.prems(1) Naming by simp_all
    let ?ids = "ids\<lparr>current_thread_name := (current_thread_name ids)(i := name)\<rparr>"
    have n: "SetNameOfCurrentThread i name ids = Some ?ids"
      using Cons.prems(2) i(1) by (simp add: SetNameOfCurrentThread_def ready_def kUntaggedValue_def)
    have "ready T S h a ?ids"
      using Cons.prems(2) i(2) by (simp add: ready_def ids_inv_def IsCurrentThreadUntagged_def)
    from Cons.IH [OF i(3) this] Cons.prems(3-5) fit n Naming show ?thesis by (simp add: fun_upd_def)
  next
    case (Logging i y ev)
    let ?S = "if i \<in> T then S else insert i S" and ?n = "current_thread_name ids i"
    let ?push = "event_name ev = EventPushed"
    have i: "event_name ev \<in> fst ` set (aggregates (mem y))" "disciplined mem T ?S as" using Cons.prems(1) Logging by simp_all
    have r: "ids_inv h a ids" "int a < 2 ^ 31" "?n \<noteq> nullptr" using Cons.prems(2,3) by (simp_all add: ready_def)
    have d: "keeps_books (mem y)" using Cons.prems(4) by blast
    have count: "counts_fit (Suc (length as)) (senders (sender_log (mem y)))" "countable (senders (sender_log (mem y)))"
      using Cons.prems(6) counts_fit_countable by auto
    from Log_tracks [OF d i(1) r count(2), of dbg rnd] obtain ids' d' a' where
      l: "ProfileData_Log dbg rnd i ev ids (mem y) = Some (ids', d')" "keeps_books d'"
        "fst ` set (aggregates d') = fst ` set (aggregates (mem y))" "ids_inv h a' ids'" "a' \<le> a + 1"
        "current_thread_name ids' = current_thread_name ids" "\<forall>j. j \<noteq> i \<longrightarrow> current_thread_id ids' j = current_thread_id ids j"
        "\<not> IsCurrentThreadUntagged i ids \<longrightarrow> ids' = ids"
        "senders (sender_log d') = (if ?push then track_name ?n (senders (sender_log (mem y))) else senders (sender_log (mem y)))"
      by (elim exE conjE) (rule that)
    have "ready T ?S h a' ids'"
    proof (cases "i \<in> T")
      case True
      then have "ids' = ids" using Cons.prems(2) l(8) tagged_positive by (simp add: ready_def)
      with Cons.prems(2) l(4) True show ?thesis by (simp add: ready_def)
    next
      case False
      have "current_thread_id ids' j = current_thread_id ids j" if "j \<in> T \<or> j \<notin> T \<union> insert i S" for j
        using l(7) that False by auto
      with Cons.prems(2) l(4,6) False show ?thesis by (simp add: ready_def IsCurrentThreadUntagged_def)
    qed
    moreover have "disciplined (mem(y := d')) T ?S as" using i(2) disciplined_keys [of "mem(y := d')" mem T ?S as] l(3) by simp
    moreover have "int h + int a' + int (length as) < 2 ^ 31 - 1" using Cons.prems(3) l(5) by simp
    moreover have "\<forall>z. keeps_books ((mem(y := d')) z)" using Cons.prems(4) l(2) by simp
    moreover have "counts_fit (length as) (senders (sender_log ((mem(y := d')) z)))" for z
      using fit counts_fit_track_name [OF _ count(1), of ?n] d l(9) by (simp add: keeps_books_def)
    moreover have room: "has_room (mem z) (if z = y \<and> ?push then insert ?n (pushers (current_thread_name ids) as z)
        else pushers (current_thread_name ids) as z)" for z
      using spec [OF Cons.prems(5), of z] Logging by (cases "z = y"; cases ?push) simp_all
    have "has_room ((mem(y := d')) z) (pushers (current_thread_name ids') as z)" for z
      using room [of z] track_room(1) [OF d l(2) r(3) _ count(2)] l(6,9) by (cases "z = y"; cases ?push) (auto simp: has_room_def)
    ultimately obtain ids2 mem2 where
      s: "run_actions dbg rnd as (ids', mem(y := d')) = Some (ids2, mem2)" "\<forall>z. keeps_books (mem2 z)"
        "\<forall>z n. n \<noteq> nullptr \<longrightarrow> sender_count (senders (sender_log (mem2 z))) n =
          sender_count (senders (sender_log ((mem(y := d')) z))) n + pushes_by (current_thread_name ids') as z n"
      using Cons.IH [of "mem(y := d')" T ?S h a' ids'] by blast
    have "sender_count (senders (sender_log ((mem(y := d')) z))) n =
        sender_count (senders (sender_log (mem z))) n + (if z = y \<and> ?push \<and> ?n = n then 1 else 0)" for z n
      using track_room(2) [OF d l(2) r(3) _ count(2), of "pushers (current_thread_name ids) as y" n] room [of y] l(9)
      by (cases "z = y"; cases ?push) auto
    with s l(1,6) Logging show ?thesis by (simp add: add.assoc)
  qed
qed

subsection \<open>Thread by thread\<close>

text \<open>Names and tags belong to their thread, so only the order within every thread matters.\<close>

fun thread_of :: "thread_action \<Rightarrow> nat" where
  "thread_of (Tagging i) = i"
| "thread_of (Naming i name) = i"
| "thread_of (Logging i y ev) = i"

abbreviation own :: "nat \<Rightarrow> thread_action list \<Rightarrow> thread_action list" where
  "own i as \<equiv> filter (\<lambda>a. thread_of a = i) as"

lemma disciplined_other:
  assumes "\<forall>a\<in>set as. thread_of a \<noteq> j"
  shows "disciplined mem (insert j T) S as = disciplined mem T S as" "disciplined mem T (insert j S) as = disciplined mem T S as"
proof -
  have "disciplined mem (insert j T) S as = disciplined mem T S as \<and> disciplined mem T (insert j S) as = disciplined mem T S as"
    using assms by (induction mem T S as rule: disciplined.induct) (auto simp: insert_commute)
  then show "disciplined mem (insert j T) S as = disciplined mem T S as" "disciplined mem T (insert j S) as = disciplined mem T S as"
    by simp_all
qed

lemma disciplined_local: "(\<forall>i. disciplined mem T S (own i as)) \<Longrightarrow> disciplined mem T S as"
proof (induction as arbitrary: T S)
  case Nil
  then show ?case by simp
next
  case (Cons x as)
  have other: "disciplined mem T S (own i as)" if "i \<noteq> thread_of x" for i using spec [OF Cons.prems, of i] that by simp
  have self: "disciplined mem T S (x # own (thread_of x) as)" using spec [OF Cons.prems, of "thread_of x"] by simp
  have foreign: "\<forall>a\<in>set (own i as). thread_of a \<noteq> j" if "i \<noteq> j" for i j using that by auto
  show ?case
  proof (cases x)
    case (Tagging j)
    have "disciplined mem (insert j T) S (own i as)" for i
      using self other [of i] disciplined_other(1) [OF foreign [of i j]] Tagging by (cases "i = j") simp_all
    with Cons.IH self Tagging show ?thesis by simp
  next
    case (Naming j name)
    have "disciplined mem T S (own i as)" for i using self other [of i] Naming by (cases "i = j") simp_all
    with Cons.IH self Naming show ?thesis by simp
  next
    case (Logging j y ev)
    have "disciplined mem T (if j \<in> T then S else insert j S) (own i as)" for i
      using self other [of i] disciplined_other(2) [OF foreign [of i j]] Logging by (cases "i = j"; cases "j \<in> T") simp_all
    with Cons.IH self Logging show ?thesis by simp
  qed
qed

lemma pushes_by_other: "\<forall>a\<in>set as. thread_of a \<noteq> j \<Longrightarrow> pushes_by (names(j := m)) as y n = pushes_by names as y n"
proof (induction as arbitrary: names)
  case (Cons x as)
  have as: "\<forall>a\<in>set as. thread_of a \<noteq> j" "thread_of x \<noteq> j" using Cons.prems by simp_all
  show ?case
  proof (cases x)
    case (Tagging i)
    with Cons.IH [OF as(1)] show ?thesis by simp
  next
    case (Naming i m')
    then have "(names(j := m))(i := m') = (names(i := m'))(j := m)" using as(2) by (auto simp: fun_upd_twist)
    with Cons.IH [OF as(1), of "names(i := m')"] Naming show ?thesis by (simp only: pushes_by.simps)
  next
    case (Logging i z ev)
    then have "(names(j := m)) i = names i" using as(2) by simp
    with Cons.IH [OF as(1), of names] Logging show ?thesis by (simp only: pushes_by.simps)
  qed
qed simp

lemma pushes_by_local:
  assumes "finite I" and "thread_of ` set as \<subseteq> I"
  shows "pushes_by names as y n = (\<Sum>i\<in>I. pushes_by names (own i as) y n)"
  using assms(2)
proof (induction as arbitrary: names)
  case Nil
  show ?case by simp
next
  case (Cons x as)
  have j: "thread_of x \<in> I" "thread_of ` set as \<subseteq> I" using Cons.prems by auto
  show ?case
  proof (cases x)
    case (Tagging j)
    have "pushes_by names (own i (x # as)) y n = pushes_by names (own i as) y n" for i using Tagging by simp
    with Cons.IH [OF j(2)] Tagging show ?thesis by simp
  next
    case (Naming j m)
    have "pushes_by names (own i (x # as)) y n = pushes_by (names(j := m)) (own i as) y n" for i
      using Naming pushes_by_other [of "own i as" j names m] by (cases "i = j") auto
    with Cons.IH [OF j(2), of "names(j := m)"] Naming show ?thesis by (simp only: pushes_by.simps)
  next
    case (Logging j z ev)
    let ?one = "if z = y \<and> event_name ev = EventPushed \<and> names j = n then 1 else 0 :: int"
    have "pushes_by names (own i (x # as)) y n = (if i = j then ?one else 0) + pushes_by names (own i as) y n" for i
      using Logging by simp
    then have "(\<Sum>i\<in>I. pushes_by names (own i (x # as)) y n) = ?one + (\<Sum>i\<in>I. pushes_by names (own i as) y n)"
      using j(1) assms(1) Logging by (simp add: sum.distrib sum.delta)
    with Cons.IH [OF j(2), of names] Logging show ?thesis by simp
  qed
qed

subsection \<open>Workers\<close>

definition pushes_in :: "(addr \<times> log_event) list \<Rightarrow> addr \<Rightarrow> int" where
  "pushes_in logs y = int (length (filter (\<lambda>(z, ev). z = y \<and> event_name ev = EventPushed) logs))"

text \<open>The pushes into \<open>y\<close> by the callbacks of the channel with the name \<open>n\<close>.\<close>

fun pushes_of :: "(cptr \<times> (addr \<times> log_event) list) list \<Rightarrow> addr \<Rightarrow> cptr \<Rightarrow> int" where
  "pushes_of [] y n = 0"
| "pushes_of ((m, logs) # tasks) y n = (if m = n then pushes_in logs y else 0) + pushes_of tasks y n"

definition loggable :: "(addr \<Rightarrow> profile_data) \<Rightarrow> (cptr \<times> (addr \<times> log_event) list) list \<Rightarrow> bool" where
  "loggable mem tasks \<longleftrightarrow> (\<forall>(m, logs)\<in>set tasks. m \<noteq> nullptr \<and>
     (\<forall>(z, ev)\<in>set logs. event_name ev \<in> fst ` set (aggregates (mem z))))"

text \<open>The actions of the workers \<open>I\<close>, each with its own list of tasks, in any order.\<close>

definition interleaved :: "nat set \<Rightarrow> (nat \<Rightarrow> (cptr \<times> (addr \<times> log_event) list) list) \<Rightarrow> thread_action list \<Rightarrow> bool" where
  "interleaved I tasks as \<longleftrightarrow> finite I \<and> (\<forall>i. own i as = (if i \<in> I then worker_actions i (tasks i) else []))"

lemma disciplined_logs:
  "i \<in> T \<Longrightarrow> \<forall>(z, ev)\<in>set logs. event_name ev \<in> fst ` set (aggregates (mem z)) \<Longrightarrow>
     disciplined mem T S (map (\<lambda>(y, ev). Logging i y ev) logs @ as) = disciplined mem T S as"
  by (induction logs) (simp_all add: split_beta)

lemma disciplined_tasks: "i \<in> T \<Longrightarrow> loggable mem tasks \<Longrightarrow> disciplined mem T S (concat (map (task_actions i) tasks))"
  by (induction tasks) (auto simp: loggable_def task_actions_def disciplined_logs)

lemma disciplined_worker: "loggable mem tasks \<Longrightarrow> disciplined mem {} {} (worker_actions i tasks)"
  by (simp add: worker_actions_def disciplined_tasks)

lemma pushes_by_logs:
  "pushes_by names (map (\<lambda>(y, ev). Logging i y ev) logs @ as) y n =
     (if names i = n then pushes_in logs y else 0) + pushes_by names as y n"
  by (induction logs) (auto simp: pushes_in_def)

lemma pushes_by_tasks: "pushes_by names (concat (map (task_actions i) tasks)) y n = pushes_of tasks y n"
  by (induction tasks arbitrary: names) (auto simp: task_actions_def pushes_by_logs)

lemma interleaved_threads: "interleaved I tasks as \<Longrightarrow> thread_of ` set as \<subseteq> I"
proof
  fix i assume s: "interleaved I tasks as" and "i \<in> thread_of ` set as"
  then obtain a where "a \<in> set as" "thread_of a = i" by blast
  then have "own i as \<noteq> []" by (auto simp: filter_empty_conv)
  with s show "i \<in> I" by (auto simp: interleaved_def split: if_splits)
qed

lemma interleaved_pushes:
  assumes "interleaved I tasks as"
  shows "pushes_by names as y n = (\<Sum>i\<in>I. pushes_of (tasks i) y n)"
proof -
  have "finite I" using assms by (simp add: interleaved_def)
  from pushes_by_local [OF this interleaved_threads [OF assms], of names y n]
  have "pushes_by names as y n = (\<Sum>i\<in>I. pushes_by names (own i as) y n)" .
  also have "\<dots> = (\<Sum>i\<in>I. pushes_of (tasks i) y n)"
    using assms by (intro sum.cong) (simp_all add: interleaved_def worker_actions_def pushes_by_tasks)
  finally show ?thesis .
qed

subsection \<open>The property\<close>

text \<open>A \<open>ProfileData\<close> that has just been made or sent.\<close>

definition fresh_books :: "profile_data \<Rightarrow> bool" where
  "fresh_books d \<longleftrightarrow> profile_ok d \<and> track_event (sender_log d) = EventPushed \<and>
     (\<forall>s\<in>set (senders (sender_log d)). sender_name s = nullptr \<and> sent_packets s = 0)"

lemma fresh_facts:
  assumes "fresh_books d"
  shows "keeps_books d" "tracked (senders (sender_log d)) = {}" "sender_count (senders (sender_log d)) n = 0"
    "length (senders (sender_log d)) = kMaxSenders"
proof -
  have e: "\<forall>s\<in>set (senders (sender_log d)). sender_name s = nullptr \<and> sent_packets s = 0" using assms by (simp add: fresh_books_def)
  from packed_empty [OF e] assms show "keeps_books d" by (simp add: fresh_books_def keeps_books_def)
  show "tracked (senders (sender_log d)) = {}" using e by (auto simp: tracked_def)
  show "sender_count (senders (sender_log d)) n = 0" using e by (cases "senders (sender_log d)") simp_all
  show "length (senders (sender_log d)) = kMaxSenders" using assms by (simp add: fresh_books_def profile_ok_def)
qed

lemma sender_count_null: "packed es \<Longrightarrow> sender_count es nullptr = 0"
  by (induction es) (auto split: if_splits)

lemma top_of_books:
  assumes "keeps_books d"
  shows "\<exists>best l'. GetTopSender (sender_log d) = Some (best, l') \<and>
    (if best = nullptr then \<forall>n. sender_count (senders (sender_log d)) n = 0
     else \<forall>n. sender_count (senders (sender_log d)) n \<le> sender_count (senders (sender_log d)) best)"
proof -
  have "packed (senders (sender_log d))" "senders (sender_log d) \<noteq> []"
    using assms by (auto simp: keeps_books_def profile_ok_def kMaxSenders_def)
  from GetTopSender_top [OF this] show ?thesis by auto
qed

lemma pushes_in_nonneg: "0 \<le> pushes_in logs y"
  by (simp add: pushes_in_def)

lemma pushes_of_null: "loggable mem tasks \<Longrightarrow> pushes_of tasks y nullptr = 0"
  by (induction tasks y "nullptr" rule: pushes_of.induct) (auto simp: loggable_def)

text \<open>
  C24: Pushes are attributed to the channel whose callback makes them. Any number of workers tag themselves, take the
  name of a channel before every task and run its callback, which logs into the channels it pushes into; the
  threads do so in any order. If no more than four channels push into a channel, then nothing fails, and the channel's
  ProfileData counts for every name exactly the pushes that callbacks of the channel with this name have made, so that the
  reported sender is a channel that no other one beats, and there is none exactly if nothing was pushed.
\<close>

theorem workers_attribute_pushes:
  assumes "interleaved I tasks as" and "\<forall>i\<in>I. loggable mem (tasks i)" and "\<forall>y. fresh_books (mem y)"
    and "\<forall>y. card {n. (\<Sum>i\<in>I. pushes_of (tasks i) y n) \<noteq> 0} \<le> kMaxSenders" and "na \<noteq> nullptr"
    and "int (length as) < 2 ^ 31 - 1"
  shows "\<exists>ids' mem'. run_actions dbg rnd as (thread_ids_init na, mem) = Some (ids', mem') \<and>
    (\<forall>y n. sender_count (senders (sender_log (mem' y))) n = (\<Sum>i\<in>I. pushes_of (tasks i) y n)) \<and>
    (\<forall>y. \<exists>best l'. GetTopSender (sender_log (mem' y)) = Some (best, l') \<and>
       (if best = nullptr then \<forall>n. (\<Sum>i\<in>I. pushes_of (tasks i) y n) = 0
        else \<forall>n. (\<Sum>i\<in>I. pushes_of (tasks i) y n) \<le> (\<Sum>i\<in>I. pushes_of (tasks i) y best)))"
proof -
  let ?names = "current_thread_name (thread_ids_init na)"
  note push = interleaved_pushes [OF assms(1)]
  have "disciplined mem {} {} (own i as)" for i
    using assms(1,2) disciplined_worker [of mem "tasks i" i] by (simp add: interleaved_def)
  then have d: "disciplined mem {} {} as" using disciplined_local by blast
  have r: "ready {} {} 0 0 (thread_ids_init na)"
    using ids_inv_init [of na] assms(5) by (simp add: ready_def IsCurrentThreadUntagged_def thread_ids_init_def)
  have room: "has_room (mem y) (pushers ?names as y)" for y
    using fresh_facts(2,4) assms(3,4) finite_pushers [of ?names as y] by (simp add: has_room_def pushers_def push)
  have books: "\<forall>y. keeps_books (mem y)" using fresh_facts(1) assms(3) by blast
  have len: "int 0 + int 0 + int (length as) < 2 ^ 31 - 1" using assms(6) by simp
  have fit: "\<forall>y. counts_fit (length as) (senders (sender_log (mem y)))"
    using assms(3,6) by (simp add: fresh_books_def counts_fit_def)
  from run_actions_ok [OF d r len books _ fit] room obtain ids' mem' where
    m: "run_actions dbg rnd as (thread_ids_init na, mem) = Some (ids', mem')" "\<forall>y. keeps_books (mem' y)"
      "\<forall>y n. n \<noteq> nullptr \<longrightarrow> sender_count (senders (sender_log (mem' y))) n =
         sender_count (senders (sender_log (mem y))) n + pushes_by ?names as y n" by blast
  have count: "sender_count (senders (sender_log (mem' y))) n = (\<Sum>i\<in>I. pushes_of (tasks i) y n)" for y n
  proof (cases "n = nullptr")
    case True
    have "packed (senders (sender_log (mem' y)))" using m(2) by (simp add: keeps_books_def)
    moreover have "(\<Sum>i\<in>I. pushes_of (tasks i) y nullptr) = 0"
      using pushes_of_null assms(2) by (intro sum.neutral) blast
    ultimately show ?thesis using True sender_count_null by simp
  next
    case False
    with m(3) fresh_facts(3) assms(3) show ?thesis by (simp add: push)
  qed
  have "\<exists>best l'. GetTopSender (sender_log (mem' y)) = Some (best, l') \<and>
      (if best = nullptr then \<forall>n. (\<Sum>i\<in>I. pushes_of (tasks i) y n) = 0
       else \<forall>n. (\<Sum>i\<in>I. pushes_of (tasks i) y n) \<le> (\<Sum>i\<in>I. pushes_of (tasks i) y best))" for y
    using top_of_books [OF spec [OF m(2), of y]] unfolding count .
  with m(1) count show ?thesis by blast
qed

definition ex_books :: "addr \<Rightarrow> profile_data" where
  "ex_books y = \<lparr>data_group_name = y, aggregates = [(EventPushed, aggregate_clear 0 (aggregate_new 0))],
     sender_log = sender_logger_new EventPushed, serialize_next = 1\<rparr>"

definition ex_tasks :: "nat \<Rightarrow> (cptr \<times> (addr \<times> log_event) list) list" where
  "ex_tasks i = (if i = 1 then [(6, [(3, log_event EventPushed 1)])]
     else [(6, [(3, log_event EventPushed 1)]), (7, [(3, log_event EventPushed 2)])])"

definition ex_actions :: "thread_action list" where
  "ex_actions = [Tagging 1, Tagging 2, Naming 1 6, Naming 2 6, Logging 2 3 (log_event EventPushed 1),
     Logging 1 3 (log_event EventPushed 1), Naming 2 7, Logging 2 3 (log_event EventPushed 2)]"

lemma ex_actions_ok:
  "interleaved {1, 2} ex_tasks ex_actions" "\<forall>i\<in>{1, 2}. loggable ex_books (ex_tasks i)" "fresh_books (ex_books y)"
  by (simp_all add: interleaved_def ex_actions_def ex_tasks_def worker_actions_def task_actions_def loggable_def ex_books_def
      nullptr_def log_event_def fresh_books_def profile_ok_def sender_logger_new_def ClearTopSenders_def no_sender_def kMaxSenders_def)

lemma ex_pushes:
  "(\<Sum>i\<in>{1, 2}. pushes_of (ex_tasks i) y n) = (if y = 3 then (if n = 6 then 2 else if n = 7 then 1 else 0) else 0)"
  by (simp add: ex_tasks_def pushes_in_def log_event_def)

theorem workers_attribute_pushes_witness:
  "\<exists>ids' mem' l'. run_actions True id ex_actions (thread_ids_init 9, ex_books) = Some (ids', mem') \<and>
     sender_count (senders (sender_log (mem' 3))) 6 = 2 \<and> sender_count (senders (sender_log (mem' 3))) 7 = 1 \<and>
     GetTopSender (sender_log (mem' 3)) = Some (6, l')"
proof -
  have "card {n. (\<Sum>i\<in>{1, 2}. pushes_of (ex_tasks i) y n) \<noteq> 0} \<le> kMaxSenders" for y
  proof -
    have "{n. (\<Sum>i\<in>{1, 2}. pushes_of (ex_tasks i) y n) \<noteq> 0} \<subseteq> {6, 7}"
      unfolding ex_pushes by (auto split: if_splits)
    from card_mono [OF _ this] show ?thesis by (simp add: kMaxSenders_def)
  qed
  with workers_attribute_pushes [OF ex_actions_ok(1,2), of 9 True id] ex_actions_ok(3) obtain ids' mem' where
    r: "run_actions True id ex_actions (thread_ids_init 9, ex_books) = Some (ids', mem')"
      "\<forall>y n. sender_count (senders (sender_log (mem' y))) n = (\<Sum>i\<in>{1, 2}. pushes_of (ex_tasks i) y n)"
      "\<forall>y. \<exists>best l'. GetTopSender (sender_log (mem' y)) = Some (best, l') \<and>
       (if best = nullptr then \<forall>n. (\<Sum>i\<in>{1, 2}. pushes_of (ex_tasks i) y n) = 0
        else \<forall>n. (\<Sum>i\<in>{1, 2}. pushes_of (ex_tasks i) y n) \<le> (\<Sum>i\<in>{1, 2}. pushes_of (ex_tasks i) y best))"
    by (auto simp: nullptr_def ex_actions_def)
  let ?count = "\<lambda>n::nat. if n = 6 then 2 else if n = 7 then 1 else (0::int)"
  from spec [OF r(3) [unfolded ex_pushes], of 3] obtain best l' where
    b: "GetTopSender (sender_log (mem' 3)) = Some (best, l')"
      "if best = nullptr then \<forall>n. ?count n = 0 else \<forall>n. ?count n \<le> ?count best"
    by (elim exE conjE) (simp only: if_True refl)
  have "best = 6" using b(2) by (auto split: if_splits dest: spec [of _ "6::nat"])
  with r(1) b(1) r(2) [unfolded ex_pushes] show ?thesis by auto
qed

end
