(* ===== verification/Packet_Decoder.thy ===== *)
theory Packet_Decoder
  imports Byte_Order
begin

text \<open>
  Model of the log analyzer's reader, \<^verbatim>\<open>log_analyzer/src/packet_decoder.py\<close> with the classes
  \<^verbatim>\<open>Packet\<close> and \<^verbatim>\<open>Event\<close>: the Python program at the other end of the UDP connection of a
  \<^verbatim>\<open>Profiler\<close> takes a datagram apart.

  A Python string is the list of its code points. A float is its bit pattern, as for the C++ side. Nothing catches the
  exceptions that the decoder raises, be it \<^verbatim>\<open>ValueError\<close> for a wrong start, \<^verbatim>\<open>IndexError\<close> at the end
  of the datagram or \<^verbatim>\<open>UnicodeDecodeError\<close>; each is \<open>None\<close>.
\<close>

subsection \<open>Decoding text\<close>

type_synonym py_string = "nat list"

definition ascii :: "string \<Rightarrow> py_string" where
  "ascii s = map of_char s"

text \<open>\<^verbatim>\<open>bytes.decode("utf-8")\<close>, which is strict: no overlong forms, no surrogates, nothing above U+10FFFF.\<close>

definition between :: "byte \<Rightarrow> byte \<Rightarrow> byte \<Rightarrow> bool" where
  "between lo hi b \<longleftrightarrow> lo \<le> b \<and> b \<le> hi"

definition lead_3 :: "byte \<Rightarrow> byte \<Rightarrow> bool" where
  "lead_3 b c \<longleftrightarrow> between 0xE0 0xEF b \<and>
     (if b = 0xE0 then between 0xA0 0xBF c else if b = 0xED then between 0x80 0x9F c else between 0x80 0xBF c)"

definition lead_4 :: "byte \<Rightarrow> byte \<Rightarrow> bool" where
  "lead_4 b c \<longleftrightarrow> between 0xF0 0xF4 b \<and>
     (if b = 0xF0 then between 0x90 0xBF c else if b = 0xF4 then between 0x80 0x8F c else between 0x80 0xBF c)"

fun utf8_decode :: "byte list \<Rightarrow> py_string option" where
  "utf8_decode [] = Some []"
| "utf8_decode (b # bs) =
     (if b < 0x80 then map_option (Cons (unat b)) (utf8_decode bs)
      else case bs of
        [] \<Rightarrow> None
      | c # cs \<Rightarrow>
          if between 0xC2 0xDF b \<and> between 0x80 0xBF c
          then map_option (Cons ((unat b - 0xC0) * 64 + (unat c - 0x80))) (utf8_decode cs)
          else (case cs of
            [] \<Rightarrow> None
          | d # ds \<Rightarrow>
              if lead_3 b c \<and> between 0x80 0xBF d
              then map_option (Cons ((unat b - 0xE0) * 4096 + (unat c - 0x80) * 64 + (unat d - 0x80))) (utf8_decode ds)
              else (case ds of
                [] \<Rightarrow> None
              | e # es \<Rightarrow>
                  if lead_4 b c \<and> between 0x80 0xBF d \<and> between 0x80 0xBF e
                  then map_option (Cons ((unat b - 0xF0) * 262144 + (unat c - 0x80) * 4096 + (unat d - 0x80) * 64 + (unat e - 0x80)))
                    (utf8_decode es)
                  else None)))"

subsection \<open>What a datagram is decoded into\<close>

record decoded_event =
  raw_type :: py_string
  event_log_count :: int
  event_passed_time :: int
  event_min :: "64 word"
  event_max :: "64 word"
  event_avg :: "64 word"
  event_packet_id :: "nat option"

record decoded_packet =
  packet_receiver :: py_string
  raw_sender :: py_string
  packet_events :: "decoded_event list"
  packet_number :: "nat option"

definition Event_new :: "py_string \<Rightarrow> int \<Rightarrow> int \<Rightarrow> 64 word \<Rightarrow> 64 word \<Rightarrow> 64 word \<Rightarrow> decoded_event" where
  "Event_new ty n t lo hi avg =
     \<lparr>raw_type = ty, event_log_count = n, event_passed_time = t, event_min = lo, event_max = hi, event_avg = avg, event_packet_id = None\<rparr>"

text \<open>The four characters of the section's mark are in front of the name.\<close>

definition event_get_type :: "decoded_event \<Rightarrow> py_string" where
  "event_get_type e = drop 4 (raw_type e)"

definition packet_get_sender :: "decoded_packet \<Rightarrow> py_string" where
  "packet_get_sender p = drop 4 (raw_sender p)"

fun find_count :: "py_string \<Rightarrow> decoded_event list \<Rightarrow> int" where
  "find_count ty [] = 0"
| "find_count ty (e # es) = (if event_get_type e = ty then event_log_count e else find_count ty es)"

definition get_event_count :: "py_string \<Rightarrow> decoded_packet \<Rightarrow> int" where
  "get_event_count ty p = find_count ty (packet_events p)"

definition packet_set_id :: "nat \<Rightarrow> decoded_packet \<Rightarrow> decoded_packet" where
  "packet_set_id i p = p\<lparr>packet_number := Some i\<rparr>"

definition set_id_for_events :: "decoded_packet \<Rightarrow> decoded_packet" where
  "set_id_for_events p = p\<lparr>packet_events := map (\<lambda>e. e\<lparr>event_packet_id := packet_number p\<rparr>) (packet_events p)\<rparr>"

subsection \<open>The decoder\<close>

definition check_for_correct_packet :: "byte list \<Rightarrow> bool option" where
  "check_for_correct_packet beginning = map_option (\<lambda>actual. actual = ascii ''DGRP'') (utf8_decode beginning)"

function get_keyword_bytes :: "byte list \<Rightarrow> nat \<Rightarrow> byte list \<Rightarrow> (byte list \<times> nat) option" where
  "get_keyword_bytes packet pos keyword =
     (if pos < length packet
      then if packet ! pos \<noteq> 0 then get_keyword_bytes packet (pos + 1) (keyword @ [packet ! pos])
        else Some (keyword, pos + 1)
      else None)"
  by pat_completeness auto
termination by (relation "measure (\<lambda>(packet, pos, _). length packet - pos)") auto

declare get_keyword_bytes.simps [simp del]

definition get_keyword :: "byte list \<Rightarrow> nat \<Rightarrow> (py_string \<times> nat) option" where
  "get_keyword packet pos = do {
     (keyword, pos1) \<leftarrow> get_keyword_bytes packet pos [];
     s \<leftarrow> utf8_decode keyword;
     Some (s, pos1)
   }"

text \<open>The bytes from a position on, one by one; reading past the end raises.\<close>

definition read_bytes :: "byte list \<Rightarrow> nat \<Rightarrow> nat \<Rightarrow> byte list option" where
  "read_bytes packet pos n = (if pos + n \<le> length packet then Some (take n (drop pos packet)) else None)"

text \<open>\<^verbatim>\<open>int.from_bytes(ret, byteorder="big")\<close>, without a sign.\<close>

definition from_bytes_big :: "byte list \<Rightarrow> int" where
  "from_bytes_big bs = fold (\<lambda>b n. 256 * n + uint b) bs 0"

definition get_int_val :: "byte list \<Rightarrow> nat \<Rightarrow> (int \<times> nat) option" where
  "get_int_val packet pos = do { ret \<leftarrow> read_bytes packet pos 4; Some (from_bytes_big ret, pos + 4) }"

text \<open>\<^verbatim>\<open>struct.unpack('d', ret)\<close> takes the byte order of the machine, \<open>big\<close>.\<close>

definition get_float_val :: "bool \<Rightarrow> byte list \<Rightarrow> nat \<Rightarrow> (64 word \<times> nat) option" where
  "get_float_val big packet pos = do {
     ret \<leftarrow> read_bytes packet pos 8;
     let ret' = (if \<not> big then rev ret else ret);
     Some (load big ret', pos + 8)
   }"

definition get_event :: "bool \<Rightarrow> byte list \<Rightarrow> nat \<Rightarrow> (decoded_event \<times> nat) option" where
  "get_event big packet pos = do {
     (event_type, pos1) \<leftarrow> get_keyword packet pos;
     (log_count, pos2) \<leftarrow> get_int_val packet pos1;
     (time_passed, pos3) \<leftarrow> get_int_val packet pos2;
     (min_val, pos4) \<leftarrow> get_float_val big packet pos3;
     (max_val, pos5) \<leftarrow> get_float_val big packet pos4;
     (avg_val, pos6) \<leftarrow> get_float_val big packet pos5;
     Some (Event_new event_type log_count time_passed min_val max_val avg_val, pos6)
   }"

lemma get_keyword_bytes_advances: "get_keyword_bytes packet pos kw = Some (kw', pos') \<Longrightarrow> pos < pos' \<and> pos' \<le> length packet"
proof (induction packet pos kw rule: get_keyword_bytes.induct)
  case (1 packet pos keyword)
  then show ?case by (subst (asm) (2) get_keyword_bytes.simps) (force split: if_splits)
qed

lemma get_event_advances: "get_event big packet pos = Some (e, pos') \<Longrightarrow> pos < pos' \<and> pos' \<le> length packet"
  by (auto simp: get_event_def get_keyword_def get_int_val_def get_float_val_def read_bytes_def bind_eq_Some_conv Let_def
      dest!: get_keyword_bytes_advances split: if_splits)

text \<open>The loop ends because every event takes some bytes.\<close>

function get_events :: "bool \<Rightarrow> byte list \<Rightarrow> nat \<Rightarrow> decoded_event list \<Rightarrow> decoded_event list option" where
  "get_events big packet pos events =
     (if pos < length packet
      then case get_event big packet pos of
          Some (event, pos1) \<Rightarrow> get_events big packet pos1 (events @ [event])
        | None \<Rightarrow> None
      else Some events)"
  by pat_completeness auto
termination
  by (relation "measure (\<lambda>(_, packet, pos, _). length packet - pos)") (auto dest!: get_event_advances)

declare get_events.simps [simp del]

definition decode_packet :: "bool \<Rightarrow> byte list \<Rightarrow> decoded_packet option" where
  "decode_packet big packet = do {
     ok \<leftarrow> check_for_correct_packet (take 4 packet);
     if ok then do {
       (receiver, pos1) \<leftarrow> get_keyword packet 4;
       (sender, pos2) \<leftarrow> get_keyword packet pos1;
       correct_packet \<leftarrow> check_for_correct_packet (take 4 (drop pos2 packet));
       events \<leftarrow> (if \<not> correct_packet then get_events big packet pos2 [] else Some []);
       Some \<lparr>packet_receiver = receiver, raw_sender = sender, packet_events = events, packet_number = None\<rparr>
     }
     else None
   }"

end
