(* ===== verification/Packet_Reading.thy ===== *)
theory Packet_Reading
  imports Packet_Decoder Profiler_Facade
begin

text \<open>
  Whether the Python decoder of the log analyzer reads out of a datagram what the C++ side has put into it: names, numbers,
  entries, the first buffer of a pass, and the later ones, which have no sender in them.
\<close>

subsection \<open>Reading text back\<close>

text \<open>Names in ASCII, as C++ source files have them.\<close>

definition readable :: "string \<Rightarrow> bool" where
  "readable s \<longleftrightarrow> (\<forall>c\<in>set s. 0 < (of_char c :: nat) \<and> (of_char c :: nat) < 128)"

lemma readable_append [simp]:
  "readable []" "readable (c # s) \<longleftrightarrow> 0 < (of_char c :: nat) \<and> (of_char c :: nat) < 128 \<and> readable s"
  "readable (s @ t) \<longleftrightarrow> readable s \<and> readable t"
  by (auto simp: readable_def)

lemma readable_take: "readable s \<Longrightarrow> readable (take n s)"
  by (auto simp: readable_def dest: in_set_takeD)

lemma readable_marks [simp]: "readable ''LOGA''" "readable ''SEND''" "readable ''N/A''"
  by (simp_all add: readable_def)

lemma readable_event_text: "(\<And>i s. e = UserEvent i s \<Longrightarrow> readable s) \<Longrightarrow> readable (event_text e)"
  by (cases e) (simp_all add: readable_def)

lemma bytes_of_append [simp]:
  "bytes_of [] = []" "bytes_of (c # s) = of_char c # bytes_of s" "bytes_of (s @ t) = bytes_of s @ bytes_of t"
  by (simp_all add: bytes_of_def)

lemma byte_char:
  assumes "0 < (of_char c :: nat)" and "(of_char c :: nat) < 128"
  shows "(of_char c :: byte) < 0x80" "(of_char c :: byte) \<noteq> 0" "unat (of_char c :: byte) = of_char c"
proof -
  have "(of_char c :: byte) = of_nat (of_char c)" by (simp only: of_nat_of_char)
  then have u: "unat (of_char c :: byte) = of_char c" using assms(2) by (simp add: unat_of_nat take_bit_nat_eq_self)
  then show "unat (of_char c :: byte) = of_char c" .
  show "(of_char c :: byte) < 0x80" using u assms(2) by (simp add: word_less_nat_alt)
  show "(of_char c :: byte) \<noteq> 0" using u assms(1) by auto
qed

lemma utf8_decode_ascii: "readable s \<Longrightarrow> utf8_decode (bytes_of s) = Some (ascii s)"
  by (induction s) (simp_all add: bytes_of_def ascii_def readable_def byte_char)

lemma nonzero_bytes: "readable s \<Longrightarrow> 0 \<notin> set (bytes_of s)"
  using byte_char(2) by (fastforce simp: bytes_of_def readable_def)

lemma get_keyword_bytes_eq:
  "0 \<notin> set w \<Longrightarrow> get_keyword_bytes (pre @ w @ 0 # rest) (length pre) kw = Some (kw @ w, length pre + length w + 1)"
proof (induction w arbitrary: pre kw)
  case Nil
  then show ?case by (subst get_keyword_bytes.simps) simp
next
  case (Cons b w)
  from Cons.IH [of "pre @ [b]" "kw @ [b]"] Cons.prems show ?case by (subst get_keyword_bytes.simps) simp
qed

lemma get_keyword_text:
  assumes "readable s" and "packet = pre @ bytes_of s @ 0 # rest"
  shows "get_keyword packet (length pre) = Some (ascii s, length pre + length s + 1)"
  using get_keyword_bytes_eq [OF nonzero_bytes [OF assms(1)], of pre rest "[]"] utf8_decode_ascii [OF assms(1)]
  by (simp add: get_keyword_def assms(2))

subsection \<open>Reading numbers back\<close>

lemma from_bytes_big_snoc: "from_bytes_big (bs @ [b]) = 256 * from_bytes_big bs + uint b"
  by (simp add: from_bytes_big_def)

lemma uint_load_le:
  "8 * length bs \<le> LENGTH('a) \<Longrightarrow> uint (load_le bs :: 'a::len word) = from_bytes_big (rev bs) \<and> uint (load_le bs :: 'a word) < 2 ^ (8 * length bs)"
proof (induction bs)
  case Nil
  show ?case by (simp add: from_bytes_big_def)
next
  case (Cons b bs)
  let ?w = "load_le bs :: 'a word"
  have w: "uint ?w = from_bytes_big (rev bs)" "uint ?w < 2 ^ (8 * length bs)" using Cons by simp_all
  have b: "uint b < 2 ^ 8" using uint_lt2p [of b] by simp
  have len: "8 + 8 * length bs \<le> LENGTH('a)" using Cons.prems by simp
  have ub: "uint (ucast b :: 'a word) = uint b" using len by (intro uint_up_ucast) (simp add: is_up)
  have small: "256 * uint ?w < 2 ^ (8 + 8 * length bs)" using w(2) by (simp add: power_add)
  then have "256 * uint ?w < 2 ^ LENGTH('a)" using power_increasing [OF len, of "2::int"] by linarith
  then have up: "uint (push_bit 8 ?w) = 256 * uint ?w"
    by (simp only: unsigned_push_bit_eq take_bit_eq_mod) (simp add: push_bit_eq_mult mult.commute)
  have disj: "ucast b OR push_bit 8 ?w = ucast b + push_bit 8 ?w"
    by (rule disjunctive_add [symmetric]) (auto simp: bit_simps dest: bit_imp_le_length)
  have sum: "uint b + 256 * uint ?w < 2 ^ (8 + 8 * length bs)"
  proof -
    have "uint ?w + 1 \<le> 2 ^ (8 * length bs)" using w(2) by simp
    then have "256 * (uint ?w + 1) \<le> 2 ^ (8 + 8 * length bs)" by (simp add: power_add)
    with b show ?thesis by simp
  qed
  then have "uint b + 256 * uint ?w < 2 ^ LENGTH('a)" using power_increasing [OF len, of "2::int"] by linarith
  then have "uint (ucast b + push_bit 8 ?w) = uint b + 256 * uint ?w"
    using ub up by (simp add: uint_plus_simple_iff uint_word_ariths)
  then show ?case using sum w(1) disj by (simp add: from_bytes_big_snoc)
qed

lemma get_int_val_32:
  assumes "packet = pre @ store big (ConvertHostToNetworkByteOrder big (v :: 32 word)) @ rest"
  shows "get_int_val packet (length pre) = Some (uint v, length pre + 4)"
proof -
  have bytes: "store big (ConvertHostToNetworkByteOrder big v) = rev (store_le v)" by (rule store_h2n) simp
  have len: "length (store_le v) = 4" by (simp add: size_of_def)
  have "uint (load_le (store_le v) :: 32 word) = from_bytes_big (rev (store_le v))" 
    using uint_load_le [of "store_le v", where 'a = 32] len by simp
  then have "from_bytes_big (rev (store_le v)) = uint v" by (simp add: load_store_le)
  then show ?thesis using len by (simp add: assms bytes get_int_val_def read_bytes_def)
qed

lemma get_float_val_64:
  assumes "packet = pre @ store big (h2n_double big v) @ rest"
  shows "get_float_val big' packet (length pre) = Some (v, length pre + 8)"
proof -
  have bytes: "store big (h2n_double big v) = rev (store_le v)" unfolding h2n_double_def by (rule store_h2n) simp
  have len: "length (store_le v) = 8" by (simp add: size_of_def)
  show ?thesis using len by (simp add: assms bytes get_float_val_def read_bytes_def load_def load_store_le)
qed

subsection \<open>Reading an entry back\<close>

text \<open>What the analyzer should see of the aggregate of event type \<open>e\<close>.\<close>

definition event_of :: "serial_env \<Rightarrow> nat \<Rightarrow> event_id \<Rightarrow> log_aggregate \<Rightarrow> decoded_event" where
  "event_of E k e a = Event_new (ascii (''LOGA'' @ take kMaxNameLength (event_text e))) (log_count a) (clock E k - aggregation_started a)
     (double_bits E (GetMin a)) (double_bits E (GetMax a)) (double_bits E (GetAvg (rounding E) a))"

fun events_of :: "serial_env \<Rightarrow> nat \<Rightarrow> (event_id \<times> log_aggregate) list \<Rightarrow> decoded_event list" where
  "events_of E k [] = []"
| "events_of E k ((e, a) # as) = (if log_count a = 0 then [] else [event_of E k e a]) @ events_of E (k + 2) as"

text \<open>The counts fit into 31 bits, no clock runs backwards, and no aggregate collects for 2^31 - 1 microseconds.\<close>

definition in_range :: "serial_env \<Rightarrow> nat \<Rightarrow> event_id \<Rightarrow> log_aggregate \<Rightarrow> bool" where
  "in_range E k e a \<longleftrightarrow> readable (event_text e) \<and> 0 \<le> log_count a \<and> log_count a < 2 ^ 31 \<and>
     aggregation_started a \<le> clock E k \<and> clock E k - aggregation_started a < 2 ^ 31 - 1"

fun presentable :: "serial_env \<Rightarrow> nat \<Rightarrow> (event_id \<times> log_aggregate) list \<Rightarrow> bool" where
  "presentable E k [] = True"
| "presentable E k ((e, a) # as) = (in_range E k e a \<and> presentable E (k + 2) as)"

lemma presentable_timely: "presentable E k as \<Longrightarrow> timely E k as"
  by (induction E k as rule: presentable.induct) (simp_all add: in_range_def)

lemma uint_of_int_32: "0 \<le> n \<Longrightarrow> n < 2 ^ 31 \<Longrightarrow> uint (word_of_int n :: 32 word) = n"
  by (simp add: uint_word_of_int)

lemma silent_iff: "0 \<le> log_count a \<Longrightarrow> log_count a < 2 ^ 31 \<Longrightarrow> silent a \<longleftrightarrow> log_count a = 0"
  using uint_of_int_32 [of "log_count a"] by (auto simp: silent_def)

lemma put_string_eq: "put_string limit s = bytes_of (take limit s) @ [0]"
  by (simp add: put_string_def Let_def)

definition stats_of :: "serial_env \<Rightarrow> nat \<Rightarrow> log_aggregate \<Rightarrow> byte list" where
  "stats_of E k a = the (aggregate_serialize (big_endian E) (double_bits E) (rounding E) (clock E k) a)"

lemma loga_eq: "loga E k e a = bytes_of (''LOGA'' @ take kMaxNameLength (event_text e)) @ 0 # stats_of E k a"
  by (simp add: loga_def SerializeString_def put_string_eq stats_of_def)

lemma stats_of_eq:
  assumes "in_range E k e a"
  shows "stats_of E k a =
    store (big_endian E) (ConvertHostToNetworkByteOrder (big_endian E) (word_of_int (log_count a) :: 32 word)) @
    store (big_endian E) (ConvertHostToNetworkByteOrder (big_endian E) (word_of_int (clock E k - aggregation_started a) :: 32 word)) @
    store (big_endian E) (h2n_double (big_endian E) (double_bits E (GetMin a))) @
    store (big_endian E) (h2n_double (big_endian E) (double_bits E (GetMax a))) @
    store (big_endian E) (h2n_double (big_endian E) (double_bits E (GetAvg (rounding E) a)))"
  using assms by (simp add: stats_of_def in_range_def aggregate_serialize_def GetTimePassedInMicroSecs_def GetLogCount_def
      del: length_store)

lemma length_stats_of: "in_range E k e a \<Longrightarrow> length (stats_of E k a) = 32"
  by (simp add: stats_of_eq del: length_store)

text \<open>The name of an entry is what stands before the numbers, whatever the mark.\<close>

lemma get_event_entry:
  assumes "in_range E k e a" and name: "readable s" and packet: "packet = pre @ bytes_of s @ 0 # stats_of E k a @ rest"
  shows "get_event big packet (length pre) =
    Some ((event_of E k e a)\<lparr>raw_type := ascii s\<rparr>, length (pre @ bytes_of s @ 0 # stats_of E k a))"
proof -
  let ?big = "big_endian E"
  let ?count = "store ?big (ConvertHostToNetworkByteOrder ?big (word_of_int (log_count a) :: 32 word))"
  let ?time = "store ?big (ConvertHostToNetworkByteOrder ?big (word_of_int (clock E k - aggregation_started a) :: 32 word))"
  let ?lo = "store ?big (h2n_double ?big (double_bits E (GetMin a)))"
  let ?hi = "store ?big (h2n_double ?big (double_bits E (GetMax a)))"
  let ?avg = "store ?big (h2n_double ?big (double_bits E (GetAvg (rounding E) a)))"
  let ?p1 = "pre @ bytes_of s @ [0]"
  note stats = stats_of_eq [OF assms(1)]
  have k: "get_keyword packet (length pre) = Some (ascii s, length ?p1)"
    using get_keyword_text [OF name packet] by simp
  have c: "get_int_val packet (length ?p1) = Some (log_count a, length (?p1 @ ?count))"
    using get_int_val_32 [of packet ?p1 ?big "word_of_int (log_count a)" "?time @ ?lo @ ?hi @ ?avg @ rest"] assms(1)
    by (simp add: packet stats in_range_def uint_of_int_32 del: length_store)
  have t: "get_int_val packet (length (?p1 @ ?count)) = Some (clock E k - aggregation_started a, length (?p1 @ ?count @ ?time))"
    using get_int_val_32 [of packet "?p1 @ ?count" ?big "word_of_int (clock E k - aggregation_started a)" "?lo @ ?hi @ ?avg @ rest"] assms(1)
    by (simp add: packet stats in_range_def uint_of_int_32 del: length_store of_int_diff)
  have lo: "get_float_val big packet (length (?p1 @ ?count @ ?time)) =
      Some (double_bits E (GetMin a), length (?p1 @ ?count @ ?time @ ?lo))"
    using get_float_val_64 [of packet "?p1 @ ?count @ ?time" ?big _ "?hi @ ?avg @ rest" big] by (simp add: packet stats del: length_store)
  have hi: "get_float_val big packet (length (?p1 @ ?count @ ?time @ ?lo)) =
      Some (double_bits E (GetMax a), length (?p1 @ ?count @ ?time @ ?lo @ ?hi))"
    using get_float_val_64 [of packet "?p1 @ ?count @ ?time @ ?lo" ?big _ "?avg @ rest" big] by (simp add: packet stats del: length_store)
  have avg: "get_float_val big packet (length (?p1 @ ?count @ ?time @ ?lo @ ?hi)) =
      Some (double_bits E (GetAvg (rounding E) a), length (pre @ bytes_of s @ 0 # stats_of E k a))"
    using get_float_val_64 [of packet "?p1 @ ?count @ ?time @ ?lo @ ?hi" ?big _ "rest" big] by (simp add: packet stats del: length_store)
  show ?thesis unfolding get_event_def k c t lo hi avg bind.bind_lunit prod.case by (simp add: event_of_def Event_new_def)
qed

lemma get_event_loga:
  assumes "in_range E k e a" and "packet = pre @ loga E k e a @ rest"
  shows "get_event big packet (length pre) = Some (event_of E k e a, length (pre @ loga E k e a))"
proof -
  let ?n = "''LOGA'' @ take kMaxNameLength (event_text e)"
  have "readable ?n" using assms(1) by (simp add: in_range_def readable_take)
  moreover have "packet = pre @ bytes_of ?n @ 0 # stats_of E k a @ rest" using assms(2) by (simp add: loga_eq)
  moreover have "(event_of E k e a)\<lparr>raw_type := ascii ?n\<rparr> = event_of E k e a" by (simp add: event_of_def Event_new_def)
  ultimately show ?thesis using get_event_entry [OF assms(1), of ?n packet pre rest big] by (simp add: loga_eq)
qed

lemma get_events_report:
  "presentable E k as \<Longrightarrow> get_events big (pre @ report E k as) (length pre) evs = Some (evs @ events_of E k as)"
proof (induction E k as arbitrary: pre evs rule: presentable.induct)
  case (1 E k)
  show ?case by (subst get_events.simps) simp
next
  case (2 E k e a as)
  have r: "in_range E k e a" "presentable E (k + 2) as" using "2.prems" by simp_all
  then have s: "silent a \<longleftrightarrow> log_count a = 0" by (intro silent_iff) (simp_all add: in_range_def)
  show ?case
  proof (cases "silent a")
    case True
    with "2.IH" [OF r(2), of pre evs] s show ?thesis by simp
  next
    case False
    let ?packet = "pre @ report E k ((e, a) # as)"
    have p: "?packet = pre @ loga E k e a @ report E (k + 2) as" using False by simp
    have "length pre < length ?packet" using length_loga(2) [of "clock E k" E k a e] r(1)
      unfolding p by (cases "loga E k e a") (simp_all add: in_range_def)
    then have "get_events big ?packet (length pre) evs = get_events big ?packet (length (pre @ loga E k e a)) (evs @ [event_of E k e a])"
      using get_event_loga [OF r(1) p, of big] by (subst get_events.simps) simp
    moreover have "get_events big ?packet (length (pre @ loga E k e a)) (evs @ [event_of E k e a]) =
        Some (evs @ event_of E k e a # events_of E (k + 2) as)"
      using "2.IH" [OF r(2), of "pre @ loga E k e a" "evs @ [event_of E k e a]"] False by simp
    ultimately show ?thesis using False s by simp
  qed
qed

subsection \<open>Reading a datagram back\<close>

text \<open>The name that a ProfileData reports as the sender.\<close>

definition top_sender :: "serial_env \<Rightarrow> profile_data \<Rightarrow> string" where
  "top_sender E d = (case GetTopSender (sender_log d) of
     Some (best, _) \<Rightarrow> take kMaxSenderNameLength (if best = nullptr then ''N/A'' else text_at E best)
   | None \<Rightarrow> [])"

definition packet_of :: "serial_env \<Rightarrow> nat \<Rightarrow> profile_data \<Rightarrow> decoded_packet" where
  "packet_of E k d = \<lparr>packet_receiver = ascii (take kMaxNameLength (text_at E (data_group_name d))),
     raw_sender = ascii (''SEND'' @ top_sender E d), packet_events = events_of E k (aggregates d), packet_number = None\<rparr>"

definition names_readable :: "serial_env \<Rightarrow> profile_data \<Rightarrow> bool" where
  "names_readable E d \<longleftrightarrow> readable (text_at E (data_group_name d)) \<and> readable (top_sender E d)"

lemma sender_part_eq:
  assumes "profile_ok d"
  shows "sender_part E d = bytes_of (''SEND'' @ top_sender E d) @ [0]"
proof -
  from assms obtain out l' where "sender_serialize (text_at E) (sender_log d) = Some (out, l')"
    using sender_serialize_ok [of "sender_log d" "text_at E"] by (auto simp: profile_ok_def)
  then show ?thesis
    by (auto simp: sender_part_def top_sender_def sender_serialize_def put_string_eq bind_eq_Some_conv Let_def)
qed

lemma check_mark:
  "check_for_correct_packet (take 4 (bytes_of ''DGRP'' @ rest)) = Some True"
  "check_for_correct_packet (take 4 (bytes_of ''LOGA'' @ rest)) = Some False"
  "check_for_correct_packet [] = Some False"
  by (simp_all add: check_for_correct_packet_def ascii_def between_def)

lemma check_report: "check_for_correct_packet (take 4 (report E k as)) = Some False"
proof (induction E k as rule: report.induct)
  case (2 E k e a as)
  then show ?case using check_mark(2) by (cases "silent a") (simp_all add: loga_def del: bytes_of_append)
qed (simp add: check_mark)

lemma decode_header:
  assumes "packet = group_header E d @ rest" and "readable (text_at E (data_group_name d))"
  shows "check_for_correct_packet (take 4 packet) = Some True"
    "get_keyword packet 4 = Some (ascii (take kMaxNameLength (text_at E (data_group_name d))), length (group_header E d))"
proof -
  let ?n = "take kMaxNameLength (text_at E (data_group_name d))"
  have h: "group_header E d = bytes_of ''DGRP'' @ bytes_of ?n @ [0]"
    by (simp only: group_header_def SerializeString_def put_string_eq)
  show "check_for_correct_packet (take 4 packet) = Some True"
    unfolding assms(1) h append_assoc by (rule check_mark)
  show "get_keyword packet 4 = Some (ascii ?n, length (group_header E d))"
    using get_keyword_text [OF readable_take [OF assms(2)], of packet "bytes_of ''DGRP''" kMaxNameLength rest]
    by (simp add: assms(1) h eval_nat_numeral)
qed

lemma decode_first_buffer:
  assumes ok: "profile_ok d" and names: "names_readable E d" and as: "presentable E k (aggregates d)"
  shows "decode_packet big (group_header E d @ sender_part E d @ report E k (aggregates d)) = Some (packet_of E k d)"
proof -
  let ?packet = "group_header E d @ sender_part E d @ report E k (aggregates d)"
  let ?pre = "group_header E d @ sender_part E d"
  have n: "readable (text_at E (data_group_name d))" "readable (''SEND'' @ top_sender E d)"
    using names by (simp_all add: names_readable_def)
  have s: "get_keyword ?packet (length (group_header E d)) = Some (ascii (''SEND'' @ top_sender E d), length ?pre)"
    using get_keyword_text [OF n(2), of ?packet "group_header E d" "report E k (aggregates d)"] sender_part_eq [OF ok, of E] by simp
  have "check_for_correct_packet (take 4 (drop (length ?pre) ?packet)) = Some False" using check_report [of E k "aggregates d"] by simp
  moreover have "get_events big ?packet (length ?pre) [] = Some (events_of E k (aggregates d))"
    using get_events_report [OF as, of big ?pre "[]"] by simp
  ultimately show ?thesis
    unfolding decode_packet_def decode_header [OF refl n(1)] bind.bind_lunit prod.case s by (simp add: packet_of_def)
qed

subsection \<open>A pass in one datagram per channel\<close>

lemma environment_size [simp]:
  "events_of (E\<lparr>buffer_cap := n\<rparr>) k as = events_of E k as" "presentable (E\<lparr>buffer_cap := n\<rparr>) k as = presentable E k as"
  "top_sender (E\<lparr>buffer_cap := n\<rparr>) d = top_sender E d" "names_readable (E\<lparr>buffer_cap := n\<rparr>) d = names_readable E d"
  "packet_of (E\<lparr>buffer_cap := n\<rparr>) k d = packet_of E k d"
proof -
  show ev: "events_of (E\<lparr>buffer_cap := n\<rparr>) k as = events_of E k as" for k as
    by (induction E k as rule: events_of.induct) (simp_all add: event_of_def)
  show "presentable (E\<lparr>buffer_cap := n\<rparr>) k as = presentable E k as"
    by (induction E k as rule: presentable.induct) (simp_all add: in_range_def)
  show top: "top_sender (E\<lparr>buffer_cap := n\<rparr>) d = top_sender E d"
    by (simp add: top_sender_def split: option.split)
  show "names_readable (E\<lparr>buffer_cap := n\<rparr>) d = names_readable E d" by (simp add: names_readable_def top)
  show "packet_of (E\<lparr>buffer_cap := n\<rparr>) k d = packet_of E k d" by (simp add: packet_of_def top ev)
qed

lemma length_report: "timely E k as \<Longrightarrow> length (report E k as) \<le> 64 * length as"
proof (induction E k as rule: report.induct)
  case (2 E k e a as)
  with length_loga(1) [of "clock E k" E k a e] show ?case by simp
qed simp

text \<open>
  The six event types of the library always fit into the buffer that a profiler has for UDP, so that a pass sends one
  datagram per channel.
\<close>

lemma send_data_single:
  assumes ok: "profile_ok d" and start: "serialize_next d = length (aggregates d)" and few: "length (aggregates d) \<le> 6"
    and cap: "448 \<le> buffer_cap E" and t: "timely E k (aggregates d)" and fuel: "0 < fuel"
  shows "\<exists>k' d'. send_data fuel E k d = Some ([group_header E d @ sender_part E d @ report E k (aggregates d)], k', d') \<and>
    emptied d d' \<and> length (group_header E d @ sender_part E d @ report E k (aggregates d)) \<le> buffer_cap E"
proof -
  have s: "start_of d = 0" using start by (simp add: start_of_def)
  have "128 \<le> buffer_cap E" "timely E k (drop (start_of d) (aggregates d))" using cap t s by simp_all
  from GatherNSerialize_ok [OF ok this] start s obtain n d' where
    g: "GatherNSerialize E k d = Some (group_header E d @ sender_part E d @ report E k (take n (aggregates d)),
          n \<noteq> length (aggregates d), k + 2 * n, d')" "n \<le> length (aggregates d)"
      "aggregates d' = cleared E k (take n (aggregates d)) @ drop n (aggregates d)" "serialize_next d' = n" "profile_ok d'"
      "length (group_header E d @ sender_part E d @ report E k (take n (aggregates d))) \<le> buffer_cap E"
      "n < length (aggregates d) \<longrightarrow>
        int (buffer_cap E) - 64 < int (length (group_header E d @ sender_part E d @ report E k (take n (aggregates d))))"
    by auto
  have "n = length (aggregates d)"
  proof (rule ccontr)
    assume "n \<noteq> length (aggregates d)"
    with g(2) have n: "n < length (aggregates d)" by simp
    obtain out l' where "sender_serialize (text_at E) (sender_log d) = Some (out, l')" "length out \<le> 32"
      using sender_serialize_ok [of "sender_log d" "text_at E"] ok by (auto simp: profile_ok_def)
    then have "length (sender_part E d) \<le> 32" by (simp add: sender_part_def)
    moreover have "timely E k (take n (aggregates d))"
      using t timely_append [of E k "take n (aggregates d)" "drop n (aggregates d)"] by simp
    from length_report [OF this] have "length (report E k (take n (aggregates d))) \<le> 64 * 5" using n few by simp
    ultimately show False using g(7) n cap length_group_header(1) [of E d] by simp
  qed
  with g cleared_silent [of E k "aggregates d"] fuel show ?thesis by (cases fuel) (auto simp: emptied_def)
qed

definition library_events :: "event_id set" where
  "library_events = {EventPushed, EventRetrieved, EventExecuteTime, EventFillTime, EventReadTime, EventDroppedPacket}"

definition reports_readable :: "serial_env \<Rightarrow> profile_data \<Rightarrow> bool" where
  "reports_readable E d \<longleftrightarrow> profile_ok d \<and> serialize_next d = length (aggregates d) \<and>
     fst ` set (aggregates d) \<subseteq> library_events \<and> names_readable E d \<and> (\<forall>k. presentable E k (aggregates d))"

lemma at_most_six: "reports_readable E d \<Longrightarrow> length (aggregates d) \<le> 6"
proof -
  assume r: "reports_readable E d"
  have "card (fst ` set (aggregates d)) \<le> card library_events"
    using r by (intro card_mono) (simp_all add: reports_readable_def library_events_def)
  moreover have "card library_events = 6" by (simp add: library_events_def)
  moreover have "card (fst ` set (aggregates d)) = length (aggregates d)"
    using r distinct_card [of "map fst (aggregates d)"] by (simp add: reports_readable_def profile_ok_def)
  ultimately show ?thesis by simp
qed

definition read_back :: "serial_env \<Rightarrow> bool \<Rightarrow> profile_data \<Rightarrow> byte list \<Rightarrow> bool" where
  "read_back E big d b \<longleftrightarrow> 0 < length b \<and> length b \<le> buffer_cap E \<and> (\<exists>k. decode_packet big b = Some (packet_of E k d))"

lemma send_data_read_back:
  assumes "reports_readable E d" and "448 \<le> buffer_cap E" and "0 < fuel"
  shows "\<exists>bufs k' d'. send_data fuel E k d = Some (bufs, k', d') \<and> (\<exists>b. bufs = [b] \<and> read_back E big d b) \<and> emptied d d'"
proof -
  have d: "profile_ok d" "serialize_next d = length (aggregates d)" "length (aggregates d) \<le> 6" "names_readable E d"
      "presentable E k (aggregates d)"
    using assms(1) at_most_six [OF assms(1)] by (simp_all add: reports_readable_def)
  let ?b = "group_header E d @ sender_part E d @ report E k (aggregates d)"
  from send_data_single [OF d(1-3) assms(2) presentable_timely [OF d(5)] assms(3)] obtain k' d' where
    s: "send_data fuel E k d = Some ([?b], k', d')" "emptied d d'" "length ?b \<le> buffer_cap E" by blast
  have "0 < length ?b" using length_group_header(2) [of E d] by (cases "group_header E d") simp_all
  moreover have "\<exists>k. decode_packet big ?b = Some (packet_of E k d)" using decode_first_buffer [OF d(1,4,5)] by blast
  ultimately have "read_back E big d ?b" using s(3) unfolding read_back_def by blast
  with s(1,2) show ?thesis by blast
qed

subsection \<open>A later buffer of a pass\<close>

text \<open>
  A later buffer of a pass has no sender in it. The analyzer takes the mark and name of the first entry for the sender
  and looks for a name in its numbers. The count being less than 128, it finds an empty one at the first byte, so that
  everything after it is read one byte too late, up to the next entry, which loses the first letter of its mark.
\<close>

lemma report_next:
  assumes "presentable E k as"
  shows "(events_of E k as = [] \<and> report E k as = []) \<or>
    (\<exists>e a k1 as' k2. events_of E k as = event_of E k1 e a # events_of E k2 as' \<and> report E k as = loga E k1 e a @ report E k2 as' \<and>
       in_range E k1 e a \<and> presentable E k2 as')"
  using assms
proof (induction E k as rule: events_of.induct)
  case (2 E k e a as)
  then have r: "in_range E k e a" "presentable E (k + 2) as" by simp_all
  then have "silent a \<longleftrightarrow> log_count a = 0" by (intro silent_iff) (simp_all add: in_range_def)
  then show ?case using 2 r by (cases "log_count a = 0") (simp_all, blast)
qed simp

lemma get_keyword_end: "get_keyword packet (length packet) = None"
  by (simp add: get_keyword_def get_keyword_bytes.simps)

lemma get_event_late:
  assumes "packet = pre @ 0 # rest"
  shows "get_event big packet (length pre) \<noteq> None \<longleftrightarrow> 32 \<le> length rest"
    and "get_event big packet (length pre) = Some (ev, pos) \<Longrightarrow> pos = length pre + 33"
proof -
  have "get_keyword packet (length pre) = Some ([], length pre + 1)"
    using get_keyword_text [of "[]" packet pre rest] by (simp add: assms ascii_def)
  then show "get_event big packet (length pre) \<noteq> None \<longleftrightarrow> 32 \<le> length rest"
    and "get_event big packet (length pre) = Some (ev, pos) \<Longrightarrow> pos = length pre + 33"
    by (auto simp: get_event_def get_int_val_def get_float_val_def read_bytes_def assms Let_def bind_eq_Some_conv)
qed

lemma small_count:
  assumes "in_range E k e a" and "log_count a < 128"
  shows "\<exists>c rest. stats_of E k a = [0, 0, 0, c] @ rest \<and> c < 0x80 \<and> length rest = 28"
proof -
  let ?w = "word_of_int (log_count a) :: 32 word"
  have u: "uint ?w < 128" using assms uint_of_int_32 [of "log_count a"] by (simp add: in_range_def)
  have "uint (?w div 0x100) = 0" "uint (?w div 0x10000) = 0" "uint (?w div 0x1000000) = 0"
    using u by (simp_all only: uint_div uint_numeral) (simp_all add: div_pos_pos_trivial)
  then have z: "drop_bit 8 ?w = 0" "drop_bit 16 ?w = 0" "drop_bit 24 ?w = 0"
    by (simp_all add: drop_bit_eq_div uint_0_iff [symmetric] del: uint_0_iff)
  have "uint (ucast ?w :: byte) = uint ?w mod 2 ^ 8"
    by (simp only: unsigned_ucast_eq unsigned_take_bit_eq take_bit_eq_mod) simp
  also have "\<dots> = uint ?w" using u by (intro mod_pos_pos_trivial) simp_all
  finally have "uint (ucast ?w :: byte) < 128" using u by simp
  then have c: "(ucast ?w :: byte) < 0x80" by (simp add: word_less_def)
  have "store (big_endian E) (ConvertHostToNetworkByteOrder (big_endian E) ?w) = rev (store_le ?w)" by (rule store_h2n) simp
  also have "\<dots> = [0, 0, 0, ucast ?w]" using z by (simp add: store_le_def size_of_def upt_rec)
  finally have s: "store (big_endian E) (ConvertHostToNetworkByteOrder (big_endian E) ?w) = [0, 0, 0, ucast ?w]" .
  show ?thesis unfolding stats_of_eq [OF assms(1)] s using c by (auto simp del: length_store)
qed

lemma check_small: "c < 0x80 \<Longrightarrow> check_for_correct_packet [0, 0, 0, c] = Some False"
  by (simp add: check_for_correct_packet_def ascii_def)

text \<open>Up to the numbers of the first entry.\<close>

lemma decode_later_start:
  assumes n: "readable (text_at E (data_group_name d))" and e: "in_range E k e a" "log_count a < 128"
    and p: "packet = group_header E d @ loga E k e a @ rest"
    and pos: "pos = length (group_header E d) + length (take kMaxNameLength (event_text e)) + 5"
  shows "decode_packet big packet = map_option (\<lambda>evs. \<lparr>packet_receiver = ascii (take kMaxNameLength (text_at E (data_group_name d))),
      raw_sender = ascii (''LOGA'' @ take kMaxNameLength (event_text e)), packet_events = evs, packet_number = None\<rparr>)
      (get_events big packet pos [])"
    and "\<exists>pre r. packet = pre @ 0 # r @ rest \<and> length pre = pos \<and> length r = 31"
proof -
  let ?n = "''LOGA'' @ take kMaxNameLength (event_text e)"
  let ?pre = "group_header E d @ bytes_of ?n @ [0]"
  obtain c r where s: "stats_of E k a = [0, 0, 0, c] @ r" "c < 0x80" "length r = 28" using small_count [OF e] by blast
  have packet: "packet = ?pre @ [0, 0, 0, c] @ r @ rest" by (simp add: p loga_eq s(1))
  have len: "length ?pre = pos" by (simp add: pos)
  have "packet = group_header E d @ bytes_of ?n @ 0 # stats_of E k a @ rest" by (simp add: p loga_eq)
  moreover have "readable ?n" using e(1) by (simp add: in_range_def readable_take)
  ultimately have "get_keyword packet (length (group_header E d)) = Some (ascii ?n, length (group_header E d) + length ?n + 1)"
    using get_keyword_text by blast
  then have "get_keyword packet (length (group_header E d)) = Some (ascii ?n, pos)" by (simp add: pos)
  moreover have "drop pos packet = [0, 0, 0, c] @ r @ rest" unfolding packet len [symmetric] by (rule append_eq_conv_conj [THEN iffD1, THEN conjunct2, symmetric]) simp
  then have "check_for_correct_packet (take 4 (drop pos packet)) = Some False" using check_small [OF s(2)] by simp
  ultimately show "decode_packet big packet = map_option (\<lambda>evs. \<lparr>packet_receiver = ascii (take kMaxNameLength (text_at E (data_group_name d))),
      raw_sender = ascii ?n, packet_events = evs, packet_number = None\<rparr>) (get_events big packet pos [])"
    using decode_header [OF p n] by (cases "get_events big packet pos []") (simp_all add: decode_packet_def)
  show "\<exists>pre r. packet = pre @ 0 # r @ rest \<and> length pre = pos \<and> length r = 31"
    using packet len s(3) by (intro exI [of _ ?pre] exI [of _ "[0, 0, c] @ r"]) simp
qed

lemma decode_later:
  assumes n: "readable (text_at E (data_group_name d))" and as: "presentable E k as"
    and small: "\<forall>ev\<in>set (events_of E k as). event_log_count ev < 128"
  shows "case events_of E k as of
      ev1 # ev2 # evs \<Rightarrow> \<exists>pkt g. decode_packet big (group_header E d @ report E k as) = Some pkt \<and>
        packet_get_sender pkt = event_get_type ev1 \<and> packet_events pkt = g # ev2\<lparr>raw_type := tl (raw_type ev2)\<rparr> # evs
    | _ \<Rightarrow> decode_packet big (group_header E d @ report E k as) = None"
proof (cases "events_of E k as")
  case Nil
  then have "report E k as = []" using report_next [OF as] by auto
  with decode_header [OF refl n, of "[]"] get_keyword_end [of "group_header E d"] Nil show ?thesis
    by (simp add: decode_packet_def)
next
  case (Cons ev1 evs1)
  with report_next [OF as] obtain e a k1 as' k2 where
    r: "ev1 = event_of E k1 e a" "evs1 = events_of E k2 as'" "report E k as = loga E k1 e a @ report E k2 as'" "in_range E k1 e a"
      "presentable E k2 as'" by auto
  have a: "log_count a < 128" using small Cons r(1) by (simp add: event_of_def Event_new_def)
  let ?packet = "group_header E d @ loga E k1 e a @ report E k2 as'"
  define pos where "pos = length (group_header E d) + length (take kMaxNameLength (event_text e)) + 5"
  note start = decode_later_start [OF n r(4) a refl pos_def, where rest = "report E k2 as'"]
  obtain pre x where pre: "?packet = pre @ 0 # x @ report E k2 as'" "length pre = pos" "length x = 31" using start(2) by blast
  note late = get_event_late [OF pre(1), of big, unfolded pre(2)]
  have step: "get_events big ?packet pos [] =
      (case get_event big ?packet pos of Some (ev, pos1) \<Rightarrow> get_events big ?packet pos1 [ev] | None \<Rightarrow> None)"
    using arg_cong [OF pre(1), of length] pre(2)
    by (subst get_events.simps) (simp cong: option.case_cong)
  show ?thesis
  proof (cases evs1)
    case Nil
    then have "report E k2 as' = []" using report_next [OF r(5)] r(2) by auto
    then have "\<not> 32 \<le> length (x @ report E k2 as')" using pre(3) by simp
    with late(1) have "get_event big ?packet pos = None" by blast
    then show ?thesis using start(1) step Cons Nil r(3) by simp
  next
    case second: (Cons ev2 evs)
    with report_next [OF r(5)] r(2) obtain e2 a2 k3 as2 k4 where
      r2: "ev2 = event_of E k3 e2 a2" "evs = events_of E k4 as2" "report E k2 as' = loga E k3 e2 a2 @ report E k4 as2"
        "in_range E k3 e2 a2" "presentable E k4 as2" by auto
    have "37 \<le> length (loga E k3 e2 a2)" using r2(4) by (intro length_loga(2) [OF refl]) (simp add: in_range_def)
    then have "get_event big ?packet pos \<noteq> None" using late(1) pre(3) r2(3) by simp
    then obtain g where g: "get_event big ?packet pos = Some (g, pos + 33)" using late(2) by fastforce
    let ?s = "''OGA'' @ take kMaxNameLength (event_text e2)"
    let ?pre = "group_header E d @ loga E k1 e a @ [of_char CHR ''L'']"
    have p: "?packet = ?pre @ bytes_of ?s @ 0 # stats_of E k3 a2 @ report E k4 as2" using r2(3) by (simp add: loga_eq)
    have "length ?packet = pos + 32 + length (report E k2 as')" using arg_cong [OF pre(1), of length] pre(2,3) by simp
    then have lp: "length ?pre = pos + 33" by simp
    have s: "readable ?s" using r2(4) by (simp add: in_range_def readable_take)
    let ?ev = "ev2\<lparr>raw_type := ascii ?s\<rparr>"
    have e2: "get_event big ?packet (pos + 33) = Some (?ev, length (?pre @ bytes_of ?s @ 0 # stats_of E k3 a2))"
      using get_event_entry [OF r2(4) s p, of big] unfolding lp r2(1) .
    have rest: "get_events big ?packet (length (?pre @ bytes_of ?s @ 0 # stats_of E k3 a2)) [g, ?ev] = Some (g # ?ev # evs)"
      using get_events_report [OF r2(5), of big "?pre @ bytes_of ?s @ 0 # stats_of E k3 a2" "[g, ?ev]"] r2(2) p by simp
    have "pos + 33 < length ?packet" unfolding p using lp by simp
    then have "get_events big ?packet pos [] = Some (g # ?ev # evs)"
      using step g e2 rest by (subst (asm) (2) get_events.simps) simp
    moreover have "?ev = ev2\<lparr>raw_type := tl (raw_type ev2)\<rparr>" using r2(1) by (simp add: event_of_def Event_new_def ascii_def)
    moreover have "drop 4 (ascii (''LOGA'' @ take kMaxNameLength (event_text e))) = event_get_type ev1"
      using r(1) by (simp add: event_get_type_def event_of_def Event_new_def)
    ultimately show ?thesis using start(1) Cons second r(3) by (simp add: packet_get_sender_def)
  qed
qed

lemma presentable_append: "presentable E k (as @ bs) \<longleftrightarrow> presentable E k as \<and> presentable E (k + 2 * length as) bs"
  by (induction E k as rule: presentable.induct) (simp_all add: algebra_simps)

lemma presentable_take: "presentable E k as \<Longrightarrow> presentable E k (take n as)"
  using presentable_append [of E k "take n as" "drop n as"] by simp

lemma events_of_counts: "\<forall>(e, a)\<in>set as. log_count a < b \<Longrightarrow> \<forall>ev\<in>set (events_of E k as). event_log_count ev < b"
  by (induction E k as rule: events_of.induct) (auto simp: event_of_def Event_new_def)

end
