(* ===== verification/Log_Analyzer.thy ===== *)
theory Log_Analyzer
  imports Packet_Reading
begin

text \<open>
  What the log analyzer (\<^verbatim>\<open>packets_manager.py\<close>, \<^verbatim>\<open>channels_manager.py\<close>, \<^verbatim>\<open>channel.py\<close>)
  makes of the datagrams, and the whole way from the channels through the profiler, the network and the decoder to the
  map of the pipeline that the analyzer draws.
\<close>

subsection \<open>The managers\<close>

text \<open>\<^verbatim>\<open>PacketsManager\<close> numbers the packets; \<^verbatim>\<open>Channel\<close> keeps what has come for one channel.\<close>

record packets_manager =
  latest_packet :: "decoded_packet option"
  packets_count :: nat

definition packets_manager_new :: packets_manager where
  "packets_manager_new = \<lparr>latest_packet = None, packets_count = 1\<rparr>"

definition packets_manager_add :: "bool \<Rightarrow> byte list \<Rightarrow> packets_manager \<Rightarrow> packets_manager option" where
  "packets_manager_add big bs m = do {
     pkt \<leftarrow> decode_packet big bs;
     let pkt1 = set_id_for_events (packet_set_id (packets_count m) pkt);
     Some (m\<lparr>latest_packet := Some pkt1, packets_count := packets_count m + 1\<rparr>)
   }"

record analyzed_channel =
  analyzed_name :: py_string
  analyzed_events :: "decoded_event list list"
  latest_packet_id :: int

definition analyzed_channel_new :: "py_string \<Rightarrow> decoded_event list \<Rightarrow> int \<Rightarrow> analyzed_channel" where
  "analyzed_channel_new name evs i = \<lparr>analyzed_name = name, analyzed_events = [evs], latest_packet_id = i\<rparr>"

definition add_events :: "decoded_event list \<Rightarrow> analyzed_channel \<Rightarrow> analyzed_channel" where
  "add_events evs c = c\<lparr>analyzed_events := analyzed_events c @ [evs]\<rparr>"

definition set_latest_packet_id :: "int \<Rightarrow> analyzed_channel \<Rightarrow> analyzed_channel" where
  "set_latest_packet_id i c = c\<lparr>latest_packet_id := i\<rparr>"

record channels_manager =
  cm_channels :: "analyzed_channel list"
  na_channels :: "py_string list"
  channels_map :: "(py_string \<times> py_string) list"
  update_map :: bool

definition channels_manager_new :: channels_manager where
  "channels_manager_new = \<lparr>cm_channels = [], na_channels = [], channels_map = [], update_map = False\<rparr>"

fun add_receiver_to :: "py_string \<Rightarrow> decoded_event list \<Rightarrow> int \<Rightarrow> analyzed_channel list \<Rightarrow> analyzed_channel list" where
  "add_receiver_to name evs i [] = [analyzed_channel_new name evs i]"
| "add_receiver_to name evs i (c # cs) =
     (if analyzed_name c = name then set_latest_packet_id i (add_events evs c) # cs else c # add_receiver_to name evs i cs)"

definition add_receiver :: "py_string \<Rightarrow> decoded_event list \<Rightarrow> int \<Rightarrow> channels_manager \<Rightarrow> channels_manager" where
  "add_receiver name evs i m = m\<lparr>cm_channels := add_receiver_to name evs i (cm_channels m)\<rparr>"

text \<open>The branch for channels without a sender inside the pipeline is switched off by the first test.\<close>

definition add_to_channels_map :: "py_string \<Rightarrow> py_string \<Rightarrow> int \<Rightarrow> channels_manager \<Rightarrow> channels_manager" where
  "add_to_channels_map receiver sender pushed m =
     (if pushed = 0 \<or> sender = ascii ''N/A'' then m
      else
        let (sender', m1) =
          (if sender = ascii ''N/A''
           then let ext = ascii ''External_'' @ receiver
             in (ext, if ext \<notin> set (na_channels m) then m\<lparr>na_channels := na_channels m @ [ext]\<rparr> else m)
           else (sender,
             if sender \<notin> set (map analyzed_name (cm_channels m))
             then m\<lparr>cm_channels := cm_channels m @ [analyzed_channel_new sender [] (-1)]\<rparr>
             else m))
        in if (sender', receiver) \<notin> set (channels_map m1)
           then m1\<lparr>channels_map := channels_map m1 @ [(sender', receiver)], update_map := True\<rparr>
           else m1)"

definition analyzer_add_packet :: "decoded_packet \<Rightarrow> channels_manager \<Rightarrow> channels_manager" where
  "analyzer_add_packet pkt m =
     (let m1 = add_receiver (packet_receiver pkt) (packet_events pkt) (case packet_number pkt of Some i \<Rightarrow> int i | None \<Rightarrow> -1) m
      in add_to_channels_map (packet_receiver pkt) (packet_get_sender pkt) (get_event_count (ascii ''Packet Pushed'') pkt) m1)"

text \<open>The dictionary maps every name to its index, the last one if there are several; a missing key raises.\<close>

definition name_index :: "py_string list \<Rightarrow> py_string \<Rightarrow> nat option" where
  "name_index names = map_of (rev (zip names [0..<length names]))"

fun resolve :: "py_string list \<Rightarrow> (py_string \<times> py_string) list \<Rightarrow> (nat \<times> nat) list option" where
  "resolve names [] = Some []"
| "resolve names ((s, r) # es) = do {
     i \<leftarrow> name_index names s;
     j \<leftarrow> name_index names r;
     rest \<leftarrow> resolve names es;
     Some ((i, j) # rest)
   }"

definition get_channels_map :: "channels_manager \<Rightarrow> (py_string list \<times> (nat \<times> nat) list) option" where
  "get_channels_map m = do {
     let unique_channels = map analyzed_name (cm_channels m) @ na_channels m;
     connections \<leftarrow> resolve unique_channels (channels_map m);
     Some (unique_channels, connections)
   }"

definition should_update_map :: "channels_manager \<Rightarrow> bool \<times> channels_manager" where
  "should_update_map m = (update_map m, m\<lparr>update_map := False\<rparr>)"

text \<open>The server's handling of one datagram, of which it reads at most 512 bytes.\<close>

definition serve :: "bool \<Rightarrow> byte list \<Rightarrow> packets_manager \<times> channels_manager \<Rightarrow> (packets_manager \<times> channels_manager) option" where
  "serve big datagram s = do {
     let data = take 512 datagram;
     pm \<leftarrow> packets_manager_add big data (fst s);
     pkt \<leftarrow> latest_packet pm;
     Some (pm, analyzer_add_packet pkt (snd s))
   }"

fun serve_all :: "bool \<Rightarrow> byte list list \<Rightarrow> packets_manager \<times> channels_manager \<Rightarrow> (packets_manager \<times> channels_manager) option" where
  "serve_all big [] s = Some s"
| "serve_all big (d # ds) s = do { s1 \<leftarrow> serve big d s; serve_all big ds s1 }"

subsection \<open>The map of the channels\<close>

abbreviation names_of :: "channels_manager \<Rightarrow> py_string list" where
  "names_of m \<equiv> map analyzed_name (cm_channels m)"

text \<open>
  The packets that make an arrow: those that report a push by a sender with a name. \<^verbatim>\<open>N/A\<close> stands for pushes nobody in the
  pipeline has made.
\<close>

definition pushes :: "decoded_packet \<Rightarrow> bool" where
  "pushes pkt \<longleftrightarrow> get_event_count (ascii ''Packet Pushed'') pkt \<noteq> 0 \<and> packet_get_sender pkt \<noteq> ascii ''N/A''"

text \<open>The arrows that the packets stand for.\<close>

definition arrows :: "decoded_packet list \<Rightarrow> (py_string \<times> py_string) set" where
  "arrows pkts = (\<lambda>pkt. (packet_get_sender pkt, packet_receiver pkt)) ` {pkt \<in> set pkts. pushes pkt}"

definition map_ok :: "decoded_packet list \<Rightarrow> channels_manager \<Rightarrow> bool" where
  "map_ok pkts m \<longleftrightarrow> distinct (names_of m) \<and> na_channels m = [] \<and> distinct (channels_map m) \<and>
     set (channels_map m) = arrows pkts \<and> set (names_of m) = packet_receiver ` set pkts \<union> fst ` arrows pkts"

lemma names_add_receiver:
  "map analyzed_name (add_receiver_to name evs i cs) =
     (if name \<in> set (map analyzed_name cs) then map analyzed_name cs else map analyzed_name cs @ [name])"
  by (induction cs) (auto simp: analyzed_channel_new_def add_events_def set_latest_packet_id_def)

lemma add_receiver_fields [simp]:
  "na_channels (add_receiver n evs i m) = na_channels m" "channels_map (add_receiver n evs i m) = channels_map m"
  "update_map (add_receiver n evs i m) = update_map m"
  by (simp_all add: add_receiver_def)

lemma add_arrow:
  assumes "pushed \<noteq> 0" and "s \<noteq> ascii ''N/A''"
  shows "names_of (add_to_channels_map r s pushed m) = (if s \<in> set (names_of m) then names_of m else names_of m @ [s])"
    and "na_channels (add_to_channels_map r s pushed m) = na_channels m"
    and "channels_map (add_to_channels_map r s pushed m) =
      (if (s, r) \<in> set (channels_map m) then channels_map m else channels_map m @ [(s, r)])"
proof -
  let ?m1 = "if s \<notin> set (names_of m) then m\<lparr>cm_channels := cm_channels m @ [analyzed_channel_new s [] (-1)]\<rparr> else m"
  have e: "add_to_channels_map r s pushed m = (if (s, r) \<notin> set (channels_map ?m1)
      then ?m1\<lparr>channels_map := channels_map ?m1 @ [(s, r)], update_map := True\<rparr> else ?m1)"
    using assms by (simp only: add_to_channels_map_def if_False Let_def prod.case simp_thms)
  show "names_of (add_to_channels_map r s pushed m) = (if s \<in> set (names_of m) then names_of m else names_of m @ [s])"
    unfolding e by (simp add: analyzed_channel_new_def)
  show "na_channels (add_to_channels_map r s pushed m) = na_channels m" unfolding e by simp
  show "channels_map (add_to_channels_map r s pushed m) =
      (if (s, r) \<in> set (channels_map m) then channels_map m else channels_map m @ [(s, r)])"
    unfolding e by simp
qed

lemma map_ok_add:
  assumes "map_ok pkts m"
  shows "map_ok (pkts @ [pkt]) (analyzer_add_packet pkt m)"
proof -
  let ?m = "add_receiver (packet_receiver pkt) (packet_events pkt) (case packet_number pkt of Some i \<Rightarrow> int i | None \<Rightarrow> -1) m"
  have n: "names_of ?m = (if packet_receiver pkt \<in> set (names_of m) then names_of m else names_of m @ [packet_receiver pkt])"
    by (simp add: add_receiver_def names_add_receiver)
  have m: "distinct (names_of ?m)" "set (names_of ?m) = insert (packet_receiver pkt) (set (names_of m))"
    using assms unfolding n by (auto simp: map_ok_def)
  have new: "analyzer_add_packet pkt m =
      add_to_channels_map (packet_receiver pkt) (packet_get_sender pkt) (get_event_count (ascii ''Packet Pushed'') pkt) ?m"
    by (simp add: analyzer_add_packet_def Let_def)
  have ar: "arrows (pkts @ [pkt]) =
      (if pushes pkt then insert (packet_get_sender pkt, packet_receiver pkt) (arrows pkts) else arrows pkts)"
    by (auto simp: arrows_def)
  show ?thesis
  proof (cases "pushes pkt")
    case False
    then have "analyzer_add_packet pkt m = ?m" by (simp add: new add_to_channels_map_def pushes_def)
    with assms m ar False show ?thesis by (auto simp: map_ok_def simp del: list.set_map)
  next
    case True
    let ?s = "packet_get_sender pkt" and ?r = "packet_receiver pkt"
    from True have p: "get_event_count (ascii ''Packet Pushed'') pkt \<noteq> 0" "?s \<noteq> ascii ''N/A''" by (simp_all add: pushes_def)
    note a = add_arrow [OF p, of ?r ?m, folded new]
    have old: "na_channels m = []" "distinct (channels_map m)" "set (channels_map m) = arrows pkts"
      "set (names_of m) = packet_receiver ` set pkts \<union> fst ` arrows pkts"
      using assms by (simp_all add: map_ok_def)
    have "set (names_of (analyzer_add_packet pkt m)) = insert ?s (insert ?r (set (names_of m)))"
      unfolding a(1) using m(2) by auto
    moreover have "distinct (names_of (analyzer_add_packet pkt m))" unfolding a(1) using m(1) by simp
    moreover have "set (channels_map (analyzer_add_packet pkt m)) = insert (?s, ?r) (arrows pkts)" unfolding a(3) using old(3) by auto
    moreover have "distinct (channels_map (analyzer_add_packet pkt m))" unfolding a(3) using old(2) by simp
    ultimately show ?thesis unfolding map_ok_def ar using a(2) True old(1,4) by auto
  qed
qed

lemma map_ok_fold: "map_ok pkts (fold analyzer_add_packet pkts channels_manager_new)"
proof (induction pkts rule: rev_induct)
  case Nil
  show ?case by (simp add: map_ok_def channels_manager_new_def arrows_def)
next
  case (snoc pkt pkts)
  from map_ok_add [OF this] show ?case by simp
qed

lemma name_index_distinct:
  assumes "distinct names" and "s \<in> set names"
  shows "\<exists>i. name_index names s = Some i \<and> i < length names \<and> names ! i = s"
proof -
  from assms(2) obtain i where i: "i < length names" "names ! i = s" by (auto simp: in_set_conv_nth)
  have "distinct (map fst (rev (zip names [0..<length names])))" using assms(1) by (simp add: rev_map [symmetric])
  moreover have "(s, i) \<in> set (rev (zip names [0..<length names]))" using i by (auto simp: set_zip)
  ultimately have "name_index names s = Some i" unfolding name_index_def by simp
  with i show ?thesis by blast
qed

lemma resolve_ok:
  assumes "distinct names" and "\<forall>(s, r)\<in>set es. s \<in> set names \<and> r \<in> set names"
  shows "\<exists>cs. resolve names es = Some cs \<and> map (\<lambda>(i, j). (names ! i, names ! j)) cs = es"
  using assms(2)
proof (induction es)
  case (Cons e es)
  obtain s r where e: "e = (s, r)" by (cases e)
  with Cons.prems have sr: "s \<in> set names" "r \<in> set names" by auto
  from name_index_distinct [OF assms(1) sr(1)] name_index_distinct [OF assms(1) sr(2)] obtain i j where
    ij: "name_index names s = Some i" "names ! i = s" "name_index names r = Some j" "names ! j = r" by blast
  have "\<forall>(s, r)\<in>set es. s \<in> set names \<and> r \<in> set names" using Cons.prems by auto
  from Cons.IH [OF this] obtain cs where cs: "resolve names es = Some cs" "map (\<lambda>(i, j). (names ! i, names ! j)) cs = es" by blast
  show ?case by (intro exI [of _ "(i, j) # cs"]) (simp add: e ij cs)
qed simp

lemma arrows_ends: "(s, r) \<in> arrows pkts \<Longrightarrow> s \<in> fst ` arrows pkts \<and> r \<in> packet_receiver ` set pkts"
  by (force simp: arrows_def)

lemma map_ok_resolves:
  assumes "map_ok pkts m"
  shows "\<exists>cs. get_channels_map m = Some (names_of m, cs) \<and> map (\<lambda>(i, j). (names_of m ! i, names_of m ! j)) cs = channels_map m"
proof -
  have m: "distinct (names_of m)" "na_channels m = []" "set (channels_map m) = arrows pkts"
      "set (names_of m) = packet_receiver ` set pkts \<union> fst ` arrows pkts"
    using assms by (simp_all add: map_ok_def)
  have "\<forall>(s, r)\<in>set (channels_map m). s \<in> set (names_of m) \<and> r \<in> set (names_of m)"
    unfolding m(3,4) using arrows_ends [of _ _ pkts] by blast
  from resolve_ok [OF m(1) this] m(2) show ?thesis by (auto simp: get_channels_map_def)
qed

subsection \<open>From the profiler to the map\<close>

lemma ascii_inject [simp]: "ascii s = ascii t \<longleftrightarrow> s = t"
  by (simp add: ascii_def inj_map_eq_map inj_on_def)

definition pushed_count :: "profile_data \<Rightarrow> int" where
  "pushed_count d = (case aggregate_of d EventPushed of Some a \<Rightarrow> log_count a | None \<Rightarrow> 0)"

lemma type_of_event: "e \<in> library_events \<Longrightarrow> event_get_type (event_of E k e a) = ascii (event_text e)"
  by (auto simp: library_events_def event_get_type_def event_of_def Event_new_def ascii_def kMaxNameLength_def)

lemma pushed_text: "e \<in> library_events \<Longrightarrow> event_text e = ''Packet Pushed'' \<longleftrightarrow> e = EventPushed"
  by (auto simp: library_events_def)

lemma find_count_pushed:
  assumes "fst ` set as \<subseteq> library_events" and "distinct (map fst as)"
  shows "find_count (ascii ''Packet Pushed'') (events_of E k as) = (case map_of as EventPushed of Some a \<Rightarrow> log_count a | None \<Rightarrow> 0)"
  using assms
proof (induction E k as rule: events_of.induct)
  case (2 E k e a as)
  then have e: "e \<in> library_events" by simp
  have "map_of as EventPushed = None" if "e = EventPushed" using "2.prems"(2) that by (simp add: map_of_eq_None_iff)
  moreover have "event_log_count (event_of E k e a) = log_count a" by (simp add: event_of_def Event_new_def)
  ultimately show ?case using 2 type_of_event [OF e, of E k a] pushed_text [OF e] by (cases "e = EventPushed") simp_all
qed simp

lemma set_id_fields [simp]:
  "packet_receiver (set_id_for_events p) = packet_receiver p" "packet_get_sender (set_id_for_events p) = packet_get_sender p"
  "packet_receiver (packet_set_id i p) = packet_receiver p" "packet_get_sender (packet_set_id i p) = packet_get_sender p"
  "get_event_count ty (packet_set_id i p) = get_event_count ty p" "get_event_count ty (set_id_for_events p) = get_event_count ty p"
proof -
  have "find_count ty (map (\<lambda>e. e\<lparr>event_packet_id := n\<rparr>) es) = find_count ty es" for n es
    by (induction es) (simp_all add: event_get_type_def)
  then show "get_event_count ty (set_id_for_events p) = get_event_count ty p"
    by (simp add: get_event_count_def set_id_for_events_def)
qed (simp_all add: set_id_for_events_def packet_set_id_def packet_get_sender_def get_event_count_def)

lemma packet_of_fields:
  assumes "reports_readable E d"
  shows "packet_get_sender (packet_of E k d) = ascii (top_sender E d)"
    and "packet_receiver (packet_of E k d) = ascii (take kMaxNameLength (text_at E (data_group_name d)))"
    and "get_event_count (ascii ''Packet Pushed'') (packet_of E k d) = pushed_count d"
  using assms find_count_pushed [of "aggregates d" E k]
  by (simp_all add: packet_of_def packet_get_sender_def ascii_def get_event_count_def pushed_count_def aggregate_of_def
      reports_readable_def profile_ok_def)

definition numbered :: "serial_env \<Rightarrow> profile_data \<Rightarrow> decoded_packet \<Rightarrow> bool" where
  "numbered E d pkt \<longleftrightarrow> (\<exists>i k. pkt = set_id_for_events (packet_set_id i (packet_of E k d)))"

lemma serve_all_ok:
  assumes "list_all2 (read_back E big) ds bufs" and "buffer_cap E \<le> 512"
  shows "\<exists>pm' pkts. serve_all big bufs (pm, cm) = Some (pm', fold analyzer_add_packet pkts cm) \<and>
    packets_count pm' = packets_count pm + length bufs \<and> list_all2 (numbered E) ds pkts"
  using assms(1)
proof (induction arbitrary: pm cm rule: list_all2_induct)
  case Nil
  show ?case by (rule exI [of _ pm], rule exI [of _ "[]"]) simp
next
  case (Cons d ds b bufs)
  from Cons.hyps(1) obtain k where b: "length b \<le> 512" "decode_packet big b = Some (packet_of E k d)"
    using assms(2) by (auto simp: read_back_def)
  let ?pkt = "set_id_for_events (packet_set_id (packets_count pm) (packet_of E k d))"
  let ?pm = "pm\<lparr>latest_packet := Some ?pkt, packets_count := packets_count pm + 1\<rparr>"
  have s: "serve big b (pm, cm) = Some (?pm, analyzer_add_packet ?pkt cm)"
    using b by (simp add: serve_def packets_manager_add_def Let_def)
  from Cons.IH [of ?pm "analyzer_add_packet ?pkt cm"] obtain pm' pkts where
    r: "serve_all big bufs (?pm, analyzer_add_packet ?pkt cm) = Some (pm', fold analyzer_add_packet pkts (analyzer_add_packet ?pkt cm))"
      "packets_count pm' = packets_count ?pm + length bufs" "list_all2 (numbered E) ds pkts" by blast
  have "numbered E d ?pkt" unfolding numbered_def by blast
  with s r show ?case by (intro exI [of _ pm'] exI [of _ "?pkt # pkts"]) simp
qed

lemma arrows_numbered:
  assumes "list_all2 (numbered E) ds pkts" and "\<forall>d\<in>set ds. reports_readable E d"
  shows "arrows pkts = (\<lambda>d. (ascii (top_sender E d), ascii (take kMaxNameLength (text_at E (data_group_name d))))) `
    {d \<in> set ds. pushed_count d \<noteq> 0 \<and> top_sender E d \<noteq> ''N/A''}"
  using assms
proof (induction rule: list_all2_induct)
  case Nil
  show ?case by (simp add: arrows_def)
next
  case (Cons d ds pkt pkts)
  from Cons.hyps(1) obtain i k where pkt: "pkt = set_id_for_events (packet_set_id i (packet_of E k d))" by (auto simp: numbered_def)
  have d: "reports_readable E d" using Cons.prems by simp
  have "pushes pkt \<longleftrightarrow> pushed_count d \<noteq> 0 \<and> top_sender E d \<noteq> ''N/A''"
    by (simp add: pushes_def pkt packet_of_fields [OF d])
  moreover have "packet_get_sender pkt = ascii (top_sender E d)"
    "packet_receiver pkt = ascii (take kMaxNameLength (text_at E (data_group_name d)))"
    by (simp_all add: pkt packet_of_fields [OF d])
  moreover have "arrows (pkt # pkts) = (if pushes pkt then insert (packet_get_sender pkt, packet_receiver pkt) (arrows pkts) else arrows pkts)"
    by (auto simp: arrows_def)
  ultimately show ?case using Cons.IH Cons.prems by auto
qed

lemma singletons: "list_all2 (\<lambda>bufs d. \<exists>b. bufs = [b] \<and> R d b) bufss ds \<Longrightarrow> list_all2 R ds (concat bufss)"
  by (induction rule: list_all2_induct) auto

subsection \<open>Properties\<close>

text \<open>
  C38: From the profiler to the picture of the pipeline. A profiler sends over UDP with a buffer of 448 to 512 bytes
  (508 unless the user says otherwise), the channels log the six event types of the library, names are ASCII and
  aggregates in range. Then a pass sends one datagram per channel; the analyzer, on a machine of any byte order, decodes
  each of them into the name of its channel, the most frequent sender and one event for each aggregate that is not empty,
  with its type, count, time and the very doubles; it serves all of them without an exception, and the map it draws has
  an arrow from a sender to a channel exactly for the channels into which something was pushed by a thread with a name.
\<close>

theorem profiler_to_analyzer:
  assumes "profiler_obj p = Some (i, Bound_SendToUDP u)" and "IsConnected u"
    and "448 \<le> buffer_size i" and "buffer_size i \<le> 512" and "buffer_size i \<le> max_packet_size u"
    and "\<forall>a\<in>set (profile_list i). reports_readable E (mem a)"
    and "distinct (profile_list i)" and "next_profile_data i = -1" and "0 < fuel"
  shows "\<exists>bufs mem' w' pm cm. profiler_GatherNSend fuel E k fw p mem w = Some (p, mem', w') \<and>
    datagrams (network w') = datagrams (network w) @ map (Pair (remote_address u)) bufs \<and>
    list_all2 (\<lambda>d b. \<exists>k. decode_packet big b = Some (packet_of E k d)) (map mem (profile_list i)) bufs \<and>
    serve_all big bufs (packets_manager_new, channels_manager_new) = Some (pm, cm) \<and>
    packets_count pm = 1 + length (profile_list i) \<and> distinct (channels_map cm) \<and>
    set (channels_map cm) = (\<lambda>d. (ascii (top_sender E d), ascii (take kMaxNameLength (text_at E (data_group_name d))))) `
      {d \<in> mem ` set (profile_list i). pushed_count d \<noteq> 0 \<and> top_sender E d \<noteq> ''N/A''}"
proof -
  let ?E = "E\<lparr>buffer_cap := nat (buffer_size i)\<rparr>"
  have rr: "reports_readable ?E d = reports_readable E d" for d by (simp add: reports_readable_def)
  have cap: "448 \<le> buffer_cap ?E" "buffer_cap ?E \<le> 512" using assms(3,4) by simp_all
  have each: "\<forall>a\<in>set (profile_list i). \<forall>k. \<exists>bufs k' d. send_data fuel ?E k (mem a) = Some (bufs, k', d) \<and>
      (\<exists>b. bufs = [b] \<and> read_back ?E big (mem a) b) \<and> emptied (mem a) d"
    using assms(6) send_data_read_back [OF _ cap(1) assms(9)] rr by blast
  have fits: "\<forall>bufs d. (\<exists>b. bufs = [b] \<and> read_back ?E big d b) \<longrightarrow> (\<forall>b\<in>set bufs. 0 < length b \<and> int (length b) \<le> max_packet_size u)"
    using assms(3,5) by (auto simp: read_back_def)
  from udp_pass_each [OF assms(1,2) each fits assms(7,8), of k fw w] obtain bufss mem' w' where
    g: "profiler_GatherNSend fuel E k fw p mem w = Some (p, mem', w')"
      "datagrams (network w') = datagrams (network w) @ map (Pair (remote_address u)) (concat bufss)"
      "list_all2 (\<lambda>bufs d. \<exists>b. bufs = [b] \<and> read_back ?E big d b) bufss (map mem (profile_list i))" by blast
  from singletons [OF g(3)] have rb: "list_all2 (read_back ?E big) (map mem (profile_list i)) (concat bufss)" .
  then have dec: "list_all2 (\<lambda>d b. \<exists>k. decode_packet big b = Some (packet_of E k d)) (map mem (profile_list i)) (concat bufss)"
    by (rule list_all2_mono) (simp add: read_back_def)
  from serve_all_ok [OF rb cap(2), of packets_manager_new channels_manager_new] obtain pm pkts where
    s: "serve_all big (concat bufss) (packets_manager_new, channels_manager_new) = Some (pm, fold analyzer_add_packet pkts channels_manager_new)"
      "packets_count pm = packets_count packets_manager_new + length (concat bufss)" "list_all2 (numbered ?E) (map mem (profile_list i)) pkts"
    by blast
  have "numbered ?E = numbered E" by (intro ext) (simp add: numbered_def)
  with s(3) have "list_all2 (numbered E) (map mem (profile_list i)) pkts" by simp
  from arrows_numbered [OF this] assms(6)
  have "arrows pkts = (\<lambda>d. (ascii (top_sender E d), ascii (take kMaxNameLength (text_at E (data_group_name d))))) `
      {d \<in> mem ` set (profile_list i). pushed_count d \<noteq> 0 \<and> top_sender E d \<noteq> ''N/A''}" by simp
  moreover have "packets_count pm = 1 + length (profile_list i)"
    using s(2) list_all2_lengthD [OF rb] by (simp add: packets_manager_new_def)
  moreover have "distinct (channels_map (fold analyzer_add_packet pkts channels_manager_new))"
    "set (channels_map (fold analyzer_add_packet pkts channels_manager_new)) = arrows pkts"
    using map_ok_fold [of pkts] by (simp_all add: map_ok_def)
  ultimately show ?thesis using g(1,2) dec s(1) by (intro exI [of _ "concat bufss"] exI [of _ mem'] exI [of _ w'] exI [of _ pm]
        exI [of _ "fold analyzer_add_packet pkts channels_manager_new"] conjI) simp_all
qed

definition ex_texts :: "cptr \<Rightarrow> string" where
  "ex_texts p = (if p = 6 then ''grabber'' else ''video'')"

definition ex_pushing :: "addr \<Rightarrow> profile_data" where
  "ex_pushing a = \<lparr>data_group_name = a,
     aggregates = [(EventPushed, aggregate_log id 2 (aggregate_clear 0 (aggregate_new 0))), (EventFillTime, aggregate_clear 0 (aggregate_new 0))],
     sender_log = \<lparr>track_event = EventPushed, senders = [\<lparr>sender_name = 6, sent_packets = 1\<rparr>, no_sender, no_sender, no_sender]\<rparr>,
     serialize_next = 2\<rparr>"

definition ex_reports :: serial_env where
  "ex_reports = ex_env\<lparr>text_at := ex_texts\<rparr>"

lemma ex_pushing_sender: "top_sender ex_reports (ex_pushing a) = ''grabber''"
  by (simp add: top_sender_def ex_pushing_def GetTopSender_def partial_sort_first_def sender_less_def no_sender_def ex_reports_def ex_texts_def
      nullptr_def kMaxSenderNameLength_def)

lemma ex_pushing_ok: "reports_readable ex_reports (ex_pushing a)" "pushed_count (ex_pushing a) = 1"
  using ex_pushing_sender [of a]
  by (simp_all add: reports_readable_def names_readable_def)
    (simp_all add: profile_ok_def ex_pushing_def library_events_def
      kMaxSenders_def ex_reports_def ex_env_def ex_texts_def in_range_def pushed_count_def aggregate_of_def)

theorem profiler_to_analyzer_witness:
  "\<exists>p mem' w' bufs pm cm. profiler_GatherNSend 3 ex_reports 0 length p ex_pushing ex_io = Some (p, mem', w') \<and>
     datagrams (network w') = map (Pair (remote_address ex_udp)) bufs \<and>
     serve_all False bufs (packets_manager_new, channels_manager_new) = Some (pm, cm) \<and>
     set (channels_map cm) = {(ascii ''grabber'', ascii ''video'')}"
proof -
  let ?p = "\<lparr>profiler_obj = Some (ex_profiler 508, Bound_SendToUDP ex_udp), destination_file = None, udp_conn = Some ex_udp\<rparr>"
  have u: "IsConnected ex_udp" "508 \<le> max_packet_size ex_udp" by (simp_all add: IsConnected_def ex_udp_def)
  have i: "448 \<le> buffer_size (ex_profiler 508)" "buffer_size (ex_profiler 508) \<le> 512" "buffer_size (ex_profiler 508) \<le> max_packet_size ex_udp"
    "\<forall>a\<in>set (profile_list (ex_profiler 508)). reports_readable ex_reports (ex_pushing a)" "distinct (profile_list (ex_profiler 508))"
    "next_profile_data (ex_profiler 508) = -1" "profile_list (ex_profiler 508) = [3]"
    using u(2) ex_pushing_ok by (simp_all add: ex_profiler_def)
  from profiler_to_analyzer [of ?p "ex_profiler 508" ex_udp ex_reports ex_pushing 3 0 length ex_io False] u(1) i
  obtain bufs mem' w' pm cm where
    g: "profiler_GatherNSend 3 ex_reports 0 length ?p ex_pushing ex_io = Some (?p, mem', w')"
      "datagrams (network w') = datagrams (network ex_io) @ map (Pair (remote_address ex_udp)) bufs"
      "serve_all False bufs (packets_manager_new, channels_manager_new) = Some (pm, cm)"
      "set (channels_map cm) = (\<lambda>d. (ascii (top_sender ex_reports d), ascii (take kMaxNameLength (text_at ex_reports (data_group_name d))))) `
        {d \<in> ex_pushing ` set [3]. pushed_count d \<noteq> 0 \<and> top_sender ex_reports d \<noteq> ''N/A''}" by auto
  have "{d \<in> ex_pushing ` set [3]. pushed_count d \<noteq> 0 \<and> top_sender ex_reports d \<noteq> ''N/A''} = {ex_pushing 3}"
    using ex_pushing_ok ex_pushing_sender by auto
  then have "set (channels_map cm) = {(ascii ''grabber'', ascii ''video'')}"
    using g(4) ex_pushing_sender by (simp add: ex_pushing_def ex_reports_def ex_texts_def kMaxNameLength_def)
  with g(1-3) show ?thesis by (intro exI [of _ ?p] exI) (auto simp: ex_io_def)
qed

text \<open>
  C39: The map of the analyzer is consistent whatever packets come in. Its channels have distinct names, which are the
  receivers of all packets and the senders of those that report a push by a named sender, one that is not "N/A"; its arrows are, without
  repetition, the pairs of sender and receiver of exactly the packets that report a push by a named sender. Packets that report a
  push by "N/A" add no arrow and no external channel, because the first test of add_to_channels_map returns before
  the branch that is there for them. Turning the arrows into pairs of indexes never fails on a missing name and names the
  right channels.
\<close>

theorem analyzer_map_consistent:
  "let m = fold analyzer_add_packet pkts channels_manager_new in
    distinct (names_of m) \<and> set (names_of m) = packet_receiver ` set pkts \<union> fst ` arrows pkts \<and>
    distinct (channels_map m) \<and>
    set (channels_map m) = {(packet_get_sender pkt, packet_receiver pkt) |pkt. pkt \<in> set pkts \<and>
      get_event_count (ascii ''Packet Pushed'') pkt \<noteq> 0 \<and> packet_get_sender pkt \<noteq> ascii ''N/A''} \<and>
    na_channels m = [] \<and>
    (\<exists>cs. get_channels_map m = Some (names_of m, cs) \<and> map (\<lambda>(i, j). (names_of m ! i, names_of m ! j)) cs = channels_map m)"
proof -
  have "arrows pkts = {(packet_get_sender pkt, packet_receiver pkt) |pkt. pkt \<in> set pkts \<and>
      get_event_count (ascii ''Packet Pushed'') pkt \<noteq> 0 \<and> packet_get_sender pkt \<noteq> ascii ''N/A''}"
    by (auto simp: arrows_def pushes_def)
  with map_ok_fold [of pkts] map_ok_resolves [OF map_ok_fold [of pkts]] show ?thesis unfolding map_ok_def Let_def by auto
qed

text \<open>
  C40: A channel whose report does not fit into one datagram is misread. The buffers of a pass after the first have a
  header and entries but no sender. With less than 128 events in each aggregate, the analyzer raises an exception on such
  a datagram, and so stops, if it holds no or one entry; otherwise it takes the type of the first event for the sender of
  the packets, reports an event that nobody logged in its place, cuts the first letter off the type of the second one,
  and reads the rest as it should.
\<close>

theorem later_buffer_misread:
  assumes "profile_ok d" and "serialize_next d < length (aggregates d)" and "128 \<le> buffer_cap E"
    and "readable (text_at E (data_group_name d))" and "presentable E k (drop (serialize_next d) (aggregates d))"
    and "\<forall>(e, a)\<in>set (aggregates d). log_count a < 128"
  shows "\<exists>buf again k' d'. GatherNSerialize E k d = Some (buf, again, k', d') \<and>
    (case events_of E k (take (serialize_next d' - serialize_next d) (drop (serialize_next d) (aggregates d))) of
      ev1 # ev2 # evs \<Rightarrow> \<exists>pkt g. decode_packet big buf = Some pkt \<and> packet_get_sender pkt = event_get_type ev1 \<and>
        packet_events pkt = g # ev2\<lparr>raw_type := tl (raw_type ev2)\<rparr> # evs
    | _ \<Rightarrow> decode_packet big buf = None)"
proof -
  have s: "start_of d = serialize_next d" "serialize_next d \<noteq> length (aggregates d)" using assms(2) by (simp_all add: start_of_def)
  let ?as = "drop (serialize_next d) (aggregates d)"
  have "timely E k (drop (start_of d) (aggregates d))" unfolding s(1) using assms(5) by (rule presentable_timely)
  from GatherNSerialize_ok [OF assms(1,3) this] s obtain n d' where
    g: "GatherNSerialize E k d = Some (group_header E d @ report E k (take n ?as), serialize_next d + n \<noteq> length (aggregates d), k + 2 * n, d')"
      "serialize_next d' = serialize_next d + n" by auto
  have "\<forall>(e, a)\<in>set (take n ?as). log_count a < 128" using assms(6) by (auto dest!: in_set_takeD in_set_dropD)
  from decode_later [OF assms(4) presentable_take [OF assms(5)] events_of_counts [OF this], of big] g show ?thesis by auto
qed

definition ex_later :: profile_data where
  "ex_later = \<lparr>data_group_name = 3,
     aggregates = [(EventPushed, aggregate_clear 0 (aggregate_new 0)),
       (EventFillTime, aggregate_log id 2 (aggregate_clear 0 (aggregate_new 0))),
       (EventReadTime, aggregate_log id 3 (aggregate_clear 0 (aggregate_new 0)))],
     sender_log = sender_logger_new EventPushed, serialize_next = 1\<rparr>"

lemma ex_later_ok:
  "profile_ok ex_later" "presentable (ex_reports\<lparr>buffer_cap := 508\<rparr>) 0 (drop 1 (aggregates ex_later))"
  "serialize_next ex_later = 1" "length (aggregates ex_later) = 3" "readable (text_at (ex_reports\<lparr>buffer_cap := 508\<rparr>) (data_group_name ex_later))"
  "\<forall>(e, a)\<in>set (aggregates ex_later). log_count a < 128"
  "events_of (ex_reports\<lparr>buffer_cap := 508\<rparr>) 0 (drop 1 (aggregates ex_later)) =
     [event_of ex_reports 0 EventFillTime (aggregate_log id 2 (aggregate_clear 0 (aggregate_new 0))),
      event_of ex_reports 2 EventReadTime (aggregate_log id 3 (aggregate_clear 0 (aggregate_new 0)))]"
  by (simp_all add: ex_later_def profile_ok_def sender_logger_new_def ClearTopSenders_def in_range_def ex_reports_def ex_env_def
      ex_texts_def event_of_def numeral_2_eq_2)

lemma ex_later_whole:
  assumes "GatherNSerialize (ex_reports\<lparr>buffer_cap := 508\<rparr>) 0 ex_later = Some (buf, again, k', d')"
  shows "serialize_next d' = 3"
proof -
  let ?E = "ex_reports\<lparr>buffer_cap := 508\<rparr>"
  have s: "start_of ex_later = 1" using ex_later_ok by (simp add: start_of_def)
  then have t: "timely ?E 0 (drop (start_of ex_later) (aggregates ex_later))" using presentable_timely ex_later_ok(2) by simp
  have "128 \<le> buffer_cap ?E" by simp
  from GatherNSerialize_ok [OF ex_later_ok(1) this t] assms ex_later_ok(3,4) s obtain n where
    n: "serialize_next d' = 1 + n" "1 + n \<le> 3"
      "n < 2 \<longrightarrow> 444 < int (length (group_header ?E ex_later @ report ?E 0 (take n (drop 1 (aggregates ex_later)))))" by auto
  have "timely ?E 0 (take n (drop 1 (aggregates ex_later)))"
    using presentable_timely [OF presentable_take [OF ex_later_ok(2)]] .
  from length_report [OF this] have "length (report ?E 0 (take n (drop 1 (aggregates ex_later)))) \<le> 64 * n"
    by (rule order_trans) simp
  then have "\<not> n < 2" using n(3) length_group_header(1) [of ?E ex_later] by auto
  with n(1,2) show ?thesis by simp
qed

theorem later_buffer_misread_witness:
  "\<exists>buf again k' d' pkt. GatherNSerialize (ex_reports\<lparr>buffer_cap := 508\<rparr>) 0 ex_later = Some (buf, again, k', d') \<and>
     decode_packet False buf = Some pkt \<and> packet_get_sender pkt = ascii ''Fill Time'' \<and> length (packet_events pkt) = 2 \<and>
     event_get_type (packet_events pkt ! 1) = ascii ''ead Time''"
proof -
  let ?E = "ex_reports\<lparr>buffer_cap := 508\<rparr>"
  have "serialize_next ex_later < length (aggregates ex_later)" "128 \<le> buffer_cap ?E" using ex_later_ok(3,4) by simp_all
  from later_buffer_misread [OF ex_later_ok(1) this ex_later_ok(5) ex_later_ok(2) [folded ex_later_ok(3)] ex_later_ok(6), of False]
  obtain buf again k' d' where b: "GatherNSerialize ?E 0 ex_later = Some (buf, again, k', d')"
    "case events_of ?E 0 (take (serialize_next d' - serialize_next ex_later) (drop (serialize_next ex_later) (aggregates ex_later))) of
      ev1 # ev2 # evs \<Rightarrow> \<exists>pkt g. decode_packet False buf = Some pkt \<and> packet_get_sender pkt = event_get_type ev1 \<and>
        packet_events pkt = g # ev2\<lparr>raw_type := tl (raw_type ev2)\<rparr> # evs
    | _ \<Rightarrow> decode_packet False buf = None" by blast
  have all: "take (serialize_next d' - serialize_next ex_later) (drop (serialize_next ex_later) (aggregates ex_later)) =
      drop 1 (aggregates ex_later)"
    using ex_later_whole [OF b(1)] ex_later_ok(3,4) by simp
  obtain pkt g where "decode_packet False buf = Some pkt"
    "packet_get_sender pkt = event_get_type (event_of ex_reports 0 EventFillTime (aggregate_log id 2 (aggregate_clear 0 (aggregate_new 0))))"
    "packet_events pkt = [g, (event_of ex_reports 2 EventReadTime (aggregate_log id 3 (aggregate_clear 0 (aggregate_new 0))))
       \<lparr>raw_type := tl (raw_type (event_of ex_reports 2 EventReadTime (aggregate_log id 3 (aggregate_clear 0 (aggregate_new 0)))))\<rparr>]"
    using b(2) unfolding all ex_later_ok(7) by auto
  with b(1) show ?thesis
    by (auto simp: event_get_type_def event_of_def Event_new_def ascii_def kMaxNameLength_def)
qed

end
