(* ===== verification/Spec2Isabelle.thy ===== *)
theory Spec2Isabelle
  imports Distributed Api_Steps Lock_Discipline Abstract_Scheduler Whole_Life Spin_Lock Attribution Log_Analyzer
begin

text \<open>
  PipeRT (\<^verbatim>\<open>src/\<close>, \<^verbatim>\<open>include/pipert/\<close>): a library for dataflow pipelines on one
  computer or several. Users put packets with timestamps into channels; channels with a callback are
  served by the workers of a scheduler, always the earliest packet first, and channels of the same
  stateful node never at the same time; the others are polled. Logged events of every channel are aggregated and sent to a
  file or over UDP.

  Parts and how they interact. A user holds a \<^verbatim>\<open>Scheduler\<close> and channel objects (\<^verbatim>\<open>Channel\<close> and its
  subclasses) and packet stubs. Each channel object owns a \<^verbatim>\<open>ChannelImpl\<close> with its pool of packets, a stack
  of free ones and a heap of queued ones. When the front of that heap changes, the channel notifies the
  \<^verbatim>\<open>SchedulerImpl\<close>, which keeps one heap of channels per stateful object (the null object stands for all
  stateless nodes) and one heap of those states; the workers take their jobs from there. Every event is
  logged into a \<^verbatim>\<open>ProfileData\<close>, which the thread of \<^verbatim>\<open>ProfilerImpl\<close> collects and hands to
  \<^verbatim>\<open>Profiler\<close>. A \<^verbatim>\<open>SenderChannel\<close> sends its packets through a \<^verbatim>\<open>UDPConnection\<close> to a
  \<^verbatim>\<open>Receiver\<close> on another computer; a handshake (\<^verbatim>\<open>Protocol\<close>) comes first.

  Theories and sources, bottom up.

  \<^item> Basics. \<open>Pipert_Prelude\<close>: addresses, the failure monad, lists. \<open>Pipert_Timer\<close>: \<^verbatim>\<open>Timer\<close>. \<open>Log_Event\<close>: the
    event types and their registry. \<open>Byte_Order\<close>: \<^verbatim>\<open>Endianness\<close>. \<open>C_Strings\<close>: the C string functions that
    the code calls.
  \<^item> Job queues. \<open>Steady_Heap\<close>: \<^verbatim>\<open>SteadyHeap.h\<close>. \<open>Channel_Data\<close>: the state of \<^verbatim>\<open>ChannelImpl\<close> and the operations that
    stay inside it. \<open>Scheduler_Impl\<close>: state, notifications and life cycle of \<^verbatim>\<open>SchedulerImpl\<close>. \<open>Channel_Impl\<close>: Push,
    PopNext, GetNext, Release, Acquire, Execute. \<open>Run_Tasks\<close>: the two sections of the worker's loop.
    \<open>Worker_Loop\<close>: the loop itself, with fuel.
  \<^item> The running system. \<open>Concurrency\<close>: any number of workers and user threads as a step relation; \<open>Life_Cycle\<close>:
    construction, Start, Stop, destruction. \<open>Whole_Life\<close>: all of this in any order that the library allows.
    \<open>Lock_Discipline\<close>: which mutex protects which section. \<open>Spin_Lock\<close>: \<^verbatim>\<open>AdaptiveSpinLock\<close>, with threads
    in the waiting loop of \<^verbatim>\<open>lock\<close>.
  \<^item> Profiling. \<open>Log_Aggregate\<close>, \<open>Thread_Id\<close>, \<open>Sender_Logger\<close>, \<open>Profile_Data\<close>, \<open>Profiler_Impl\<close>, \<open>Profiler_Facade\<close> (class
    \<^verbatim>\<open>Profiler\<close>): the classes of the same names. \<open>Attribution\<close>: the names that workers take from the channels they
    serve, and what is counted under them.
  \<^item> Network. \<open>UDP_Connection\<close>, \<open>Handshake_Protocol\<close> (\<^verbatim>\<open>Protocol\<close> and the bytes of \<^verbatim>\<open>NetworkPacket\<close>).
  \<^item> The log analyzer, a Python program in \<^verbatim>\<open>log_analyzer/src\<close> that receives what a profiler sends.
    \<open>Packet_Decoder\<close>: \<^verbatim>\<open>packet_decoder.py\<close> and the classes it fills. \<open>Packet_Reading\<close>: what it reads out of the
    datagrams of a \<open>ProfileData\<close>. \<open>Log_Analyzer\<close>: its managers of packets and channels.
  \<^item> What users see. \<open>Channel_Facade\<close>: \<^verbatim>\<open>ChannelBase\<close>, \<^verbatim>\<open>Channel\<close> and its three subclasses, the packet stubs.
    \<open>Scheduler_Facade\<close>: \<^verbatim>\<open>Scheduler\<close> and \<^verbatim>\<open>Receiver\<close>. \<open>Dataflow\<close>: the worker's loop again, with the
    objects that its callbacks see. \<open>Distributed\<close>: two computers. \<open>Api_Steps\<close>: the calls of user threads as steps.

  What the lemmas show.

  \<^item> \<open>Steady_Heap\<close>, \<open>Scheduler_Inv\<close>, \<open>Channel_Ops\<close>, \<open>Run_Tasks\<close>: the invariant \<open>pipeline_inv\<close> (heaps are in order for the
    current keys, a state's heap holds exactly the channels with work, the state queue exactly the enabled states with
    work, pools are shared out without overlap) and that every operation keeps it, fails no assertion and moves exactly the
    packets it should. The locale \<open>rekey_queue\<close> is what the scheduler needs of a heap whose keys
    change under it; \<open>SteadyHeap\<close> provides it.
  \<^item> \<open>Concurrency_Inv\<close>: the invariant of every reachable state of the running system; from it no lost work, mutual
    exclusion, conservation of packets and no failing assertion. \<open>Abstract_Scheduler\<close>: a specification without heaps and
    flags which every step refines. \<open>Memory_Bounds\<close>: no vector grows while the system runs.
    \<open>Progress\<close>: queued work keeps a worker going, and a stop ends (as far as callbacks return). \<open>Whole_Life\<close>: every
    program that uses the operations of the library and keeps to its rules (no packets from the future, channel objects constructed and
    moved only while nothing runs, no scheduled channel destroyed with packets in its queue) is always in such a state, or in one from
    which Start leads to one.
  \<^item> \<open>Worker_Loop\<close>: in the locale \<open>quiet_callback\<close> (callbacks that only consume their packet) one worker drains the
    whole pipeline in order; the code's own callback that lets its stub go out of scope provides it.
  \<^item> Profiling: a \<open>ProfileData\<close> refines the list of logged events; what is sent is the complete serialization; pushes are attributed to the channel whose callback makes them; bounds of the
    buffers. Network: agreement of the handshake, round trips of bytes, one hop of a packet from a sender channel to a
    channel behind a receiver. \<open>Log_Analyzer\<close>: the analyzer reads what the profiler has written, from the aggregates of the
    channels to the map that it draws.
  \<^item> Some theorems are about defects: a destroyed channel left in the heap of its state, a sender channel that dangles after a move, a
    lost implementation after a move assignment, a profiler pass that never ends, a packet size that is known to fail, a
    handshake that succeeds without an answer, a maximum that is not one of the values, a report that is read wrongly
    because it takes more than one datagram.

  How the code is modelled.

  \<^item> A failing \<^verbatim>\<open>assert\<close>, and a read through a null or dangling pointer, is \<open>None\<close>. Where the code tests the
    condition again and goes on in a release build, \<open>check dbg\<close> is the assertion and \<open>dbg\<close> says whether it is compiled in.
  \<^item> The standard heap algorithms are written out as the usual sifts of a binary heap.
    \<^verbatim>\<open>force_pop_heap\<close> gives \<^verbatim>\<open>pop_heap\<close> a range that is not a heap; that this works relies on the sift
    that the known implementations use, and not on the documented precondition.
  \<^item> Mutexes are modelled by the atomicity of the sections they protect (\<open>Lock_Discipline\<close> proves that sections
    under different mutexes commute, so that nothing is lost by it), the condition variable by the workers' program
    counters, with spurious wake-ups and, in Stop, the time between the flag and the notification. The logging and the clock readings around a section are part of its step. What callbacks do
    with packets is steps of user threads; \<open>Api_Steps\<close> proves that the calls that users can make are such steps, with
    other threads between the sections of Acquire too.
  \<^item> Time stamps are integers below \<open>kMaxTime\<close>; the differences that the code takes do not overflow for clock values. A double is a real
    number; where its bits or its rounding show, they are arguments. The counters that only grow (\<^verbatim>\<open>log_count_\<close>, \<^verbatim>\<open>sent_packets_\<close>)
    and the thread ids have the 32 bits of an \<^verbatim>\<open>int\<close>; a \<^verbatim>\<open>size_t\<close> has 64 bits on both computers of a handshake.
  \<^item> What comes from outside is an argument: readings of the clock, addresses of new objects, results and datagrams of the operating
    system, the memory of uninitialised objects, the contents of strings behind pointers, user functions.
  \<^item> Fuel: \<open>run_tasks\<close> gets the number of iterations (one more than there are queued packets is proved to be
    enough); the loops of \<open>Profiler_Impl\<close> and \<open>UDP_Connection\<close> get a bound too, with lemmas that it is reached or, for
    the pass that never ends, that no bound is enough. Acquire's loop runs at most twice.

  Not modelled: memory orders of atomics and the fairness of the spin lock; the scheduling by the operating system beyond "any order of
  sections"; constructors and destructors of user types (the data of a packet are bytes); exceptions of the standard
  library and failing allocations; the C++ mechanism that runs the registrars of event types before
  \<^verbatim>\<open>main\<close>; of the log analyzer the flags, measurements, plots and the web server, which start from what is
  modelled here and share no code with the library.
\<close>

section \<open>The running system\<close>

text \<open>
  C1: No lost work. While the scheduler runs, if every worker sleeps on the condition variable then no
  scheduled channel has a packet in its queue, whatever the threads did before and in whatever order.
\<close>

theorem asleep_means_no_work:
  assumes "reachable W" and "keep_running (sched (pipe W))"
    and "\<forall>i<worker_count W. pcs W i = Waiting" and "x \<in> registered W" and "has_callback (chan (pipe W) x)"
  shows "queued_set (chan (pipe W) x) = {}"
  using world_inv_reachable [OF assms(1)] assms(2-5) by (rule asleep_no_job)

theorem asleep_means_no_work_witness: "queued_set (chan (pipe ex_asleep) 21) = {}"
  using ex_asleep_facts by (rule asleep_means_no_work)

text \<open>
  C2: Mutual exclusion. Two workers never execute callbacks of the same non-null state object at the
  same time, and the state is disabled (out of the state queue) as long as one does.
\<close>

theorem stateful_callbacks_exclusive:
  assumes "reachable W" and "servicing W i st" and "st \<noteq> nullptr"
  shows "(\<forall>j. servicing W j st \<longrightarrow> j = i) \<and> \<not> is_enabled (sched (pipe W)) st \<and>
    st \<notin> heap_set (state_queue (sched (pipe W)))"
proof -
  have ex: "exclusion W" and inv: "pipeline_inv (pipe W)"
    using world_inv_reachable [OF assms(1)] by (simp_all add: world_inv_def)
  have no: "\<not> is_enabled (sched (pipe W)) st"
    using ex assms(2,3) unfolding exclusion_def is_enabled_def by blast
  then have "st \<notin> ready_states (sched (pipe W))" by (auto simp: ready_states_def is_enabled_def)
  with inv no ex assms(2,3) show ?thesis
    unfolding exclusion_def pipeline_inv_def sched_inv_def states_inv_def by blast
qed

theorem stateful_callbacks_exclusive_witness:
  "\<not> servicing ex_servicing 1 7 \<and> \<not> is_enabled (sched (pipe ex_servicing)) 7 \<and>
    7 \<notin> heap_set (state_queue (sched (pipe ex_servicing)))"
  using stateful_callbacks_exclusive [OF ex_servicing_facts(1,2)] by (auto simp: nullptr_def)

text \<open>
  C3: No packet is lost or handed out twice. In every reachable state the slots of a registered
  channel's pool are the disjoint union of the free stack, the queue and the packets that threads hold, and
  their numbers add up to the capacity.
\<close>

theorem packets_conserved:
  assumes "reachable W" and "x \<in> registered W"
  shows "slots (chan (pipe W) x) =
      set (free_packets (chan (pipe W) x)) \<union> queued_set (chan (pipe W) x) \<union> held_packets W x \<and>
    GetFreeBufferLength (chan (pipe W) x) + GetQueuedBufferLength (chan (pipe W) x) + card (held_packets W x) =
      channel_capacity (chan (pipe W) x)"
  using slots_partition(1) [OF world_inv_reachable assms(2)] slots_count [OF world_inv_reachable assms(2)] assms(1)
  by (simp add: GetFreeBufferLength_def GetQueuedBufferLength_def)

theorem packets_conserved_witness:
  "slots (chan (pipe ex_servicing) 21) = set (free_packets (chan (pipe ex_servicing) 21)) \<union>
      queued_set (chan (pipe ex_servicing) 21) \<union> held_packets ex_servicing 21"
  using packets_conserved [OF ex_servicing_facts(1,3)] by simp

text \<open>
  C4: No assertion fails while the system runs. In every reachable state the worker's pick, the end of
  a callback, GetNext, Push of a packet that is being filled (with timestamps in the past), Release of a packet that
  is being processed and the second half of dropping all return.
\<close>

theorem sections_never_fail:
  assumes "reachable W"
  shows "pick_task (now W) (pipe W) \<noteq> None \<and>
    (\<forall>i<worker_count W. \<forall>st x p e. pcs W i = Executing st x p \<longrightarrow>
       finish_task st (set_channel x (Log e (chan (pipe W) x)) (pipe W)) \<noteq> None) \<and>
    (\<forall>x\<in>registered W. \<forall>p t dropping.
       GetNext (now W) x dropping (pipe W) \<noteq> None \<and>
       (held W x p = Some Filling \<longrightarrow> packet_time (chan (pipe W) x) p \<le> t \<longrightarrow>
          op_time (chan (pipe W) x) p \<le> t \<longrightarrow> t \<le> now W \<longrightarrow> Push t x p (pipe W) \<noteq> None) \<and>
       (held W x p = Some Processing \<longrightarrow> ReleaseAt (now W) x p False (pipe W) \<noteq> None) \<and>
       (held W x p = Some Dropping \<longrightarrow> ReleaseAt t x p True (pipe W) \<noteq> None))"
proof -
  have inv: "world_inv W" using assms by (rule world_inv_reachable)
  have "op_time (chan (pipe W) x) p \<le> now W" if "x \<in> registered W" "held W x p = Some Processing" for x p
    using world_invD(5) [OF inv that(1)] that(2) by simp
  with inv show ?thesis
    by (simp add: pick_succeeds finish_succeeds GetNext_succeeds Push_succeeds ReleaseAt_succeeds)
qed

theorem sections_never_fail_witness:
  "ReleaseAt 6 21 1000 False (pipe ex_servicing) \<noteq> None"
  using sections_never_fail [OF ex_servicing_facts(1)] ex_servicing_facts(3-5) by simp

text \<open>
  C5: Earliest deadline first. The job a worker picks has the least timestamp of all queued packets of
  scheduled channels whose state is not being serviced.
\<close>

theorem pick_is_earliest:
  assumes "reachable W" and "pick_task (now W) (pipe W) = Some (Some (st, x, p), w')"
  shows "earliest_job (pipe W) x p \<and> st = single_thread_object (chan (pipe W) x) \<and>
    queued_set (chan w' x) = queued_set (chan (pipe W) x) - {p} \<and> (\<forall>y. y \<noteq> x \<longrightarrow> chan w' y = chan (pipe W) y)"
proof -
  have inv: "world_inv W" using assms(1) by (rule world_inv_reachable)
  have "ready_states (sched (pipe W)) \<noteq> {}" using assms(2) pick_none [OF _ world_invD(1) [OF inv]] by fastforce
  from pick_task_ok [OF world_invD(1) [OF inv] this world_invD(2) [OF inv]] assms(2) show ?thesis by auto
qed

theorem pick_is_earliest_witness: "earliest_job (pipe ex_locking) 21 1000"
  using pick_is_earliest [OF ex_locking_facts(1), of 7 21 1000 "pipe ex_servicing"]
    ex_locking_facts(4) ex_servicing_facts(6) by simp

text \<open>
  C6: A worker left alone runs everything, in order. Started on a pipeline whose callbacks only consume,
  the loop of RunTasks executes every queued packet of the scheduled channels exactly once, in the order of the
  timestamps, and ends with nothing queued; one iteration more than there are packets is enough.
\<close>

theorem worker_drains_in_order:
  assumes "idle impl (clk k) w" and "mono clk" and "card (jobs w) < n"
  shows "\<exists>js w'. run_tasks (sink_callback impl) clk n k w = Some (js, w') \<and> set js = jobs w \<and> distinct js \<and>
    sorted (map (job_time w) js) \<and> jobs w' = {} \<and> pipeline_inv w'"
  using assms by (rule sink.run_tasks_drains)

theorem worker_drains_in_order_witness:
  "\<exists>js w'. run_tasks (sink_callback ex_impl) (\<lambda>k. 6 + int k) 2 0 ex_idle = Some (js, w') \<and> set js = {(21, 1000)} \<and>
    jobs w' = {}"
proof -
  have "mono (\<lambda>k. 6 + int k)" by (simp add: mono_def)
  then show ?thesis
    using worker_drains_in_order [of ex_impl "\<lambda>k. 6 + int k" 0 ex_idle 2] ex_idle_ok ex_idle_jobs by auto
qed

section \<open>The operations of a channel\<close>

text \<open>
  C11: Push. Pushing a held packet with timestamps in the past fails no assertion, adds exactly that
  packet to the channel's queue, touches no other channel, keeps the two levels of heaps in order and announces every
  state that becomes ready to the workers.
\<close>

theorem Push_correct:
  assumes "pipeline_inv w" and "x \<in> set (channels (sched w))" and "in_transit w x p"
    and "packet_time (chan w x) p \<le> t" and "op_time (chan w x) p \<le> t" and "t < kMaxTime"
  shows "\<exists>w'. Push t x p w = Some w' \<and> pipeline_inv w' \<and> announced (sched w) (sched w') \<and>
    (\<forall>y. y \<noteq> x \<longrightarrow> chan w' y = chan w y) \<and> free_packets (chan w' x) = free_packets (chan w x) \<and>
    queued_set (chan w' x) = insert p (queued_set (chan w x)) \<and>
    packet_time (chan w' x) = packet_time (chan w x)"
  using Push_ok [OF assms] by blast

theorem Push_correct_witness:
  "\<exists>w'. Push 5 21 1000 ex_filling = Some w' \<and> queued_set (chan w' 21) = {1000}"
  using Push_correct [OF ex_filling_facts(1) _ ex_filling_facts(2), of 5] ex_filling_facts(3,5,6,7)
  by (auto simp: kMaxTime_def)

text \<open>
  C12: PopNext returns the packet with the least timestamp of the queue, removes exactly that packet
  and keeps the heaps of the scheduler in order, also when the channel becomes empty or its next packet is later.
\<close>

theorem PopNext_correct:
  assumes "pipeline_inv w" and "x \<in> set (channels (sched w))" and "queued_set (chan w x) \<noteq> {}"
    and "dropping \<or> (\<forall>y\<in>queued_set (chan w x). packet_time (chan w x) y \<le> t)"
  shows "\<exists>p w'. PopNext t x dropping w = Some (p, w') \<and> p \<in> queued_set (chan w x) \<and>
    (\<forall>y\<in>queued_set (chan w x). packet_time (chan w x) p \<le> packet_time (chan w x) y) \<and>
    queued_set (chan w' x) = queued_set (chan w x) - {p} \<and> pipeline_inv w' \<and>
    (\<forall>y. y \<noteq> x \<longrightarrow> chan w' y = chan w y) \<and> free_packets (chan w' x) = free_packets (chan w x) \<and>
    (\<not> dropping \<longrightarrow> op_time (chan w' x) p = t)"
proof -
  from PopNext_ok [OF assms] obtain p w' where pw: "PopNext t x dropping w = Some (p, w')"
    "heap_front (queued_packets (chan w x)) = Some p" "pipeline_inv w'" "\<forall>y. y \<noteq> x \<longrightarrow> chan w' y = chan w y"
    "free_packets (chan w' x) = free_packets (chan w x)" "queued_set (chan w' x) = queued_set (chan w x) - {p}"
    "if dropping then op_time (chan w' x) p = op_time (chan w x) p else op_time (chan w' x) p = t"
    by (elim exE conjE) (rule that)
  with front_earliest [OF assms(1,2) pw(2)] show ?thesis by auto
qed

theorem PopNext_correct_witness:
  "\<exists>p w'. PopNext 6 21 False ex_queued = Some (p, w') \<and> p = 1000 \<and> queued_set (chan w' 21) = {}"
proof -
  have "21 \<in> set (channels (sched ex_queued))" by (simp add: ex_queued_facts(3))
  from PopNext_correct [OF ex_queued_facts(2) this, of False 6] show ?thesis
    by (auto simp: ex_queued_facts(4,6))
qed

text \<open>
  C13: Acquire. With a free packet it takes the top of the stack; with none it drops the earliest queued
  packet and hands out its slot; it returns nothing only when neither exists, and then changes nothing.
\<close>

theorem Acquire_correct:
  assumes "pipeline_inv w" and "x \<in> set (channels (sched w))"
  shows "\<exists>r w'. Acquire t x w = Some (r, w') \<and> pipeline_inv w' \<and> local_change x w w' \<and>
    (case r of
       None \<Rightarrow> free_packets (chan w x) = [] \<and> queued_set (chan w x) = {} \<and> w' = w
     | Some p \<Rightarrow> in_transit w' x p \<and> op_time (chan w' x) p = t \<and>
         (if free_packets (chan w x) \<noteq> []
          then p = last (free_packets (chan w x)) \<and> free_packets (chan w' x) = butlast (free_packets (chan w x)) \<and>
            queued_set (chan w' x) = queued_set (chan w x)
          else p \<in> queued_set (chan w x) \<and>
            (\<forall>y\<in>queued_set (chan w x). packet_time (chan w x) p \<le> packet_time (chan w x) y) \<and>
            queued_set (chan w' x) = queued_set (chan w x) - {p}))"
proof (cases "free_packets (chan w x) = []")
  case free: True
  show ?thesis
  proof (cases "queued_set (chan w x) = {}")
    case True
    with free assms(1) Acquire_none [OF free True] show ?thesis by simp
  next
    case False
    from Acquire_dropping [OF assms free False, of t] obtain p w' where pw: "Acquire t x w = Some (Some p, w')"
      "heap_front (queued_packets (chan w x)) = Some p" "pipeline_inv w'" "local_change x w w'" "in_transit w' x p"
      "queued_set (chan w' x) = queued_set (chan w x) - {p}" "op_time (chan w' x) p = t"
      by (elim exE conjE) (rule that)
    with free front_earliest [OF assms pw(2)] show ?thesis by (intro exI [of _ "Some p"] exI [of _ w']) simp
  qed
next
  case False
  then have "free_packets (chan w x) = butlast (free_packets (chan w x)) @ [last (free_packets (chan w x))]" by simp
  from Acquire_free [OF assms this, of t] False show ?thesis by fastforce
qed

theorem Acquire_correct_witness:
  "\<exists>r w'. Acquire 4 21 ex_built = Some (r, w') \<and> pipeline_inv w' \<and> local_change 21 ex_built w'"
proof -
  have "21 \<in> set (channels (sched ex_built))" by (simp add: ex_built_inv(5))
  from Acquire_correct [OF ex_built_inv(2) this, of 4] show ?thesis by (elim exE conjE) (intro exI conjI)
qed

section \<open>SteadyHeap\<close>

text \<open>
  C14: force_pop_heap. An entry whose key has changed in either direction since it was inserted is
  removed, and what is left is a heap for the new keys.
\<close>

theorem force_pop_heap_correct:
  assumes "queue_inv k h" and "x \<in> heap_set h" and "\<forall>y\<in>heap_set h. y \<noteq> x \<longrightarrow> k' y = k y"
  shows "\<exists>h'. force_pop_heap (by_key k') x h = Some h' \<and> queue_inv k' h' \<and> heap_set h' = heap_set h - {x} \<and>
    heap_capacity h' = heap_capacity h"
  using assms by (intro queue_force_pop) auto

definition ex_heap :: "int steady_heap" where
  "ex_heap = push_heap (by_key id) 3 (push_heap (by_key id) 7 (push_heap (by_key id) 5 (heap_reserve 3 steady_heap_new)))"

lemma ex_heap_facts: "queue_inv id ex_heap" "heap_set ex_heap = {3, 5, 7}"
  unfolding ex_heap_def by (intro queue_inv_push) auto

theorem force_pop_heap_correct_witness:
  "\<exists>h'. force_pop_heap (by_key (id(7 := 1))) 7 ex_heap = Some h' \<and> queue_inv (id(7 := 1)) h' \<and> heap_set h' = {3, 5}"
  using force_pop_heap_correct [OF ex_heap_facts(1), of 7 "id(7 := 1)"] by (auto simp: ex_heap_facts)

section \<open>Life cycle\<close>

text \<open>
  C15: Construction of a channel cuts the pool into as many packets as its capacity, puts all of them on
  the free stack, registers the channel behind the others, keeps the pipeline in order and reserves the memory that the
  running scheduler will need.
\<close>

theorem ChannelImpl_new_correct:
  assumes "pipeline_inv w" and "\<not> running (sched w)" and "x \<notin> set (channels (sched w))"
    and "cap * psize < 2 ^ 31" and "base \<noteq> nullptr" and "0 < psize"
  shows "\<exists>w'. ChannelImpl_new name cap psize obj cb base pd x w = Some w' \<and> pipeline_inv w' \<and>
    channels (sched w') = channels (sched w) @ [x] \<and>
    set (free_packets (chan w' x)) = slots (chan w' x) \<and> GetFreeBufferLength (chan w' x) = cap \<and>
    GetQueuedBufferLength (chan w' x) = 0 \<and> (\<forall>y. y \<noteq> x \<longrightarrow> chan w' y = chan w y) \<and>
    (reserved w \<longrightarrow> reserved w')"
proof -
  from ChannelImpl_new_ok [OF assms, of name obj cb pd] obtain w' where
    w': "ChannelImpl_new name cap psize obj cb base pd x w = Some w'" "pipeline_inv w'"
    "channels (sched w') = channels (sched w) @ [x]" "\<forall>y. y \<noteq> x \<longrightarrow> chan w' y = chan w y"
    "set (free_packets (chan w' x)) = slots (chan w' x)" "queued_set (chan w' x) = {}"
    "free_packets (chan w' x) = init_free_packets base cap psize" by blast
  then show ?thesis
    using ChannelImpl_new_reserved [OF _ assms(1,3) w'(1)]
    by (auto simp: GetFreeBufferLength_def GetQueuedBufferLength_def init_free_packets_def heap_size_def
        queued_set_def heap_set_def)
qed

theorem ChannelImpl_new_correct_witness:
  "\<exists>w'. ChannelImpl_new 12 1 8 7 True 2000 0 22 ex_one = Some w' \<and> pipeline_inv w' \<and> GetFreeBufferLength (chan w' 22) = 1"
  using ChannelImpl_new_correct [OF ex_one_inv(2,3), of 22 1 8 2000 12 7 True 0]
  by (auto simp: ex_one_inv(5) nullptr_def)

text \<open>
  C16: Destroying a scheduled channel that still has queued packets leaves it, with its pool deleted, in
  its state's heap, although it is no longer registered; workers of a later Start would find it there.
\<close>

theorem ChannelImpl_destroy_leaves_dangling:
  assumes "pipeline_inv w" and "x \<in> set (channels (sched w))" and "\<not> running (sched w)"
    and "has_profiler (sched w) \<longrightarrow> profile_data (chan w x) \<noteq> nullptr"
    and "has_callback (chan w x)" and "queued_set (chan w x) \<noteq> {}"
  shows "\<exists>w' q. ChannelImpl_destroy x w = Some w' \<and> x \<notin> set (channels (sched w')) \<and> pool (chan w' x) = nullptr \<and>
    state_queues (sched w') (single_thread_object (chan w x)) = Some q \<and> x \<in> heap_set (channel_heap q)"
  using ChannelImpl_destroy_dangling [OF assms(1-3)] assms(4-6) by (simp add: has_job_def)

theorem ChannelImpl_destroy_leaves_dangling_witness:
  "\<exists>w' q. ChannelImpl_destroy 21 ex_queued = Some w' \<and> 21 \<notin> set (channels (sched w')) \<and>
    state_queues (sched w') 7 = Some q \<and> 21 \<in> heap_set (channel_heap q)"
proof -
  have c: "\<not> running (sched ex_queued)" "\<not> has_profiler (sched ex_queued)" "21 \<in> set (channels (sched ex_queued))"
    using ex_frames(1) ex_built_inv ex_built_no_profiler by (simp_all add: same_config_def)
  have "single_thread_object (chan ex_queued 21) = 7" using same_staticD(1) [OF ex_frames(4)] ex_one_chan(5) by simp
  with ChannelImpl_destroy_leaves_dangling [OF ex_queued_facts(2) c(3,1)] c(2) ex_has_job(1) show ?thesis
    by (auto simp: has_job_def)
qed

section \<open>Further operations\<close>

text \<open>
  Start makes as many workers as configured, starts the profiler and the receivers in this order, and
  leaves a world from which everything said about the running system holds; with an invalid state it fails its
  assertion, or does nothing when assertions are compiled out.
\<close>

theorem Start_correct:
  assumes "pipeline_inv (pipe W)" and "\<not> running (sched (pipe W))" and "0 < workers_number (sched (pipe W))"
    and "all_enabled (sched (pipe W))" and "ownership W" and "clock_inv W" and "\<not> stopping W"
  shows "if valid_state (sched (pipe W))
    then \<exists>s'. Start dbg (sched (pipe W)) = Some s' \<and>
        effects s' = effects (sched (pipe W)) @ replicate (workers_number (sched (pipe W))) SpawnWorker @
          (if has_profiler (sched (pipe W)) then [ProfilerStart] else []) @
          map ReceiverStart (receivers (sched (pipe W))) \<and>
        reachable (W\<lparr>pipe := (pipe W)\<lparr>sched := s'\<rparr>, pcs := (\<lambda>_. Idle)\<rparr>)
    else Start dbg (sched (pipe W)) = (if dbg then None else Some (sched (pipe W)))"
  using Start_started [OF assms(1,2) _ assms(3-7), of dbg] Start_eq [OF assms(2), of dbg]
    Start_invalid [of "sched (pipe W)" dbg] reachable.start
  by auto

theorem Start_correct_witness:
  "\<exists>s'. Start True (sched ex_queued) = Some s' \<and>
    effects s' = effects (sched ex_queued) @ [SpawnWorker, SpawnWorker] @ map ReceiverStart (receivers (sched ex_queued))"
proof -
  have c: "\<not> running (sched ex_queued)" "valid_state (sched ex_queued)" "workers_number (sched ex_queued) = 2"
    "channels (sched ex_queued) = [21, 22, 23]" "has_profiler (sched ex_queued) = has_profiler (sched ex_built)"
    using ex_frames(1) ex_built_inv by (simp_all add: same_config_def)
  have "ownership (ex_before ex_queued)" using ex_not_in_transit(2) c(4) by (simp add: ex_before_def ownership_def registered_def)
  moreover have "clock_inv (ex_before ex_queued)" using ex_queued_past by (simp add: ex_before_def clock_inv_def kMaxTime_def)
  moreover have "all_enabled (sched ex_queued)" using ex_frames(1) ex_built_inv(4) by (rule same_config_all_enabled)
  moreover have "\<not> has_profiler (sched ex_queued)"
    using c(5) by (simp add: ex_built_no_profiler)
  ultimately show ?thesis
    using Start_correct [of "ex_before ex_queued" True] c ex_queued_facts(2)
    by (auto simp: ex_before_def numeral_2_eq_2)
qed

text \<open>
  JobsArrived: when a channel of a stateful or stateless node gets its first packet, the
  notification inserts it into its state's heap and the state into the state queue where it belongs, without failing an
  assertion, and wakes a worker if the state has become ready.
\<close>

theorem JobsArrived_correct:
  assumes "sched_inv ch0 s" and "updated ch0 x ch" and "x \<in> set (channels s)"
    and "\<not> has_job ch0 x" and "has_job ch x" and "times_ok ch s"
  shows "\<exists>s'. JobsArrived ch x s = Some s' \<and> sched_inv ch s' \<and> same_config s s' \<and> announced s s'"
  using assms by (rule JobsArrived_ok)

theorem JobsArrived_correct_witness:
  "\<exists>s'. JobsArrived (chan ex_queued) 21 (sched ex_filling) = Some s' \<and> sched_inv (chan ex_queued) s'"
proof -
  have "21 \<in> set (channels (sched ex_filling))" by (simp add: ex_filling_facts(7))
  from JobsArrived_correct [OF ex_sched_inv(1) ex_updated(1) this ex_has_job(2,1) ex_times] show ?thesis by blast
qed

text \<open>
  Release puts exactly the held packet on top of the free stack and fails no assertion.
\<close>

theorem Release_correct:
  assumes "pipeline_inv w" and "x \<in> set (channels (sched w))" and "in_transit w x p"
    and "dropping \<or> op_time (chan w x) p \<le> t"
  shows "\<exists>c. ReleaseAt t x p dropping w = Some (set_channel x c w) \<and> pipeline_inv (set_channel x c w) \<and>
    free_packets c = free_packets (chan w x) @ [p] \<and> queued_set c = queued_set (chan w x)"
  using ReleaseAt_ok [OF assms] by blast

theorem Release_correct_witness:
  "\<exists>c. ReleaseAt 7 21 1000 False ex_filling = Some (set_channel 21 c ex_filling) \<and> free_packets c = [1008, 1000]"
  using Release_correct [OF ex_filling_facts(1) _ ex_filling_facts(2), of False 7] ex_filling_facts(4,5,7) by auto

text \<open>
  JobsUpdated. When the earliest packet of a channel that already has work changes (a push or a pop,
  so the key may move either way), the notification restores both levels of heaps.
\<close>

theorem JobsUpdated_correct:
  assumes "sched_inv ch0 s" and "updated ch0 x ch" and "x \<in> set (channels s)"
    and "has_job ch0 x" and "has_job ch x"
  shows "\<exists>s'. JobsUpdated ch x was_push s = Some s' \<and> sched_inv ch s' \<and> same_config s s' \<and> announced s s'"
  using assms by (rule JobsUpdated_ok)

theorem JobsUpdated_correct_witness:
  "\<exists>s'. JobsUpdated (chan ex_queued) 21 True (sched ex_queued) = Some s' \<and> sched_inv (chan ex_queued) s'"
proof -
  have "21 \<in> set (channels (sched ex_queued))" by (simp add: ex_queued_facts(3))
  from JobsUpdated_correct [OF ex_sched_inv(2) updated_refl this ex_has_job(1,1)] show ?thesis by blast
qed

text \<open>
  JobsDropped. When a channel's queue becomes empty the notification takes it out of its state's heap
  and, if need be, the state out of the state queue.
\<close>

theorem JobsDropped_correct:
  assumes "sched_inv ch0 s" and "updated ch0 x ch" and "x \<in> set (channels s)"
    and "has_job ch0 x" and "\<not> has_job ch x"
  shows "\<exists>s'. JobsDropped ch x s = Some s' \<and> sched_inv ch s' \<and> same_config s s' \<and> announced s s'"
  using assms by (rule JobsDropped_ok)

theorem JobsDropped_correct_witness:
  "\<exists>s'. JobsDropped (chan ex_filling) 21 (sched ex_queued) = Some s' \<and> sched_inv (chan ex_filling) s'"
proof -
  have "21 \<in> set (channels (sched ex_queued))" by (simp add: ex_queued_facts(3))
  from JobsDropped_correct [OF ex_sched_inv(2) ex_updated(2) this ex_has_job(1,2)] show ?thesis by blast
qed

text \<open>
  push_heap inserts the entry and keeps the heap; below the reserved capacity it allocates nothing.
\<close>

theorem push_heap_correct:
  assumes "queue_inv k h" and "x \<notin> heap_set h"
  shows "queue_inv k (push_heap (by_key k) x h) \<and> heap_set (push_heap (by_key k) x h) = insert x (heap_set h) \<and>
    (heap_size h < heap_capacity h \<longrightarrow> heap_capacity (push_heap (by_key k) x h) = heap_capacity h)"
  using assms queue_inv_push by simp

theorem push_heap_correct_witness: "queue_inv id (push_heap (by_key id) 4 ex_heap)"
  using push_heap_correct [OF ex_heap_facts(1), of 4] by (simp add: ex_heap_facts)

text \<open>
  A channel with an empty queue can be destroyed: it disappears from the registry and the rest of
  the pipeline stays in order.
\<close>

theorem ChannelImpl_destroy_correct:
  assumes "pipeline_inv w" and "x \<in> set (channels (sched w))" and "\<not> running (sched w)"
    and "has_profiler (sched w) \<longrightarrow> profile_data (chan w x) \<noteq> nullptr" and "queued_set (chan w x) = {}"
  shows "\<exists>w'. ChannelImpl_destroy x w = Some w' \<and> pipeline_inv w' \<and>
    set (channels (sched w')) = set (channels (sched w)) - {x}"
  using ChannelImpl_destroy_ok [OF assms(1-3)] assms(4,5) by (auto simp: has_job_def)

theorem ChannelImpl_destroy_correct_witness:
  "\<exists>w'. ChannelImpl_destroy 22 ex_built = Some w' \<and> pipeline_inv w' \<and> set (channels (sched w')) = {21, 23}"
  using ChannelImpl_destroy_correct [OF ex_built_inv(2) _ ex_built_inv(3), of 22] ex_built_inv(5)
    ex_built_chan(2) ex_two_chan(3) by (auto simp: ex_built_no_profiler)

text \<open>
  pop_heap removes the front, which has the least key of all entries, and keeps the heap and its
  memory.
\<close>

theorem pop_heap_correct:
  assumes "queue_inv k h" and "heap_set h \<noteq> {}"
  shows "\<exists>x h'. heap_front h = Some x \<and> x \<in> heap_set h \<and> (\<forall>y\<in>heap_set h. k x \<le> k y) \<and>
    pop_heap (by_key k) h = Some h' \<and> queue_inv k h' \<and> heap_set h' = heap_set h - {x} \<and>
    heap_capacity h' = heap_capacity h"
proof -
  from heap_front_ex [OF assms(2)] obtain x where x: "heap_front h = Some x" ..
  with queue_pop [OF assms(1) x] queue_front_min [OF assms(1) x] show ?thesis by blast
qed

theorem pop_heap_correct_witness:
  "\<exists>x h'. heap_front ex_heap = Some x \<and> pop_heap (by_key id) ex_heap = Some h' \<and> heap_set h' = {3, 5, 7} - {x}"
  using pop_heap_correct [OF ex_heap_facts(1)] by (auto simp: ex_heap_facts)

text \<open>
  Stopping. Once keep_running is cleared and the notification sent no worker waits any more, and when all of them have left
  their loops every state is enabled, so that a second Start finds the scheduler as the first did.
\<close>

theorem stop_leaves_no_worker_behind:
  assumes "reachable W" and "stopped W"
  shows "(\<forall>i<worker_count W. pcs W i \<noteq> Waiting) \<and>
    ((\<forall>i<worker_count W. pcs W i = Exited) \<longrightarrow> all_enabled (sched (pipe W)))"
  using world_inv_reachable [OF assms(1)] assms(2) exited_all_enabled [of W]
  by (simp add: world_inv_def no_stall_def stopped_def)

theorem stop_leaves_no_worker_behind_witness:
  "\<exists>W. reachable W \<and> worker_count W = worker_count ex_asleep \<and> Waiting \<notin> pcs W ` {..<worker_count W}"
proof -
  let ?U = "ex_asleep\<lparr>pipe := clear_keep_running (pipe ex_asleep), stopping := True\<rparr>"
  let ?W = "?U\<lparr>pcs := (\<lambda>i. if pcs ?U i = Waiting then Locking else pcs ?U i), stopping := False\<rparr>"
  have "reachable ?U" using ex_asleep_facts(1) step.stop_request [OF ex_asleep_facts(2)] by (rule reachable.step)
  then have r: "reachable ?W" by (rule reachable.step) (rule step.stop_notify, simp)
  have "stopped ?W" by (simp add: stopped_def clear_keep_running_def)
  from stop_leaves_no_worker_behind [OF r this] have "Waiting \<notin> pcs ?W ` {..<worker_count ?W}" by fastforce
  moreover have "worker_count ?W = worker_count ex_asleep" by (simp add: worker_count_def clear_keep_running_def)
  ultimately show ?thesis using r by blast
qed

end
